(* ===== verification/Prelude.thy ===== *)
theory Prelude
  imports Main "HOL-Library.Sublist" "HOL-Library.Word"
begin

text \<open>
  What the component theories share: runs of a labelled step function and its reachable states,
  the locale that turns a one-step invariant into an invariant of every run, the locale of
  prefix codes that both string encodings of the documentation search use, the locale of a
  first-in first-out queue, and generic facts on lists.
\<close>

section \<open>Collections of facts\<close>

named_theorems step_defs \<open>definitions of the step functions of the components\<close>
named_theorems sys_simps \<open>characteristic equations of the components' operations\<close>

section \<open>Labelled step functions\<close>

text \<open>
  A component whose operations interleave is a step function \<open>'s \<Rightarrow> 'e \<Rightarrow> 's option\<close>: the
  label says which operation, callback or resumption happens next, and \<open>None\<close> says that it is
  not enabled in the state.
\<close>

fun run :: "('s \<Rightarrow> 'e \<Rightarrow> 's option) \<Rightarrow> 's \<Rightarrow> 'e list \<Rightarrow> 's option" where
  "run step s [] = Some s"
| "run step s (e # es) = (case step s e of None \<Rightarrow> None | Some t \<Rightarrow> run step t es)"

inductive reachable :: "('s \<Rightarrow> 'e \<Rightarrow> 's option) \<Rightarrow> 's \<Rightarrow> 's \<Rightarrow> bool"
  for step :: "'s \<Rightarrow> 'e \<Rightarrow> 's option" and init :: 's where
  reachable_init: "reachable step init init"
| reachable_step: "reachable step init s \<Longrightarrow> step s e = Some t \<Longrightarrow> reachable step init t"

lemma run_append: "run step s (es @ fs) = Option.bind (run step s es) (\<lambda>t. run step t fs)"
  by (induction es arbitrary: s) (auto split: option.splits)

lemma reachable_run:
  assumes "reachable step init s" and "run step s es = Some t"
  shows "reachable step init t"
  using assms
proof (induction es arbitrary: s)
  case Nil
  then show ?case by simp
next
  case (Cons e es)
  then obtain u where u: "step s e = Some u" and r: "run step u es = Some t"
    by (auto split: option.splits)
  from Cons.prems(1) u have "reachable step init u" by (rule reachable_step)
  then show ?case using r by (rule Cons.IH)
qed

lemma run_reachable: "run step init es = Some t \<Longrightarrow> reachable step init t"
  using reachable_run [OF reachable_init] .

text \<open>An invariant of the initial state and of every step is an invariant of every run.\<close>

locale inductive_invariant =
  fixes step :: "'s \<Rightarrow> 'e \<Rightarrow> 's option" and init :: 's and inv :: "'s \<Rightarrow> bool"
  assumes inv_init: "inv init"
    and inv_step: "inv s \<Longrightarrow> step s e = Some t \<Longrightarrow> inv t"
begin

lemma reachable_inv: "reachable step init s \<Longrightarrow> inv s"
  by (induction rule: reachable.induct) (auto intro: inv_init inv_step)

lemma run_inv: "inv s \<Longrightarrow> run step s es = Some t \<Longrightarrow> inv t"
  by (induction es arbitrary: s) (auto intro: inv_step split: option.splits)

end

section \<open>Refinement of an abstract machine\<close>

text \<open>
  A component implements an abstract machine if each of its steps is, seen through \<open>absf\<close>, one abstract step or none;
  \<open>lab\<close> says which. Then every run is, step for step, a run of the abstract machine.
\<close>

fun trace :: "('s \<Rightarrow> 'e \<Rightarrow> 's option) \<Rightarrow> ('s \<Rightarrow> 'e \<Rightarrow> 'a option) \<Rightarrow> 's \<Rightarrow> 'e list \<Rightarrow> 'a list" where
  "trace step lab s [] = []"
| "trace step lab s (e # es) =
     (case step s e of
        None \<Rightarrow> []
      | Some t \<Rightarrow> (case lab s e of None \<Rightarrow> trace step lab t es | Some a \<Rightarrow> a # trace step lab t es))"

locale simulation = inductive_invariant step init inv
  for step :: "'s \<Rightarrow> 'e \<Rightarrow> 's option" and init :: 's and inv :: "'s \<Rightarrow> bool" +
  fixes astep :: "'t \<Rightarrow> 'a \<Rightarrow> 't option" and ainit :: 't and absf :: "'s \<Rightarrow> 't" and lab :: "'s \<Rightarrow> 'e \<Rightarrow> 'a option"
  assumes abs_init: "absf init = ainit"
    and abs_skip: "inv s \<Longrightarrow> step s e = Some t \<Longrightarrow> lab s e = None \<Longrightarrow> absf t = absf s"
    and abs_step: "inv s \<Longrightarrow> step s e = Some t \<Longrightarrow> lab s e = Some a \<Longrightarrow> astep (absf s) a = Some (absf t)"
begin

lemma simulates:
  "inv s \<Longrightarrow> run step s es = Some t \<Longrightarrow> run astep (absf s) (trace step lab s es) = Some (absf t)"
proof (induction es arbitrary: s)
  case (Cons e es)
  then obtain u where u: "step s e = Some u" and r: "run step u es = Some t" by (auto split: option.splits)
  have "run astep (absf u) (trace step lab u es) = Some (absf t)"
    using Cons.IH [OF inv_step [OF Cons.prems(1) u] r] .
  then show ?case
    using u abs_skip [OF Cons.prems(1) u] abs_step [OF Cons.prems(1) u] by (auto split: option.splits)
qed simp

lemma runs_refine: "run step init es = Some t \<Longrightarrow> run astep ainit (trace step lab init es) = Some (absf t)"
  using simulates [OF inv_init] by (simp add: abs_init)

end

section \<open>First-in first-out queues\<close>

text \<open>
  What a scheduler's ready queue promises its client: \<open>enq\<close> adds at the back and \<open>deq\<close> takes
  the front. The client lemma runs any interleaving of the two and says that what was taken,
  followed by what is left, is what was there followed by what was added, in order.
\<close>

datatype 'a queue_op = Enq 'a | Deq

fun added :: "'a queue_op list \<Rightarrow> 'a list" where
  "added [] = []"
| "added (Enq x # ops) = x # added ops"
| "added (Deq # ops) = added ops"

fun exec_queue :: "('a \<Rightarrow> 'q \<Rightarrow> 'q) \<Rightarrow> ('q \<Rightarrow> 'a option \<times> 'q) \<Rightarrow> 'q \<Rightarrow> 'a queue_op list \<Rightarrow> 'a list \<times> 'q"
where
  "exec_queue enq deq q [] = ([], q)"
| "exec_queue enq deq q (Enq x # ops) = exec_queue enq deq (enq x q) ops"
| "exec_queue enq deq q (Deq # ops) =
     (case deq q of (None, q') \<Rightarrow> exec_queue enq deq q' ops
      | (Some x, q') \<Rightarrow> (case exec_queue enq deq q' ops of (xs, r) \<Rightarrow> (x # xs, r)))"

locale fifo =
  fixes enq :: "'a \<Rightarrow> 'q \<Rightarrow> 'q" and deq :: "'q \<Rightarrow> 'a option \<times> 'q" and contents :: "'q \<Rightarrow> 'a list"
  assumes contents_enq: "contents (enq x q) = contents q @ [x]"
    and deq_empty: "contents q = [] \<Longrightarrow> deq q = (None, q)"
    and deq_nonempty: "contents q = x # xs \<Longrightarrow> fst (deq q) = Some x \<and> contents (snd (deq q)) = xs"
begin

lemma exec_order: "exec_queue enq deq q ops = (taken, r) \<Longrightarrow> taken @ contents r = contents q @ added ops"
proof (induction ops arbitrary: q taken r)
  case Nil
  then show ?case by simp
next
  case (Cons op ops)
  show ?case
  proof (cases op)
    case (Enq x)
    with Cons show ?thesis by (fastforce simp: contents_enq)
  next
    case Deq
    show ?thesis
    proof (cases "contents q")
      case Nil
      with deq_empty have "deq q = (None, q)" by blast
      with Cons Deq show ?thesis by simp
    next
      case q: (Cons x xs)
      with deq_nonempty obtain q' where q': "deq q = (Some x, q')" "contents q' = xs"
        by (metis prod.collapse)
      with Cons.prems Deq obtain taken' where
        e: "exec_queue enq deq q' ops = (taken', r)" "taken = x # taken'"
        by (auto split: prod.splits)
      from Cons.IH [OF e(1)] q'(2) q Deq e(2) show ?thesis by simp
    qed
  qed
qed

end

section \<open>Prefix codes\<close>

text \<open>
  An encoding of letters of which none is a prefix of another is injective on words, and it
  keeps and reflects the prefix order: what a search that compares encoded strings relies on.
\<close>

locale prefix_code =
  fixes enc :: "'a \<Rightarrow> 'b list" and letter :: "'a \<Rightarrow> bool"
  assumes enc_nonempty: "letter a \<Longrightarrow> enc a \<noteq> []"
    and enc_prefix_free: "letter a \<Longrightarrow> letter b \<Longrightarrow> prefix (enc a) (enc b) \<Longrightarrow> a = b"
begin

lemma prefix_concat_iff:
  assumes "list_all letter s" and "list_all letter t"
  shows "prefix (concat (map enc s)) (concat (map enc t)) \<longleftrightarrow> prefix s t"
  using assms
proof (induction s arbitrary: t)
  case Nil
  then show ?case by simp
next
  case (Cons a s)
  show ?case
  proof (cases t)
    case Nil
    with Cons.prems enc_nonempty show ?thesis by simp
  next
    case t: (Cons b t')
    have eq: "a = b" if p: "prefix (enc a @ u) (enc b @ v)" for u v
    proof -
      from p have "prefix (enc a) (enc b @ v)" by (rule append_prefixD)
      then have "prefix (enc a) (enc b) \<or> prefix (enc b) (enc a)"
        by (metis prefixI prefix_same_cases)
      with Cons.prems t show "a = b" using enc_prefix_free by auto
    qed
    show ?thesis
    proof (cases "a = b")
      case True
      with Cons t show ?thesis by simp
    next
      case False
      with t eq show ?thesis by auto
    qed
  qed
qed

lemma concat_inj:
  assumes "list_all letter s" and "list_all letter t"
    and "concat (map enc s) = concat (map enc t)"
  shows "s = t"
proof -
  from assms have "prefix s t" using prefix_concat_iff [of s t] by simp
  moreover from assms have "prefix t s" using prefix_concat_iff [of t s] by simp
  ultimately show ?thesis by (rule prefix_order.antisym)
qed

end

end
