(* ===== verification/Scheduler.thy ===== *)
theory Scheduler
  imports Prelude
begin

text \<open>
  The Boost.Fiber scheduling algorithm of \<open>src/scheduler.hpp\<close> and \<open>src/scheduler.cpp\<close>: the
  ready queue, the timer arithmetic, and \<open>suspend_until\<close> as a sequence of steps that interleave
  with \<open>notify\<close> calls of other threads. Every member function that takes \<open>mutex_\<close> is one
  atomic step; the code between two of them runs on the scheduler's own thread. libuv is the
  environment (a data member \<open>x_\<close> of the class is the record field \<open>x\<close>): \<open>uv_run\<close> may return at any time, having run the timer callback of a started timer,
  having consumed a pending \<open>uv_async_send\<close>, and having run callbacks that awaken fibers.
\<close>

section \<open>The scheduler object\<close>

type_synonym fiber = nat

record scheduler =
  queue :: "fiber list"
  wake_up :: bool
  suspended :: bool

definition scheduler_new :: scheduler where
  "scheduler_new = \<lparr>queue = [], wake_up = False, suspended = False\<rparr>"

definition awakened :: "fiber \<Rightarrow> scheduler \<Rightarrow> scheduler" where
  "awakened f s = s\<lparr>queue := queue s @ [f]\<rparr>"

definition pick_next :: "scheduler \<Rightarrow> fiber option \<times> scheduler" where
  "pick_next s =
     (if queue s = [] then (None, s)
      else (Some (hd (queue s)), s\<lparr>queue := tl (queue s)\<rparr>))"

definition has_ready_fibers :: "scheduler \<Rightarrow> bool" where
  "has_ready_fibers s \<longleftrightarrow> queue s \<noteq> []"

definition suspend_enter :: "scheduler \<Rightarrow> bool \<times> scheduler" where
  "suspend_enter s = (let s' = s\<lparr>suspended := True\<rparr> in (wake_up s', s'))"

definition should_wake_up :: "scheduler \<Rightarrow> bool" where
  "should_wake_up s = wake_up s"

definition suspend_exit :: "scheduler \<Rightarrow> scheduler" where
  "suspend_exit s = s\<lparr>wake_up := False, suspended := False\<rparr>"

definition update_notify :: "scheduler \<Rightarrow> bool \<times> scheduler" where
  "update_notify s = (let s' = s\<lparr>wake_up := True\<rparr> in (suspended s', s'))"

section \<open>Time\<close>

text \<open>
  A \<open>steady_clock::time_point\<close> counts nanoseconds in a signed 64-bit integer, read here as an
  \<open>int\<close>; \<open>milliseconds_until\<close> returns a \<open>uint64_t\<close>. The current time is an argument.
\<close>

type_synonym time_point = int

definition time_point_max :: time_point where
  "time_point_max = 2 ^ 63 - 1"

definition milliseconds_until :: "time_point \<Rightarrow> time_point \<Rightarrow> 64 word" where
  "milliseconds_until now abs_time =
     (if now \<ge> abs_time then 0 else word_of_int ((abs_time - now) div 1000000 + 1))"

definition is_max_time :: "time_point \<Rightarrow> bool" where
  "is_max_time abs_time \<longleftrightarrow> abs_time = time_point_max"

definition timer_milliseconds :: "time_point \<Rightarrow> time_point \<Rightarrow> 64 word" where
  "timer_milliseconds now abs_time = max 1 (milliseconds_until now abs_time)"

section \<open>suspend_until and notify as interleaved steps\<close>

text \<open>
  Where the scheduler's thread is in \<open>suspend_until\<close>: not in it, after \<open>suspend_enter\<close> (with its
  result and the argument), blocked in \<open>uv_run\<close>, back from it, after the loop's condition was
  sampled (with \<open>ready_fibers\<close> and \<open>wake_up\<close>), past the loop, and before \<open>suspend_exit\<close>.
\<close>

datatype pc =
    Outside
  | Entered bool time_point
  | Waiting
  | Returned
  | Checked bool bool
  | Leaving
  | Exiting

record sched_sys =
  sched :: scheduler
  timer_active :: bool       \<comment> \<open>the libuv timer is started\<close>
  timer_timeout :: "64 word" \<comment> \<open>with this many milliseconds\<close>
  async_pending :: bool      \<comment> \<open>an uv_async_send that no uv_run has consumed\<close>
  pc :: pc
  timer_set :: bool          \<comment> \<open>the locals of suspend_until\<close>
  timer_done :: bool
  senders :: nat             \<comment> \<open>notify calls between update_notify and uv_async_send\<close>

definition sched_init :: sched_sys where
  "sched_init = \<lparr>sched = scheduler_new, timer_active = False, timer_timeout = 0,
     async_pending = False, pc = Outside, timer_set = False, timer_done = False, senders = 0\<rparr>"

datatype sched_event =
    Awaken fiber                \<comment> \<open>Boost.Fiber calls awakened\<close>
  | PickNext                    \<comment> \<open>Boost.Fiber calls pick_next\<close>
  | Suspend time_point          \<comment> \<open>Boost.Fiber calls suspend_until\<close>
  | AfterEnter time_point       \<comment> \<open>the code up to the loop, at this time\<close>
  | UvRun bool bool "fiber list" \<comment> \<open>uv_run returns: timer fired, async consumed, fibers awakened\<close>
  | Check
  | Decide
  | StopTimer
  | Exit
  | NotifyUpdate                \<comment> \<open>another thread in notify: the locked part\<close>
  | NotifySend                  \<comment> \<open>another thread in notify: uv_async_send\<close>

definition suspend_timer_callback :: "sched_sys \<Rightarrow> sched_sys" where
  "suspend_timer_callback s = s\<lparr>timer_done := True, async_pending := True\<rparr>"

definition begin_suspend :: "time_point \<Rightarrow> sched_sys \<Rightarrow> sched_sys" where
  "begin_suspend abs_time s =
     (let (wake_up_directly, sc) = suspend_enter (sched s)
      in s\<lparr>sched := sc, pc := Entered wake_up_directly abs_time\<rparr>)"

definition after_enter :: "time_point \<Rightarrow> bool \<Rightarrow> time_point \<Rightarrow> sched_sys \<Rightarrow> sched_sys" where
  "after_enter now wake_up_directly abs_time s =
     (if wake_up_directly then s\<lparr>sched := suspend_exit (sched s), pc := Outside\<rparr>
      else if is_max_time abs_time
      then s\<lparr>timer_done := False, timer_set := False, pc := Waiting\<rparr>
      else s\<lparr>timer_done := False, timer_set := True, timer_active := True,
             timer_timeout := timer_milliseconds now abs_time, pc := Waiting\<rparr>)"

definition uv_run_once :: "bool \<Rightarrow> bool \<Rightarrow> fiber list \<Rightarrow> sched_sys \<Rightarrow> sched_sys option" where
  "uv_run_once fired consumed fs s =
     (if fired \<and> \<not> timer_active s \<or> consumed \<and> \<not> (async_pending s \<or> fired) then None
      else
        let s1 = (if fired then suspend_timer_callback (s\<lparr>timer_active := False\<rparr>) else s);
            s2 = (if consumed then s1\<lparr>async_pending := False\<rparr> else s1)
        in Some (s2\<lparr>sched := fold awakened fs (sched s2), pc := Returned\<rparr>))"

definition check_loop :: "sched_sys \<Rightarrow> sched_sys" where
  "check_loop s = s\<lparr>pc := Checked (queue (sched s) \<noteq> []) (should_wake_up (sched s))\<rparr>"

definition decide_loop :: "bool \<Rightarrow> bool \<Rightarrow> sched_sys \<Rightarrow> sched_sys" where
  "decide_loop ready wake s =
     s\<lparr>pc := (if ready \<or> timer_done s \<or> wake then Leaving else Waiting)\<rparr>"

definition stop_timer :: "sched_sys \<Rightarrow> sched_sys" where
  "stop_timer s =
     (if timer_set s \<and> \<not> timer_done s then s\<lparr>timer_active := False, pc := Exiting\<rparr>
      else s\<lparr>pc := Exiting\<rparr>)"

definition finish_suspend :: "sched_sys \<Rightarrow> sched_sys" where
  "finish_suspend s = s\<lparr>sched := suspend_exit (sched s), pc := Outside\<rparr>"

definition notify_update :: "sched_sys \<Rightarrow> sched_sys" where
  "notify_update s =
     (let (was_suspended, sc) = update_notify (sched s)
      in s\<lparr>sched := sc, senders := (if was_suspended then Suc (senders s) else senders s)\<rparr>)"

definition notify_send :: "sched_sys \<Rightarrow> sched_sys option" where
  "notify_send s =
     (if senders s = 0 then None else Some (s\<lparr>senders := senders s - 1, async_pending := True\<rparr>))"

fun sched_step :: "sched_sys \<Rightarrow> sched_event \<Rightarrow> sched_sys option" where
  "sched_step s (Awaken f) =
     (if pc s = Outside then Some (s\<lparr>sched := awakened f (sched s)\<rparr>) else None)"
| "sched_step s PickNext =
     (if pc s = Outside then Some (s\<lparr>sched := snd (pick_next (sched s))\<rparr>) else None)"
| "sched_step s (Suspend abs_time) =
     (if pc s = Outside then Some (begin_suspend abs_time s) else None)"
| "sched_step s (AfterEnter now) =
     (case pc s of Entered w abs_time \<Rightarrow> Some (after_enter now w abs_time s) | _ \<Rightarrow> None)"
| "sched_step s (UvRun fired consumed fs) =
     (if pc s = Waiting then uv_run_once fired consumed fs s else None)"
| "sched_step s Check = (if pc s = Returned then Some (check_loop s) else None)"
| "sched_step s Decide =
     (case pc s of Checked r w \<Rightarrow> Some (decide_loop r w s) | _ \<Rightarrow> None)"
| "sched_step s StopTimer = (if pc s = Leaving then Some (stop_timer s) else None)"
| "sched_step s Exit = (if pc s = Exiting then Some (finish_suspend s) else None)"
| "sched_step s NotifyUpdate = Some (notify_update s)"
| "sched_step s NotifySend = notify_send s"

section \<open>The ready queue is first-in first-out\<close>

interpretation ready_queue: fifo awakened pick_next queue
  by unfold_locales (auto simp: awakened_def pick_next_def)

section \<open>Invariant of the suspension protocol\<close>

text \<open>
  \<open>suspended\<close> is set exactly while the thread is in \<open>suspend_until\<close>; the libuv timer is only
  ever active while the loop's locals exist, and then its callback has not run; and a wake-up
  request that the loop has not yet sampled always has its \<open>uv_async_send\<close> done or under way.
\<close>

definition unsampled :: "pc \<Rightarrow> bool" where
  "unsampled p = (case p of Entered w _ \<Rightarrow> \<not> w | Waiting \<Rightarrow> True | Checked _ w \<Rightarrow> \<not> w | _ \<Rightarrow> False)"

definition timer_window :: "pc \<Rightarrow> bool" where
  "timer_window p =
     (case p of Waiting \<Rightarrow> True | Returned \<Rightarrow> True | Checked _ _ \<Rightarrow> True | Leaving \<Rightarrow> True | _ \<Rightarrow> False)"

definition sched_inv :: "sched_sys \<Rightarrow> bool" where
  "sched_inv s \<longleftrightarrow>
     (suspended (sched s) \<longleftrightarrow> pc s \<noteq> Outside) \<and>
     (timer_active s \<longrightarrow> timer_window (pc s) \<and> timer_set s \<and> \<not> timer_done s) \<and>
     (unsampled (pc s) \<and> wake_up (sched s) \<longrightarrow> async_pending s \<or> senders s > 0)"

lemmas [step_defs] = suspend_timer_callback_def begin_suspend_def after_enter_def uv_run_once_def
  check_loop_def decide_loop_def stop_timer_def finish_suspend_def notify_update_def
  notify_send_def suspend_enter_def suspend_exit_def update_notify_def should_wake_up_def
  awakened_def pick_next_def

lemma fold_awakened: "fold awakened fs s = s\<lparr>queue := queue s @ fs\<rparr>"
  by (induction fs arbitrary: s) (auto simp: awakened_def)

lemma sched_inv_init: "sched_inv sched_init"
  by (simp add: sched_inv_def sched_init_def scheduler_new_def unsampled_def)

lemmas sched_inv_unfold = sched_inv_def unsampled_def timer_window_def

lemma sched_inv_queue:
  "sched_inv (s\<lparr>sched := sched s\<lparr>queue := q\<rparr>\<rparr>) = sched_inv s"
  by (simp add: sched_inv_def)

lemma begin_suspend_inv: "sched_inv s \<Longrightarrow> pc s = Outside \<Longrightarrow> sched_inv (begin_suspend t s)"
  by (simp add: sched_inv_unfold begin_suspend_def suspend_enter_def)

lemma after_enter_inv:
  "sched_inv s \<Longrightarrow> pc s = Entered w t \<Longrightarrow> sched_inv (after_enter now w t s)"
  by (cases w) (simp_all add: sched_inv_unfold after_enter_def suspend_exit_def)

lemma uv_run_once_inv:
  assumes "sched_inv s" and "pc s = Waiting" and "uv_run_once fired consumed fs s = Some t"
  shows "sched_inv t"
  using assms
  by (cases fired; cases consumed)
    (simp_all add: sched_inv_unfold uv_run_once_def suspend_timer_callback_def fold_awakened
      split: if_splits, auto)

lemma check_loop_inv: "sched_inv s \<Longrightarrow> pc s = Returned \<Longrightarrow> sched_inv (check_loop s)"
  by (simp add: sched_inv_unfold check_loop_def should_wake_up_def)

lemma decide_loop_inv: "sched_inv s \<Longrightarrow> pc s = Checked r w \<Longrightarrow> sched_inv (decide_loop r w s)"
  by (simp add: sched_inv_unfold decide_loop_def)

lemma stop_timer_inv: "sched_inv s \<Longrightarrow> pc s = Leaving \<Longrightarrow> sched_inv (stop_timer s)"
  by (auto simp add: sched_inv_unfold stop_timer_def)

lemma finish_suspend_inv: "sched_inv s \<Longrightarrow> pc s = Exiting \<Longrightarrow> sched_inv (finish_suspend s)"
  by (simp add: sched_inv_unfold finish_suspend_def suspend_exit_def)

lemma notify_update_inv: "sched_inv s \<Longrightarrow> sched_inv (notify_update s)"
  by (cases "pc s") (simp_all add: sched_inv_unfold notify_update_def update_notify_def)

lemma notify_send_inv: "sched_inv s \<Longrightarrow> notify_send s = Some t \<Longrightarrow> sched_inv t"
  by (auto simp add: sched_inv_unfold notify_send_def split: if_splits)

lemma sched_inv_step: "sched_inv s \<Longrightarrow> sched_step s e = Some t \<Longrightarrow> sched_inv t"
  by (cases e)
    (auto simp: awakened_def pick_next_def sched_inv_queue
      intro: begin_suspend_inv after_enter_inv uv_run_once_inv check_loop_inv decide_loop_inv
        stop_timer_inv finish_suspend_inv notify_update_inv notify_send_inv
      split: if_splits pc.splits)

interpretation suspension: inductive_invariant sched_step sched_init sched_inv
  by unfold_locales (auto intro: sched_inv_init sched_inv_step)

text \<open>
  A second invariant: the loop is only left, and \<open>suspend_until\<close> only returns at once, for one of
  the reasons the code names, and the reason still holds when it returns.
\<close>

definition wake_reason :: "sched_sys \<Rightarrow> bool" where
  "wake_reason s \<longleftrightarrow> queue (sched s) \<noteq> [] \<or> timer_done s \<or> wake_up (sched s)"

definition reason_inv :: "sched_sys \<Rightarrow> bool" where
  "reason_inv s \<longleftrightarrow>
     (case pc s of Entered w _ \<Rightarrow> w \<longrightarrow> wake_up (sched s)
      | Checked r w \<Rightarrow> (r \<longrightarrow> queue (sched s) \<noteq> []) \<and> (w \<longrightarrow> wake_up (sched s))
      | Leaving \<Rightarrow> wake_reason s
      | Exiting \<Rightarrow> wake_reason s
      | _ \<Rightarrow> True)"

lemma reason_inv_init: "reason_inv sched_init"
  by (simp add: reason_inv_def sched_init_def)

lemma reason_inv_notify: "reason_inv s \<Longrightarrow> reason_inv (notify_update s)"
  by (cases "pc s") (simp_all add: reason_inv_def wake_reason_def notify_update_def update_notify_def)

lemma reason_inv_send: "reason_inv s \<Longrightarrow> notify_send s = Some t \<Longrightarrow> reason_inv t"
  by (auto simp: reason_inv_def wake_reason_def notify_send_def split: if_splits pc.splits)

lemma reason_inv_thread:
  assumes "reason_inv s" and "sched_step s e = Some t" and "e \<noteq> NotifyUpdate" and "e \<noteq> NotifySend"
  shows "reason_inv t"
  using assms
  by (cases e)
    (auto simp: reason_inv_def wake_reason_def begin_suspend_def suspend_enter_def after_enter_def
      uv_run_once_def check_loop_def should_wake_up_def decide_loop_def stop_timer_def
      finish_suspend_def Let_def split: if_splits pc.splits)

lemma reason_inv_step: "reason_inv s \<Longrightarrow> sched_step s e = Some t \<Longrightarrow> reason_inv t"
  by (cases "e = NotifyUpdate \<or> e = NotifySend")
    (auto intro: reason_inv_notify reason_inv_send reason_inv_thread)

interpretation reasons: inductive_invariant sched_step sched_init reason_inv
  by unfold_locales (auto intro: reason_inv_init reason_inv_step)

section \<open>Properties\<close>

text \<open>
  Fibers run in the order in which they became ready: for every interleaving of
  \<open>awakened\<close> and \<open>pick_next\<close>, the fibers picked, followed by those still queued, are those
  queued at the start followed by those awakened, in the same order and each exactly once.
\<close>

theorem fibers_picked_in_order:
  assumes "exec_queue awakened pick_next s ops = (picked, r)"
  shows "picked @ queue r = queue s @ added ops"
  using assms by (rule ready_queue.exec_order)

theorem fibers_picked_in_order_witness:
  "\<exists>r. exec_queue awakened pick_next scheduler_new [Enq 7, Enq 4, Deq, Enq 9, Deq] = ([7, 4], r) \<and>
       [7, 4] @ queue r = [7, 4, 9]"
proof -
  have e: "exec_queue awakened pick_next scheduler_new [Enq 7, Enq 4, Deq, Enq 9, Deq] =
      ([7, 4], \<lparr>queue = [9], wake_up = False, suspended = False\<rparr>)"
    by (simp add: awakened_def pick_next_def scheduler_new_def)
  show ?thesis using e fibers_picked_in_order [OF e] by (simp add: scheduler_new_def)
qed

text \<open>
  C1. No wake-up is lost while the thread sleeps: in every reachable state in which the
  scheduler's thread is blocked in \<open>uv_run\<close> and a \<open>notify\<close> has set \<open>wake_up_\<close>, the
  \<open>uv_async_send\<close> that ends \<open>uv_run\<close> has been made or a notifying thread is about to make it, and
  whenever \<open>uv_run\<close> returns, \<open>suspend_until\<close> runs to its end without calling it again.
\<close>

theorem notify_ends_suspension:
  assumes "reachable sched_step sched_init s" and "pc s = Waiting" and "wake_up (sched s)"
  shows "(async_pending s \<or> 0 < senders s) \<and>
    (\<forall>fired consumed fs t. sched_step s (UvRun fired consumed fs) = Some t \<longrightarrow>
       (\<exists>u. run sched_step t [Check, Decide, StopTimer, Exit] = Some u \<and> pc u = Outside))"
proof -
  from assms(1) have "sched_inv s" by (rule suspension.reachable_inv)
  with assms(2,3) have "async_pending s \<or> 0 < senders s"
    by (simp add: sched_inv_def unsampled_def)
  moreover have "\<exists>u. run sched_step t [Check, Decide, StopTimer, Exit] = Some u \<and> pc u = Outside"
    if "sched_step s (UvRun fired consumed fs) = Some t" for fired consumed fs t
  proof -
    from that assms(2,3) have "pc t = Returned" "wake_up (sched t)"
      by (auto simp: uv_run_once_def suspend_timer_callback_def fold_awakened Let_def
          split: if_splits)
    then show ?thesis
      by (simp add: check_loop_def should_wake_up_def decide_loop_def stop_timer_def
          finish_suspend_def)
  qed
  ultimately show ?thesis by blast
qed

theorem notify_ends_suspension_witness:
  "\<exists>s. run sched_step sched_init [Suspend 5000000, AfterEnter 1000000, NotifyUpdate] = Some s \<and>
       pc s = Waiting \<and> wake_up (sched s) \<and> (async_pending s \<or> 0 < senders s)"
proof -
  obtain s where r: "run sched_step sched_init [Suspend 5000000, AfterEnter 1000000, NotifyUpdate] = Some s"
    and w: "pc s = Waiting" "wake_up (sched s)"
    by (simp add: sched_init_def scheduler_new_def begin_suspend_def suspend_enter_def
        after_enter_def is_max_time_def time_point_max_def notify_update_def update_notify_def)
  have "reachable sched_step sched_init s" using r by (rule run_reachable)
  from notify_ends_suspension [OF this w] r w show ?thesis by blast
qed

text \<open>
  A notification that arrives while the scheduler is not suspended is not lost either: the
  next \<open>suspend_until\<close> returns without entering the event loop and without starting the timer,
  and it consumes the request.
\<close>

theorem notify_before_suspend:
  assumes "pc s = Outside"
  shows "\<exists>u. run sched_step s [NotifyUpdate, Suspend abs_time, AfterEnter now] = Some u \<and>
    pc u = Outside \<and> \<not> wake_up (sched u) \<and> timer_active u = timer_active s \<and>
    queue (sched u) = queue (sched s)"
  using assms
  by (simp add: notify_update_def update_notify_def begin_suspend_def suspend_enter_def
      after_enter_def suspend_exit_def)

theorem notify_before_suspend_witness:
  "pc sched_init = Outside \<and>
   (\<exists>u. run sched_step sched_init [NotifyUpdate, Suspend 9, AfterEnter 3] = Some u \<and> pc u = Outside)"
proof -
  have h: "pc sched_init = Outside" by (simp add: sched_init_def)
  show ?thesis using h notify_before_suspend [OF h, of 9 3] by blast
qed

text \<open>
  C32. The timer callback never writes to a dead stack frame: in every reachable state, a started
  libuv timer belongs to a \<open>suspend_until\<close> call that is still between the start of its loop and
  \<open>uv_timer_stop\<close>, and whenever the thread is outside \<open>suspend_until\<close> the timer is stopped.
\<close>

theorem timer_only_while_suspended:
  assumes "reachable sched_step sched_init s"
  shows "(timer_active s \<longrightarrow> timer_window (pc s) \<and> timer_set s \<and> \<not> timer_done s) \<and>
    (pc s = Outside \<longrightarrow> \<not> timer_active s \<and> \<not> suspended (sched s))"
  using suspension.reachable_inv [OF assms] by (auto simp: sched_inv_def timer_window_def)

theorem timer_only_while_suspended_witness:
  "\<exists>s. run sched_step sched_init
         [Suspend 5000000, AfterEnter 1000000, UvRun False False [3], Check, Decide, StopTimer, Exit]
       = Some s \<and> pc s = Outside \<and> \<not> timer_active s"
proof -
  obtain s where r: "run sched_step sched_init
      [Suspend 5000000, AfterEnter 1000000, UvRun False False [3], Check, Decide, StopTimer, Exit] = Some s"
    and p: "pc s = Outside"
    by (simp add: sched_init_def scheduler_new_def step_defs is_max_time_def time_point_max_def)
  have "reachable sched_step sched_init s" using r by (rule run_reachable)
  from timer_only_while_suspended [OF this] r p show ?thesis by blast
qed

text \<open>
  \<open>suspend_until\<close> never returns without a reason: in every reachable state in which it is
  about to return, a fiber is ready, the timer has expired, or a wake-up was requested; a
  spurious return of \<open>uv_run\<close> goes back to waiting.
\<close>

theorem no_spurious_return:
  assumes "reachable sched_step sched_init s"
  shows "pc s = Exiting \<or> (\<exists>t. pc s = Entered True t) \<longrightarrow>
    queue (sched s) \<noteq> [] \<or> timer_done s \<or> wake_up (sched s)"
  using reasons.reachable_inv [OF assms] by (auto simp: reason_inv_def wake_reason_def)

theorem no_spurious_return_witness:
  "\<exists>s. run sched_step sched_init
         [Suspend 5000000, AfterEnter 1000000, UvRun True False [], Check, Decide, StopTimer] = Some s \<and>
       pc s = Exiting \<and> (queue (sched s) \<noteq> [] \<or> timer_done s \<or> wake_up (sched s))"
proof -
  obtain s where r: "run sched_step sched_init
      [Suspend 5000000, AfterEnter 1000000, UvRun True False [], Check, Decide, StopTimer] = Some s"
    and p: "pc s = Exiting"
    by (simp add: sched_init_def scheduler_new_def step_defs is_max_time_def time_point_max_def)
  have "reachable sched_step sched_init s" using r by (rule run_reachable)
  from no_spurious_return [OF this] r p show ?thesis by blast
qed

text \<open>
  C33. The timeout handed to libuv is exact to a millisecond and never early: for any two
  non-negative 64-bit time points with the deadline ahead, waiting the returned number of
  milliseconds ends after the deadline and at most one millisecond after it, and the
  \<open>uint64_t\<close> arithmetic does not wrap.
\<close>

theorem timeout_never_early:
  assumes "0 \<le> now" and "now < abs_time" and "abs_time \<le> time_point_max"
  shows "abs_time < now + uint (timer_milliseconds now abs_time) * 1000000 \<and>
    now + uint (timer_milliseconds now abs_time) * 1000000 \<le> abs_time + 1000000 \<and>
    1 \<le> uint (timer_milliseconds now abs_time)"
proof -
  let ?d = "(abs_time - now) div 1000000 + 1"
  have "0 \<le> ?d" and "?d < 2 ^ 64" using assms by (auto simp: time_point_max_def)
  then have "uint (word_of_int ?d :: 64 word) = ?d"
    unfolding uint_word_of_int by (simp add: mod_pos_pos_trivial)
  moreover have "milliseconds_until now abs_time = word_of_int ?d"
    using assms(2) unfolding milliseconds_until_def by (subst if_not_P) simp_all
  ultimately have u: "uint (milliseconds_until now abs_time) = ?d" by (simp only:)
  have "1 \<le> ?d" using assms by (simp add: pos_imp_zdiv_nonneg_iff)
  with u have "uint (timer_milliseconds now abs_time) = ?d"
    by (simp add: timer_milliseconds_def max_def word_le_def)
  moreover have "abs_time - now < ?d * 1000000" "?d * 1000000 \<le> abs_time - now + 1000000" by auto
  ultimately show ?thesis using \<open>1 \<le> ?d\<close> by simp
qed

theorem timeout_never_early_witness:
  "(0::int) \<le> 1500000 \<and> (1500000::int) < 4000000 \<and> (4000000::int) \<le> time_point_max \<and>
   (4000000::int) < 1500000 + uint (timer_milliseconds 1500000 4000000) * 1000000 \<and>
   uint (timer_milliseconds 1500000 4000000) = 3"
proof -
  have h: "(0::int) \<le> 1500000" "(1500000::int) < 4000000" "(4000000::int) \<le> time_point_max"
    by (simp_all add: time_point_max_def)
  have "uint (timer_milliseconds 1500000 4000000) = 3"
    by (simp add: timer_milliseconds_def milliseconds_until_def)
  with h timeout_never_early [OF h] show ?thesis by blast
qed

end
