(* ===== verification/UvLoop.thy ===== *)
theory UvLoop
  imports Prelude
begin

text \<open>
  The per-thread event loop of \<open>src/loop.cpp\<close>: a \<open>thread_local\<close> object that initialises the libuv
  loop, the scheduler's timer and its async handle on first use and closes them when the thread
  ends. The libuv calls it makes are recorded in order.
\<close>

datatype uv_call =
    Loop_init
  | Timer_init
  | Async_init
  | Close_async
  | Close_timer
  | Loop_close

record thread_uv_loop =
  ready :: bool
  calls :: "uv_call list"

datatype handle_ref = Loop_ref | Timer_ref | Async_ref

definition thread_uv_loop_new :: thread_uv_loop where
  "thread_uv_loop_new = \<lparr>ready = False, calls = []\<rparr>"

definition make_ready :: "thread_uv_loop \<Rightarrow> thread_uv_loop" where
  "make_ready l =
     (if \<not> ready l then l\<lparr>calls := calls l @ [Loop_init, Timer_init, Async_init], ready := True\<rparr> else l)"

definition get_uv_loop :: "thread_uv_loop \<Rightarrow> handle_ref \<times> thread_uv_loop" where
  "get_uv_loop l = (Loop_ref, make_ready l)"

definition get_scheduler_timer :: "thread_uv_loop \<Rightarrow> handle_ref \<times> thread_uv_loop" where
  "get_scheduler_timer l = (Timer_ref, make_ready l)"

definition get_scheduler_async :: "thread_uv_loop \<Rightarrow> handle_ref \<times> thread_uv_loop" where
  "get_scheduler_async l = (Async_ref, make_ready l)"

definition destroy_loop :: "thread_uv_loop \<Rightarrow> thread_uv_loop" where
  "destroy_loop l =
     (if ready l then l\<lparr>calls := calls l @ [Close_async, Close_timer, Loop_close]\<rparr> else l)"

fun get :: "handle_ref \<Rightarrow> thread_uv_loop \<Rightarrow> handle_ref \<times> thread_uv_loop" where
  "get Loop_ref l = get_uv_loop l"
| "get Timer_ref l = get_scheduler_timer l"
| "get Async_ref l = get_scheduler_async l"

lemma get_ready: "get r l = (r, make_ready l)"
  by (cases r) (simp_all add: get_uv_loop_def get_scheduler_timer_def get_scheduler_async_def)

lemma fold_get: "fold (\<lambda>r l. snd (get r l)) rs l = (if rs = [] then l else make_ready l)"
  by (induction rs arbitrary: l) (auto simp: get_ready make_ready_def)

text \<open>
  Each thread initialises its loop at most once and cleans up exactly what it initialised:
  whatever sequence of \<open>get_uv_loop\<close>, \<open>get_scheduler_timer\<close> and \<open>get_scheduler_async\<close> calls a thread
  makes before it ends, libuv sees the three initialisations once and in order, before any handle
  is handed out, then both handles closed before the loop; a thread that never asks for the loop
  makes no libuv call at all.
\<close>

theorem loop_lifecycle:
  "calls (destroy_loop (fold (\<lambda>r l. snd (get r l)) rs thread_uv_loop_new)) =
     (if rs = [] then []
      else [Loop_init, Timer_init, Async_init, Close_async, Close_timer, Loop_close])"
  by (simp add: fold_get destroy_loop_def make_ready_def thread_uv_loop_new_def)

end
