(* ===== verification/Errors.thy ===== *)
theory Errors
  imports Prelude
begin

text \<open>
  The exceptions of \<open>include/fiberio/exceptions.hpp\<close> and \<open>src/utils.hpp\<close>, the mapping of libuv
  status codes to them (\<open>src/utils.cpp\<close>), the completion callbacks that hand a status to a
  waiting fiber through a promise, and the name resolution of \<open>src/addrinfo.cpp\<close>.

  libuv is not part of the repository: its error constants and texts are the fields of a record
  that the definitions take as an argument.
\<close>

section \<open>Exceptions\<close>

datatype exn =
    Io_error string
  | Socket_closed_error
  | Address_family_not_supported_error
  | Uv_error int
  | Runtime_error string

record uv_lib =
  UV_ENOTCONN :: int
  UV_EBADF :: int
  UV_EAI_ADDRFAMILY :: int
  UV_EOF :: int
  UV_ENOBUFS :: int
  uv_err_name :: "int \<Rightarrow> string"
  uv_strerror :: "int \<Rightarrow> string"

text \<open>libuv documents that its error codes are negative and pairwise different.\<close>

definition uv_codes_ok :: "uv_lib \<Rightarrow> bool" where
  "uv_codes_ok uv \<longleftrightarrow>
     UV_ENOTCONN uv < 0 \<and> UV_EBADF uv < 0 \<and> UV_EAI_ADDRFAMILY uv < 0 \<and> UV_EOF uv < 0 \<and> UV_ENOBUFS uv < 0 \<and>
     distinct [UV_ENOTCONN uv, UV_EBADF uv, UV_EAI_ADDRFAMILY uv, UV_EOF uv, UV_ENOBUFS uv]"

text \<open>A concrete library for examples: the codes of libuv on Linux, with its short texts.\<close>

definition linux_uv :: uv_lib where
  "linux_uv = \<lparr>UV_ENOTCONN = - 107, UV_EBADF = - 9, UV_EAI_ADDRFAMILY = - 3000, UV_EOF = - 4095, UV_ENOBUFS = - 105,
     uv_err_name = (\<lambda>status. if status = - 32 then ''EPIPE'' else ''ECONNREFUSED''),
     uv_strerror = (\<lambda>status. if status = - 32 then ''broken pipe'' else ''connection refused'')\<rparr>"

lemma linux_uv_codes_ok: "uv_codes_ok linux_uv"
  by (simp add: uv_codes_ok_def linux_uv_def)

text \<open>The catch clauses see the class hierarchy: both special errors derive from \<open>io_error\<close>.\<close>

fun is_io_error :: "exn \<Rightarrow> bool" where
  "is_io_error (Io_error _) = True"
| "is_io_error Socket_closed_error = True"
| "is_io_error Address_family_not_supported_error = True"
| "is_io_error _ = False"

fun what :: "uv_lib \<Rightarrow> exn \<Rightarrow> string" where
  "what uv (Io_error msg) = msg"
| "what uv Socket_closed_error = ''stream closed''"
| "what uv Address_family_not_supported_error = ''address family not supported''"
| "what uv (Uv_error status) = uv_err_name uv status @ '': '' @ uv_strerror uv status"
| "what uv (Runtime_error msg) = msg"

section \<open>Status codes\<close>

definition check_uv_status :: "uv_lib \<Rightarrow> int \<Rightarrow> exn + unit" where
  "check_uv_status uv status =
     (if status < 0 then
        if status = UV_ENOTCONN uv \<or> status = UV_EBADF uv then Inl Socket_closed_error
        else if status = UV_EAI_ADDRFAMILY uv then Inl Address_family_not_supported_error
        else Inl (Uv_error status)
      else Inr ())"

lemma check_uv_status_Inr_iff [simp]: "check_uv_status uv status = Inr u \<longleftrightarrow> 0 \<le> status"
  by (auto simp: check_uv_status_def)

lemma check_uv_status_ok [simp]: "0 \<le> status \<Longrightarrow> check_uv_status uv status = Inr ()"
  by simp

lemma check_uv_status_Uv_error:
  "check_uv_status uv status = Inl e \<Longrightarrow> \<not> is_io_error e \<Longrightarrow> e = Uv_error status"
  by (auto simp: check_uv_status_def split: if_splits)

text \<open>
  Each completion callback checks the status inside a \<open>try\<close> and stores the value or the
  exception in the promise of the waiting fiber; \<open>get()\<close> returns or rethrows it there.
\<close>

definition connection_callback :: "uv_lib \<Rightarrow> int \<Rightarrow> exn + unit" where
  "connection_callback uv status =
     (case check_uv_status uv status of Inr _ \<Rightarrow> Inr () | Inl e \<Rightarrow> Inl e)"

definition write_callback :: "uv_lib \<Rightarrow> int \<Rightarrow> exn + unit" where
  "write_callback uv status =
     (case check_uv_status uv status of Inr _ \<Rightarrow> Inr () | Inl e \<Rightarrow> Inl e)"

definition shutdown_callback :: "uv_lib \<Rightarrow> int \<Rightarrow> exn + unit" where
  "shutdown_callback uv status =
     (case check_uv_status uv status of Inr _ \<Rightarrow> Inr () | Inl e \<Rightarrow> Inl e)"

definition addrinfo_callback :: "uv_lib \<Rightarrow> int \<Rightarrow> 'addr \<Rightarrow> exn + 'addr" where
  "addrinfo_callback uv status res =
     (case check_uv_status uv status of Inr _ \<Rightarrow> Inr res | Inl e \<Rightarrow> Inl e)"

lemma callbacks_check_status [simp]:
  "connection_callback uv status = check_uv_status uv status"
  "write_callback uv status = check_uv_status uv status"
  "shutdown_callback uv status = check_uv_status uv status"
  by (auto simp: connection_callback_def write_callback_def shutdown_callback_def split: sum.splits)

section \<open>Name resolution\<close>

text \<open>
  \<open>getaddrinfo(host, port)\<close> passes \<open>std::to_string(port)\<close> as the service. The request's
  synchronous status and the callback's status and result are libuv's answers.
\<close>

fun to_string_digits :: "nat \<Rightarrow> string" where
  "to_string_digits n =
     (if n < 10 then [char_of (48 + n)] else to_string_digits (n div 10) @ [char_of (48 + n mod 10)])"

declare to_string_digits.simps [simp del]

definition to_string :: "16 word \<Rightarrow> string" where
  "to_string port = to_string_digits (unat port)"

definition getaddrinfo_service ::
    "uv_lib \<Rightarrow> (string \<Rightarrow> string \<Rightarrow> int) \<Rightarrow> (string \<Rightarrow> string \<Rightarrow> int \<times> 'addr) \<Rightarrow> string \<Rightarrow> string \<Rightarrow> exn + 'addr"
where
  "getaddrinfo_service uv uv_getaddrinfo resolved node service =
     (case check_uv_status uv (uv_getaddrinfo node service) of
        Inl e \<Rightarrow> Inl e
      | Inr _ \<Rightarrow> (case resolved node service of (status, res) \<Rightarrow> addrinfo_callback uv status res))"

definition getaddrinfo ::
    "uv_lib \<Rightarrow> (string \<Rightarrow> string \<Rightarrow> int) \<Rightarrow> (string \<Rightarrow> string \<Rightarrow> int \<times> 'addr) \<Rightarrow> string \<Rightarrow> 16 word \<Rightarrow> exn + 'addr"
where
  "getaddrinfo uv uv_getaddrinfo resolved host port =
     getaddrinfo_service uv uv_getaddrinfo resolved host (to_string port)"

text \<open>The decimal text of a port reads back as the port.\<close>

fun read_digits :: "nat \<Rightarrow> string \<Rightarrow> nat" where
  "read_digits acc [] = acc"
| "read_digits acc (c # cs) = read_digits (acc * 10 + (of_char c - 48)) cs"

lemma read_digits_append: "read_digits acc (xs @ ys) = read_digits (read_digits acc xs) ys"
  by (induction xs arbitrary: acc) auto

lemma read_digits_to_string: "read_digits 0 (to_string_digits n) = n"
proof (induction n rule: to_string_digits.induct)
  case (1 n)
  show ?case
  proof (cases "n < 10")
    case True
    then show ?thesis by (simp add: to_string_digits.simps [of n])
  next
    case False
    have "n mod 10 < 10" by simp
    then have "(of_char (char_of (48 + n mod 10) :: char) :: nat) = 48 + n mod 10"
      by (simp add: of_char_of)
    with 1 [OF False] show ?thesis
      by (subst to_string_digits.simps) (simp add: False read_digits_append)
  qed
qed

end
