(* ===== verification/SocketImpl.thy ===== *)
theory SocketImpl
  imports Errors
begin

text \<open>
  The connected socket of \<open>src/socket_impl.hpp\<close> and \<open>src/socket_impl.cpp\<close>. Fibers share the
  object and run one at a time; each operation is cut where it suspends (\<open>promise.get_future().get()\<close>
  and \<open>cond_.wait\<close>), and the pieces interleave with the pieces of other fibers and with libuv's
  callbacks. The libuv calls that report a status at once take it as an argument of the step.
\<close>

section \<open>The object\<close>

text \<open>
  A data member \<open>x_\<close> is the field \<open>x\<close>. \<open>buf_\<close> is the address of the caller's buffer, 0 for the
  null pointer; \<open>len_\<close> is the 64-bit pattern of the \<open>int64_t\<close>, so that the assignment from a
  \<open>size_t\<close> and the return as a \<open>size_t\<close> keep it.
\<close>

record socket_impl =
  closed :: bool
  reading :: bool
  buf :: nat
  len :: "64 word"

definition socket_impl_new :: socket_impl where
  "socket_impl_new = \<lparr>closed = False, reading = False, buf = 0, len = 0\<rparr>"

definition ERROR_EOF :: "64 word" where
  "ERROR_EOF = - 1"

definition ERROR_READ_FAILED :: "64 word" where
  "ERROR_READ_FAILED = - 2"

definition is_open :: "socket_impl \<Rightarrow> bool" where
  "is_open s \<longleftrightarrow> \<not> closed s"

section \<open>Pieces of the operations\<close>

text \<open>\<open>read\<close> up to the wait: \<open>status\<close> is the result of \<open>uv_read_start\<close>.\<close>

definition read_begin ::
    "uv_lib \<Rightarrow> nat \<Rightarrow> 64 word \<Rightarrow> int \<Rightarrow> socket_impl \<Rightarrow> (exn + unit) \<times> socket_impl" where
  "read_begin uv b sz status s =
     (if closed s then (Inl Socket_closed_error, s)
      else if reading s then (Inl (Io_error ''concurrent read''), s)
      else
        let s1 = s\<lparr>reading := True, buf := b, len := sz\<rparr> in
        case check_uv_status uv status of
          Inl e \<Rightarrow> (Inl e, s1\<lparr>buf := 0, reading := False\<rparr>)
        | Inr _ \<Rightarrow> (Inr (), s1))"

definition wait_for_read_to_finish :: "socket_impl \<Rightarrow> bool" where
  "wait_for_read_to_finish s \<longleftrightarrow> buf s \<noteq> 0 \<and> \<not> closed s"

definition on_read_finished :: "int \<Rightarrow> socket_impl \<Rightarrow> socket_impl" where
  "on_read_finished nread s = s\<lparr>buf := 0, len := word_of_int nread\<rparr>"

definition alloc_callback :: "socket_impl \<Rightarrow> nat \<times> 64 word" where
  "alloc_callback s = (buf s, len s)"

definition read_callback :: "uv_lib \<Rightarrow> int \<Rightarrow> socket_impl \<Rightarrow> socket_impl" where
  "read_callback uv nread s =
     (if nread \<ge> 0 then on_read_finished nread s
      else if nread = UV_EOF uv then on_read_finished (sint ERROR_EOF) s
      else on_read_finished (sint ERROR_READ_FAILED) s)"

text \<open>
  The rest of \<open>read\<close>: after the wait it clears \<open>reading_\<close> and then closes, throws or returns;
  after the nested \<open>close\<close>, or without it, it returns \<open>len_\<close>. The \<open>catch\<close> resets both flags.
\<close>

datatype read_next = Close_then_return | Throw_read_failed | Return_len

definition read_after_wait :: "socket_impl \<Rightarrow> read_next \<times> socket_impl" where
  "read_after_wait s =
     (let s1 = s\<lparr>reading := False\<rparr> in
      if len s1 = ERROR_EOF then (Close_then_return, s1)
      else if len s1 = ERROR_READ_FAILED then (Throw_read_failed, s1)
      else (Return_len, s1))"

definition read_return :: "socket_impl \<Rightarrow> 64 word \<times> socket_impl" where
  "read_return s = (let s1 = (if closed s then s\<lparr>len := 0\<rparr> else s) in (len s1, s1))"

definition read_catch :: "socket_impl \<Rightarrow> socket_impl" where
  "read_catch s = s\<lparr>buf := 0, reading := False\<rparr>"

text \<open>\<open>connect\<close> turns \<open>uv_error\<close> into \<open>io_error\<close> and lets every other exception pass.\<close>

definition connect_catch :: "uv_lib \<Rightarrow> exn \<Rightarrow> exn" where
  "connect_catch uv e = (case e of Uv_error status \<Rightarrow> Io_error (what uv e) | _ \<Rightarrow> e)"

section \<open>Fibers that use one socket\<close>

text \<open>
  Where a fiber is: not in an operation, waiting for the callback of \<open>uv_getaddrinfo\<close> or
  \<open>uv_tcp_connect\<close>, waiting on \<open>cond_\<close> in \<open>read\<close> (with its buffer, and whether it has been
  notified), waiting for the callback of \<open>uv_write\<close>, \<open>uv_shutdown\<close> or \<open>uv_close\<close> (the last two
  in a \<open>close\<close> that a caller or \<open>read\<close> made), or back from an operation with its outcome.
\<close>

datatype close_caller = By_user | By_read

datatype outcome = Ok | Count "64 word" | Threw exn

datatype sock_pc =
    Idle
  | Resolving
  | Connecting
  | ReadWait nat bool
  | Writing
  | Shutting close_caller
  | ClosingHandle close_caller
  | Finished outcome

datatype handle_state = Open | Closing | Closed

record sock_sys =
  impl :: socket_impl
  uv_reading :: bool         \<comment> \<open>between uv_read_start and uv_read_stop or uv_close\<close>
  handle :: handle_state     \<comment> \<open>the uv_tcp_t\<close>
  fibers :: "nat \<Rightarrow> sock_pc"

definition sock_init :: sock_sys where
  "sock_init = \<lparr>impl = socket_impl_new, uv_reading = False, handle = Open, fibers = (\<lambda>_. Idle)\<rparr>"

fun notified :: "sock_pc \<Rightarrow> sock_pc" where
  "notified (ReadWait b _) = ReadWait b True"
| "notified p = p"

definition notify_all :: "sock_sys \<Rightarrow> sock_sys" where
  "notify_all S = S\<lparr>fibers := notified \<circ> fibers S\<rparr>"

definition set_pc :: "nat \<Rightarrow> sock_pc \<Rightarrow> sock_sys \<Rightarrow> sock_sys" where
  "set_pc f p S = S\<lparr>fibers := (fibers S)(f := p)\<rparr>"

definition can_call :: "sock_pc \<Rightarrow> bool" where
  "can_call p = (case p of Idle \<Rightarrow> True | Finished _ \<Rightarrow> True | _ \<Rightarrow> False)"

subsection \<open>close\<close>

text \<open>What follows \<open>close()\<close>, normally or by an exception, in its caller.\<close>

definition close_returns :: "nat \<Rightarrow> close_caller \<Rightarrow> sock_sys \<Rightarrow> sock_sys" where
  "close_returns f c S =
     (case c of By_user \<Rightarrow> set_pc f (Finished Ok) S
      | By_read \<Rightarrow> (let (n, s) = read_return (impl S) in set_pc f (Finished (Count n)) (S\<lparr>impl := s\<rparr>)))"

definition close_throws :: "nat \<Rightarrow> close_caller \<Rightarrow> exn \<Rightarrow> sock_sys \<Rightarrow> sock_sys" where
  "close_throws f c e S =
     (case c of By_user \<Rightarrow> set_pc f (Finished (Threw e)) S
      | By_read \<Rightarrow> set_pc f (Finished (Threw e)) (S\<lparr>impl := read_catch (impl S)\<rparr>))"

definition close_handle_begin :: "nat \<Rightarrow> close_caller \<Rightarrow> sock_sys \<Rightarrow> sock_sys" where
  "close_handle_begin f c S = set_pc f (ClosingHandle c) (S\<lparr>handle := Closing, uv_reading := False\<rparr>)"

definition shutdown_result :: "nat \<Rightarrow> close_caller \<Rightarrow> exn + unit \<Rightarrow> sock_sys \<Rightarrow> sock_sys" where
  "shutdown_result f c r S =
     (case r of
        Inr _ \<Rightarrow> close_handle_begin f c S
      | Inl Socket_closed_error \<Rightarrow> close_handle_begin f c S
      | Inl e \<Rightarrow> close_throws f c e S)"

definition close_begin :: "uv_lib \<Rightarrow> nat \<Rightarrow> close_caller \<Rightarrow> int \<Rightarrow> sock_sys \<Rightarrow> sock_sys" where
  "close_begin uv f c status S =
     (if closed (impl S) then close_returns f c S
      else
        let S1 = S\<lparr>impl := (impl S)\<lparr>closed := True\<rparr>\<rparr> in
        case check_uv_status uv status of
          Inl e \<Rightarrow> shutdown_result f c (Inl e) S1
        | Inr _ \<Rightarrow> set_pc f (Shutting c) S1)"

definition close_end :: "nat \<Rightarrow> close_caller \<Rightarrow> sock_sys \<Rightarrow> sock_sys" where
  "close_end f c S = close_returns f c (notify_all (S\<lparr>handle := Closed\<rparr>))"

subsection \<open>read, write and connect\<close>

definition read_resume :: "uv_lib \<Rightarrow> nat \<Rightarrow> nat \<Rightarrow> int \<Rightarrow> sock_sys \<Rightarrow> sock_sys" where
  "read_resume uv f b status S =
     (if wait_for_read_to_finish (impl S) then set_pc f (ReadWait b False) S
      else
        let (nxt, s) = read_after_wait (impl S); S1 = S\<lparr>impl := s\<rparr> in
        case nxt of
          Close_then_return \<Rightarrow> close_begin uv f By_read status S1
        | Throw_read_failed \<Rightarrow>
            set_pc f (Finished (Threw (Io_error ''read failed''))) (S1\<lparr>impl := read_catch (impl S1)\<rparr>)
        | Return_len \<Rightarrow> close_returns f By_read S1)"

definition read_call :: "uv_lib \<Rightarrow> nat \<Rightarrow> nat \<Rightarrow> 64 word \<Rightarrow> int \<Rightarrow> sock_sys \<Rightarrow> sock_sys" where
  "read_call uv f b sz status S =
     (case read_begin uv b sz status (impl S) of
        (Inl e, s) \<Rightarrow> set_pc f (Finished (Threw e)) (S\<lparr>impl := s\<rparr>)
      | (Inr _, s) \<Rightarrow> set_pc f (ReadWait b False) (S\<lparr>impl := s, uv_reading := True\<rparr>))"

definition read_callback_step :: "uv_lib \<Rightarrow> int \<Rightarrow> sock_sys \<Rightarrow> sock_sys" where
  "read_callback_step uv nread S =
     notify_all (S\<lparr>uv_reading := False, impl := read_callback uv nread (impl S)\<rparr>)"

definition write_call :: "uv_lib \<Rightarrow> nat \<Rightarrow> int \<Rightarrow> sock_sys \<Rightarrow> sock_sys" where
  "write_call uv f status S =
     (if closed (impl S) then set_pc f (Finished (Threw Socket_closed_error)) S
      else case check_uv_status uv status of
          Inl e \<Rightarrow> set_pc f (Finished (Threw e)) S
        | Inr _ \<Rightarrow> set_pc f Writing S)"

definition promise_result :: "nat \<Rightarrow> exn + unit \<Rightarrow> sock_sys \<Rightarrow> sock_sys" where
  "promise_result f r S =
     set_pc f (Finished (case r of Inl e \<Rightarrow> Threw e | Inr _ \<Rightarrow> Ok)) S"

definition connect_call :: "uv_lib \<Rightarrow> nat \<Rightarrow> int \<Rightarrow> sock_sys \<Rightarrow> sock_sys" where
  "connect_call uv f status S =
     (if closed (impl S) then set_pc f (Finished (Threw Socket_closed_error)) S
      else case check_uv_status uv status of
          Inl e \<Rightarrow> set_pc f (Finished (Threw (connect_catch uv e))) S
        | Inr _ \<Rightarrow> set_pc f Resolving S)"

definition connect_resolved :: "uv_lib \<Rightarrow> nat \<Rightarrow> int \<Rightarrow> int \<Rightarrow> sock_sys \<Rightarrow> sock_sys" where
  "connect_resolved uv f status connect_status S =
     (case addrinfo_callback uv status () of
        Inl e \<Rightarrow> set_pc f (Finished (Threw (connect_catch uv e))) S
      | Inr _ \<Rightarrow>
          (case check_uv_status uv connect_status of
             Inl e \<Rightarrow> set_pc f (Finished (Threw (connect_catch uv e))) S
           | Inr _ \<Rightarrow> set_pc f Connecting S))"

definition connect_done :: "uv_lib \<Rightarrow> nat \<Rightarrow> int \<Rightarrow> sock_sys \<Rightarrow> sock_sys" where
  "connect_done uv f status S =
     promise_result f (case connection_callback uv status of
        Inl e \<Rightarrow> Inl (connect_catch uv e) | Inr u \<Rightarrow> Inr u) S"

subsection \<open>Steps\<close>

text \<open>
  A call carries the status that libuv reports at once: of \<open>uv_getaddrinfo\<close>, \<open>uv_read_start\<close>,
  \<open>uv_write\<close> or \<open>uv_shutdown\<close>; a callback carries its status (and \<open>AddrinfoCb\<close> that of the
  \<open>uv_tcp_connect\<close> it leads to). The caller's buffer is not null. libuv runs the read callback
  only between \<open>uv_read_start\<close> and \<open>uv_read_stop\<close>, and the callbacks of requests once.
\<close>

datatype sock_event =
    Connect nat int
  | AddrinfoCb nat int int
  | ConnectCb nat int
  | Read nat nat "64 word" int
  | ReadCb int
  | ReadResume nat int
  | Write nat int
  | WriteCb nat int
  | Close nat int
  | ShutdownCb nat int
  | CloseCb nat

fun sock_step :: "uv_lib \<Rightarrow> sock_sys \<Rightarrow> sock_event \<Rightarrow> sock_sys option" where
  "sock_step uv S (Connect f status) =
     (if can_call (fibers S f) then Some (connect_call uv f status S) else None)"
| "sock_step uv S (AddrinfoCb f status connect_status) =
     (if fibers S f = Resolving then Some (connect_resolved uv f status connect_status S) else None)"
| "sock_step uv S (ConnectCb f status) =
     (if fibers S f = Connecting then Some (connect_done uv f status S) else None)"
| "sock_step uv S (Read f b sz status) =
     (if can_call (fibers S f) \<and> b \<noteq> 0 then Some (read_call uv f b sz status S) else None)"
| "sock_step uv S (ReadCb nread) =
     (if uv_reading S then Some (read_callback_step uv nread S) else None)"
| "sock_step uv S (ReadResume f status) =
     (case fibers S f of ReadWait b True \<Rightarrow> Some (read_resume uv f b status S) | _ \<Rightarrow> None)"
| "sock_step uv S (Write f status) =
     (if can_call (fibers S f) then Some (write_call uv f status S) else None)"
| "sock_step uv S (WriteCb f status) =
     (if fibers S f = Writing then Some (promise_result f (write_callback uv status) S) else None)"
| "sock_step uv S (Close f status) =
     (if can_call (fibers S f) then Some (close_begin uv f By_user status S) else None)"
| "sock_step uv S (ShutdownCb f status) =
     (case fibers S f of Shutting c \<Rightarrow> Some (shutdown_result f c (shutdown_callback uv status) S)
      | _ \<Rightarrow> None)"
| "sock_step uv S (CloseCb f) =
     (case fibers S f of ClosingHandle c \<Rightarrow> Some (close_end f c S) | _ \<Rightarrow> None)"

section \<open>Invariant\<close>

text \<open>
  \<open>reading_\<close> is set exactly while a fiber waits in \<open>read\<close>, at most one does, libuv reads only
  into that fiber's buffer, and a waiting fiber that was not notified still has a callback to
  wait for. The handle is only closed by the one fiber that is in \<open>close\<close>.
\<close>

fun is_read_wait :: "sock_pc \<Rightarrow> bool" where
  "is_read_wait (ReadWait _ _) = True"
| "is_read_wait _ = False"

fun is_closer :: "sock_pc \<Rightarrow> bool" where
  "is_closer (Shutting _) = True"
| "is_closer (ClosingHandle _) = True"
| "is_closer _ = False"

definition read_inv :: "sock_sys \<Rightarrow> bool" where
  "read_inv S \<longleftrightarrow>
     (reading (impl S) \<longleftrightarrow> (\<exists>f. is_read_wait (fibers S f))) \<and>
     (\<forall>f g. is_read_wait (fibers S f) \<longrightarrow> is_read_wait (fibers S g) \<longrightarrow> f = g) \<and>
     (uv_reading S \<longrightarrow> handle S = Open \<and> buf (impl S) \<noteq> 0 \<and>
        (\<exists>f w. fibers S f = ReadWait (buf (impl S)) w)) \<and>
     (\<forall>f b. fibers S f = ReadWait b False \<longrightarrow> uv_reading S \<or> handle S = Closing) \<and>
     (\<forall>f b. fibers S f = ReadWait b True \<longrightarrow>
        \<not> uv_reading S \<and> (buf (impl S) = 0 \<or> closed (impl S)))"

definition close_inv :: "sock_sys \<Rightarrow> bool" where
  "close_inv S \<longleftrightarrow>
     (handle S \<noteq> Open \<longrightarrow> closed (impl S)) \<and>
     (handle S = Closing \<longleftrightarrow> (\<exists>f c. fibers S f = ClosingHandle c)) \<and>
     (\<forall>f. is_closer (fibers S f) \<longrightarrow> closed (impl S) \<and> handle S \<noteq> Closed) \<and>
     (\<forall>f g. is_closer (fibers S f) \<longrightarrow> is_closer (fibers S g) \<longrightarrow> f = g) \<and>
     (\<forall>f. fibers S f = Shutting By_read \<or> fibers S f = ClosingHandle By_read \<longrightarrow> \<not> reading (impl S))
"
definition sock_inv :: "sock_sys \<Rightarrow> bool" where
  "sock_inv S \<longleftrightarrow> read_inv S \<and> close_inv S"

lemmas sock_inv_unfold = sock_inv_def read_inv_def close_inv_def

text \<open>A fiber that is neither reading nor closing may change to any other such state.\<close>

definition neutral :: "sock_pc \<Rightarrow> bool" where
  "neutral p \<longleftrightarrow> \<not> is_read_wait p \<and> \<not> is_closer p"

lemma neutral_simps [simp]:
  "neutral Idle" "neutral Resolving" "neutral Connecting" "neutral Writing" "neutral (Finished r)"
  "\<not> neutral (ReadWait b w)" "\<not> neutral (Shutting c)" "\<not> neutral (ClosingHandle c)"
  by (auto simp: neutral_def)

lemma can_call_neutral: "can_call p \<Longrightarrow> neutral p"
  by (cases p) (auto simp: can_call_def)

lemma set_pc_simps [simp]:
  "impl (set_pc f p S) = impl S" "uv_reading (set_pc f p S) = uv_reading S"
  "handle (set_pc f p S) = handle S" "fibers (set_pc f p S) = (fibers S)(f := p)"
  "set_pc f p (set_pc f q S) = set_pc f p S"
  by (simp_all add: set_pc_def)

lemma notified_simps [simp]:
  "is_read_wait (notified p) = is_read_wait p"
  "is_closer (notified p) = is_closer p"
  "notified p = ReadWait b w \<longleftrightarrow> w \<and> (\<exists>w'. p = ReadWait b w')"
  "notified p = Shutting c \<longleftrightarrow> p = Shutting c"
  "notified p = ClosingHandle c \<longleftrightarrow> p = ClosingHandle c"
  by (cases p; auto)+

lemma set_pc_neutral:
  assumes "sock_inv S" and "\<not> is_read_wait (fibers S f)" and "\<And>c. fibers S f \<noteq> ClosingHandle c"
    and "neutral p"
  shows "sock_inv (set_pc f p S)"
proof -
  have n: "\<And>b w. fibers S f \<noteq> ReadWait b w" "\<And>b w. p \<noteq> ReadWait b w"
    "\<And>c. p \<noteq> ClosingHandle c" "\<And>c. p \<noteq> Shutting c"
    "\<not> is_read_wait p" "\<not> is_closer p"
    using assms(2,4) by (auto simp: neutral_def)
  have "read_inv (set_pc f p S)"
    using assms(1,2) n unfolding sock_inv_def read_inv_def set_pc_def
    by simp metis
  moreover have "close_inv (set_pc f p S)"
    using assms(1,3) n unfolding sock_inv_def close_inv_def set_pc_def
    by simp metis
  ultimately show ?thesis by (simp add: sock_inv_def)
qed

lemma neutral_set_pc: "sock_inv S \<Longrightarrow> neutral (fibers S f) \<Longrightarrow> neutral p \<Longrightarrow> sock_inv (set_pc f p S)"
  by (rule set_pc_neutral) (auto simp: neutral_def)

lemma no_readers:
  assumes "sock_inv S" and "\<not> reading (impl S)"
  shows "\<not> is_read_wait (fibers S g)" and "fibers S g \<noteq> ReadWait b w" and "\<not> uv_reading S"
proof -
  show n: "\<not> is_read_wait (fibers S g)" for g
    using assms by (simp add: sock_inv_unfold)
  then show "fibers S g \<noteq> ReadWait b w" for g b w
    by (metis is_read_wait.simps(1))
  with assms(1) show "\<not> uv_reading S" by (auto simp: sock_inv_unfold)
qed

lemma no_closers:
  assumes "sock_inv S" and "\<not> closed (impl S)"
  shows "\<not> is_closer (fibers S g)" and "fibers S g \<noteq> Shutting c" and "fibers S g \<noteq> ClosingHandle c"
    and "handle S = Open"
proof -
  show n: "\<not> is_closer (fibers S g)" for g
    using assms by (auto simp: sock_inv_unfold)
  then show "fibers S g \<noteq> Shutting c" "fibers S g \<noteq> ClosingHandle c" for g c
    by (metis is_closer.simps(1), metis is_closer.simps(2))
  show "handle S = Open" using assms by (auto simp: sock_inv_unfold)
qed

lemma sock_inv_no_reader:
  assumes "sock_inv S" and "\<not> reading (impl S)"
  shows "sock_inv (S\<lparr>impl := (impl S)\<lparr>len := l, buf := b, reading := False\<rparr>\<rparr>)"
  using assms no_readers [OF assms] by (simp add: sock_inv_unfold)

lemma sock_inv_len [simp]: "sock_inv (S\<lparr>impl := (impl S)\<lparr>len := l\<rparr>\<rparr>) = sock_inv S"
  by (simp add: sock_inv_unfold)

lemma start_reading_inv:
  assumes "sock_inv S" and "\<not> closed (impl S)" and "\<not> reading (impl S)" and "b \<noteq> 0"
  shows "sock_inv (set_pc f (ReadWait b False)
      (S\<lparr>impl := (impl S)\<lparr>reading := True, buf := b, len := l\<rparr>, uv_reading := True\<rparr>))"
proof -
  note none = no_readers [OF assms(1,3)] no_closers [OF assms(1,2)]
  have "read_inv (set_pc f (ReadWait b False)
      (S\<lparr>impl := (impl S)\<lparr>reading := True, buf := b, len := l\<rparr>, uv_reading := True\<rparr>))"
    using none assms(4) by (auto simp: read_inv_def set_pc_def)
  moreover have "close_inv (set_pc f (ReadWait b False)
      (S\<lparr>impl := (impl S)\<lparr>reading := True, buf := b, len := l\<rparr>, uv_reading := True\<rparr>))"
    using none by (auto simp: close_inv_def set_pc_def)
  ultimately show ?thesis by (simp add: sock_inv_def)
qed

lemma read_call_inv:
  assumes "sock_inv S" and "neutral (fibers S f)" and "b \<noteq> 0"
  shows "sock_inv (read_call uv f b sz status S)"
proof (cases "closed (impl S) \<or> reading (impl S)")
  case True
  then show ?thesis
    using assms by (auto simp: read_call_def read_begin_def intro: neutral_set_pc)
next
  case False
  then show ?thesis
    using assms sock_inv_no_reader [where S = S and b = 0 and l = sz] start_reading_inv [where S = S and b = b and f = f and l = sz]
    by (auto simp: read_call_def read_begin_def Let_def intro!: neutral_set_pc split: sum.splits)
qed

lemma read_callback_step_eq:
  "\<exists>l. read_callback_step uv nread S =
     notify_all (S\<lparr>uv_reading := False, impl := (impl S)\<lparr>buf := 0, len := l\<rparr>\<rparr>)"
  by (auto simp: read_callback_step_def read_callback_def on_read_finished_def)

lemma read_callback_inv:
  assumes "sock_inv S"
  shows "sock_inv (read_callback_step uv nread S)"
proof -
  obtain l where eq: "read_callback_step uv nread S =
      notify_all (S\<lparr>uv_reading := False, impl := (impl S)\<lparr>buf := 0, len := l\<rparr>\<rparr>)"
    using read_callback_step_eq by blast
  show ?thesis using assms unfolding eq sock_inv_unfold notify_all_def by simp metis
qed

lemma close_returns_inv:
  assumes "sock_inv S" and "\<not> is_read_wait (fibers S f)" and "\<And>c. fibers S f \<noteq> ClosingHandle c"
  shows "sock_inv (close_returns f c S)"
  using assms
  by (cases c) (auto simp: close_returns_def read_return_def Let_def intro!: set_pc_neutral)

lemma read_catch_inv:
  assumes "sock_inv S" and "\<not> reading (impl S)"
  shows "sock_inv (S\<lparr>impl := read_catch (impl S)\<rparr>)"
  using assms no_readers [OF assms] by (simp add: sock_inv_unfold read_catch_def)

lemma close_throws_inv:
  assumes "sock_inv S" and "\<not> is_read_wait (fibers S f)" and "\<And>c. fibers S f \<noteq> ClosingHandle c"
    and "c = By_read \<Longrightarrow> \<not> reading (impl S)"
  shows "sock_inv (close_throws f c e S)"
proof (cases c)
  case By_user
  then show ?thesis using assms by (auto simp: close_throws_def intro!: set_pc_neutral)
next
  case By_read
  have "sock_inv (S\<lparr>impl := read_catch (impl S)\<rparr>)"
    using assms By_read by (simp add: read_catch_inv)
  then show ?thesis using assms By_read by (auto simp: close_throws_def intro!: set_pc_neutral)
qed

lemma close_handle_begin_inv:
  assumes "sock_inv S" and "\<not> is_read_wait (fibers S f)" and "closed (impl S)"
    and "\<And>g. is_closer (fibers S g) \<Longrightarrow> g = f" and "c = By_read \<Longrightarrow> \<not> reading (impl S)"
  shows "sock_inv (close_handle_begin f c S)"
proof -
  have "read_inv (close_handle_begin f c S)"
    using assms unfolding sock_inv_def read_inv_def close_handle_begin_def set_pc_def
    by simp metis
  moreover have "close_inv (close_handle_begin f c S)"
    using assms(1,3,5) unfolding sock_inv_def close_inv_def close_handle_begin_def set_pc_def
    by (auto dest: assms(4))
  ultimately show ?thesis by (simp add: sock_inv_def)
qed

lemma shutdown_result_inv:
  assumes "sock_inv S" and "\<not> is_read_wait (fibers S f)" and "closed (impl S)"
    and "\<And>c. fibers S f \<noteq> ClosingHandle c"
    and "\<And>g. is_closer (fibers S g) \<Longrightarrow> g = f" and "c = By_read \<Longrightarrow> \<not> reading (impl S)"
  shows "sock_inv (shutdown_result f c r S)"
proof (cases "r = Inl Socket_closed_error \<or> (\<exists>u. r = Inr u)")
  case True
  then have "shutdown_result f c r S = close_handle_begin f c S"
    by (auto simp: shutdown_result_def)
  then show ?thesis using close_handle_begin_inv assms by metis
next
  case False
  then obtain e where r: "r = Inl e" and "e \<noteq> Socket_closed_error" by (cases r) auto
  then have "shutdown_result f c r S = close_throws f c e S"
    by (cases e) (auto simp: shutdown_result_def)
  then show ?thesis using close_throws_inv assms by metis
qed

lemma set_closed_inv: "sock_inv S \<Longrightarrow> sock_inv (S\<lparr>impl := (impl S)\<lparr>closed := True\<rparr>\<rparr>)"
  unfolding sock_inv_unfold by simp metis

lemma begin_shutdown_inv:
  assumes "sock_inv S" and "\<not> is_read_wait (fibers S f)" and "closed (impl S)" and "handle S = Open"
    and "\<And>g. \<not> is_closer (fibers S g)" and "c = By_read \<Longrightarrow> \<not> reading (impl S)"
  shows "sock_inv (set_pc f (Shutting c) S)"
proof -
  have n: "fibers S f \<noteq> ReadWait b w" for b w
    using assms(2) by auto
  have "read_inv (set_pc f (Shutting c) S)"
    using assms(1,2) n unfolding sock_inv_def read_inv_def set_pc_def by simp metis
  moreover have "close_inv (set_pc f (Shutting c) S)"
    using assms unfolding sock_inv_def close_inv_def set_pc_def by auto
  ultimately show ?thesis by (simp add: sock_inv_def)
qed

lemma close_begin_inv:
  assumes "sock_inv S" and "neutral (fibers S f)" and "c = By_read \<Longrightarrow> \<not> reading (impl S)"
  shows "sock_inv (close_begin uv f c status S)"
proof (cases "closed (impl S)")
  case True
  with assms show ?thesis by (auto simp: close_begin_def neutral_def intro!: close_returns_inv)
next
  case False
  let ?S = "S\<lparr>impl := (impl S)\<lparr>closed := True\<rparr>\<rparr>"
  note none = no_closers [OF assms(1) False]
  have f: "\<not> is_read_wait (fibers ?S f)" using assms(2) by (simp add: neutral_def)
  have inv: "sock_inv ?S" using assms(1) by (rule set_closed_inv)
  show ?thesis
  proof (cases "0 \<le> status")
    case True
    then have "close_begin uv f c status S = set_pc f (Shutting c) ?S"
      using False by (simp add: close_begin_def)
    moreover have "sock_inv (set_pc f (Shutting c) ?S)"
      by (rule begin_shutdown_inv [OF inv f]) (use none assms(3) in auto)
    ultimately show ?thesis by simp
  next
    case neg: False
    then obtain e where "close_begin uv f c status S = shutdown_result f c (Inl e) ?S"
      using False by (cases "check_uv_status uv status") (auto simp: close_begin_def)
    moreover have "sock_inv (shutdown_result f c (Inl e) ?S)"
      by (rule shutdown_result_inv [OF inv f]) (use none assms(3) in auto)
    ultimately show ?thesis by simp
  qed
qed

lemma close_end_inv:
  assumes "sock_inv S" and "fibers S f = ClosingHandle c"
  shows "sock_inv (close_end f c S)"
proof -
  let ?S = "set_pc f Idle (notify_all (S\<lparr>handle := Closed\<rparr>))"
  have only: "g = f" if "is_closer (fibers S g)" for g
    using assms that unfolding sock_inv_def close_inv_def by (metis is_closer.simps(2))
  have cl: "closed (impl S)" "handle S = Closing" "\<not> uv_reading S"
    using assms unfolding sock_inv_unfold by (metis handle_state.distinct)+
  have "read_inv ?S"
    using assms cl unfolding sock_inv_def read_inv_def notify_all_def set_pc_def
    by simp (metis sock_pc.distinct is_read_wait.simps)
  moreover have "close_inv ?S"
    using assms(1) cl only unfolding sock_inv_def close_inv_def notify_all_def set_pc_def
    by (auto split: if_splits)
  ultimately have "sock_inv (close_returns f c ?S)"
    by (intro close_returns_inv) (auto simp: sock_inv_def)
  then show ?thesis
    by (cases c) (simp_all add: close_end_def close_returns_def Let_def set_pc_def)
qed

lemma woken_reader:
  assumes "sock_inv S" and "fibers S f = ReadWait b True"
  shows "\<not> wait_for_read_to_finish (impl S)" and "\<not> uv_reading S" and "reading (impl S)"
    and "\<And>g. is_read_wait (fibers S g) \<Longrightarrow> g = f"
proof -
  show "\<not> wait_for_read_to_finish (impl S)" "\<not> uv_reading S"
    using assms by (auto simp: sock_inv_unfold wait_for_read_to_finish_def)
  have f: "is_read_wait (fibers S f)" by (simp add: assms(2))
  then show "reading (impl S)" using assms(1) by (auto simp: sock_inv_unfold)
  show "g = f" if "is_read_wait (fibers S g)" for g
    using assms(1) that f by (auto simp: sock_inv_unfold)
qed

lemma leave_read_inv:
  assumes "sock_inv S" and "fibers S f = ReadWait b True"
  shows "sock_inv (set_pc f Idle (S\<lparr>impl := (impl S)\<lparr>reading := False\<rparr>\<rparr>))" (is "sock_inv ?S")
proof -
  note w = woken_reader [OF assms]
  have other: "\<not> is_read_wait (fibers ?S g)" "fibers ?S g \<noteq> ReadWait b w" for g b w
    using w(4) [of g] by (cases "fibers S g"; auto)+
  have "read_inv ?S" using other w(2) by (auto simp: read_inv_def)
  moreover have "close_inv ?S"
  proof -
    have "fibers ?S g = ClosingHandle c \<longleftrightarrow> fibers S g = ClosingHandle c"
      "fibers ?S g = Shutting c \<longleftrightarrow> fibers S g = Shutting c"
      "is_closer (fibers ?S g) \<longleftrightarrow> is_closer (fibers S g)" for g c
      using assms(2) by auto
    then show ?thesis
      using assms(1) unfolding sock_inv_def close_inv_def by simp
  qed
  ultimately show ?thesis by (simp add: sock_inv_def)
qed

lemma set_pc_impl [simp]:
  "set_pc f q ((set_pc f p S)\<lparr>impl := s\<rparr>) = set_pc f q (S\<lparr>impl := s\<rparr>)"
  "set_pc f q ((set_pc f p S)\<lparr>handle := h, uv_reading := r\<rparr>) = set_pc f q (S\<lparr>handle := h, uv_reading := r\<rparr>)"
  by (simp_all add: set_pc_def)

lemma set_pc_absorb:
  "close_returns f c (set_pc f p S) = close_returns f c S"
  "close_throws f c e (set_pc f p S) = close_throws f c e S"
  "close_handle_begin f c (set_pc f p S) = close_handle_begin f c S"
  by (cases c; simp add: close_returns_def close_throws_def close_handle_begin_def Let_def
      split: prod.split)+

lemma set_pc_impl_swap: "(set_pc f p S)\<lparr>impl := s\<rparr> = set_pc f p (S\<lparr>impl := s\<rparr>)"
  by (simp add: set_pc_def)

lemma close_begin_absorb: "close_begin uv f c status (set_pc f p S) = close_begin uv f c status S"
proof -
  have r: "shutdown_result f c (Inl e) (set_pc f p T) = shutdown_result f c (Inl e) T" for e T
    by (cases e) (simp_all add: shutdown_result_def set_pc_absorb)
  show ?thesis
    by (cases "check_uv_status uv status")
      (simp_all add: close_begin_def set_pc_impl_swap set_pc_absorb r Let_def)
qed

lemma read_resume_inv:
  assumes "sock_inv S" and "fibers S f = ReadWait b True"
  shows "sock_inv (read_resume uv f b status S)"
proof -
  let ?S = "S\<lparr>impl := (impl S)\<lparr>reading := False\<rparr>\<rparr>"
  have inv: "sock_inv (set_pc f Idle ?S)" using assms by (rule leave_read_inv)
  have "sock_inv (close_begin uv f By_read status (set_pc f Idle ?S))"
    using inv by (rule close_begin_inv) auto
  moreover have "sock_inv (close_returns f By_read (set_pc f Idle ?S))"
    using inv by (rule close_returns_inv) auto
  moreover have "sock_inv (set_pc f Idle (?S\<lparr>impl := read_catch (impl ?S)\<rparr>))"
  proof -
    have "sock_inv ((set_pc f Idle ?S)\<lparr>impl := read_catch (impl ?S)\<rparr>)"
      using read_catch_inv [OF inv] by simp
    then show ?thesis unfolding set_pc_impl_swap by simp
  qed
  then have "sock_inv (set_pc f (Finished r) (set_pc f Idle (?S\<lparr>impl := read_catch (impl ?S)\<rparr>)))" for r
    by (rule neutral_set_pc) auto
  ultimately show ?thesis
    using woken_reader(1) [OF assms] unfolding close_begin_absorb set_pc_absorb
    by (simp add: read_resume_def read_after_wait_def Let_def)
qed

lemma connect_inv:
  assumes "sock_inv S" and "neutral (fibers S f)"
  shows "sock_inv (connect_call uv f status S)" and "sock_inv (connect_resolved uv f status st S)"
    and "sock_inv (connect_done uv f status S)" and "sock_inv (write_call uv f status S)"
    and "sock_inv (promise_result f r S)"
  using assms
  by (auto simp: connect_call_def connect_resolved_def connect_done_def write_call_def
      promise_result_def intro!: neutral_set_pc split: sum.splits)

lemma shutting:
  assumes "sock_inv S" and "fibers S f = Shutting c"
  shows "closed (impl S)" and "handle S = Open" and "\<And>g. is_closer (fibers S g) \<Longrightarrow> g = f"
    and "c = By_read \<Longrightarrow> \<not> reading (impl S)"
proof -
  have f: "is_closer (fibers S f)" using assms(2) by simp
  then show "closed (impl S)" using assms(1) by (auto simp: sock_inv_def close_inv_def)
  show only: "g = f" if "is_closer (fibers S g)" for g
    using assms(1) f that by (auto simp: sock_inv_def close_inv_def)
  have "handle S \<noteq> Closing"
  proof
    assume "handle S = Closing"
    then obtain g d where g: "fibers S g = ClosingHandle d"
      using assms(1) by (auto simp: sock_inv_def close_inv_def)
    then have "g = f" by (intro only) simp
    with g assms(2) show False by simp
  qed
  moreover have "handle S \<noteq> Closed" using assms(1) f by (auto simp: sock_inv_def close_inv_def)
  ultimately show "handle S = Open" by (cases "handle S") auto
  show "\<not> reading (impl S)" if "c = By_read"
    using assms that by (auto simp: sock_inv_def close_inv_def)
qed

lemma shutdown_cb_inv:
  assumes "sock_inv S" and "fibers S f = Shutting c"
  shows "sock_inv (shutdown_result f c r S)"
  by (rule shutdown_result_inv) (use assms shutting [OF assms] in auto)

lemma sock_inv_init: "sock_inv sock_init"
  by (simp add: sock_inv_unfold sock_init_def socket_impl_new_def)

lemma sock_inv_step:
  assumes "sock_inv S" and "sock_step uv S e = Some T"
  shows "sock_inv T"
  using assms
  by (cases e)
    (auto intro: connect_inv read_call_inv read_callback_inv read_resume_inv close_begin_inv
      shutdown_cb_inv close_end_inv can_call_neutral split: if_splits sock_pc.splits bool.splits)

interpretation sockets: inductive_invariant "sock_step uv" sock_init sock_inv for uv
  by unfold_locales (auto intro: sock_inv_init sock_inv_step)

section \<open>Properties\<close>

lemma closed_step: "sock_step uv S e = Some T \<Longrightarrow> closed (impl S) \<Longrightarrow> closed (impl T)"
  by (cases e)
    (auto simp: connect_call_def connect_resolved_def connect_done_def promise_result_def
      read_call_def read_begin_def read_callback_step_def read_callback_def on_read_finished_def
      notify_all_def read_resume_def read_after_wait_def close_begin_def close_returns_def
      read_return_def write_call_def shutdown_result_def close_handle_begin_def close_throws_def
      read_catch_def close_end_def Let_def
      split: if_splits sum.splits sock_pc.splits bool.splits close_caller.splits exn.splits read_next.splits prod.splits)

text \<open>
  C6. libuv only ever writes into the buffer of the fiber that is blocked in \<open>read\<close>: in every
  reachable state in which reading is started, the address that \<open>alloc_callback\<close> hands to libuv
  is the buffer of a fiber that still waits in \<open>read\<close>, it is not null, and no other fiber waits.
\<close>

theorem read_buffer_is_live:
  assumes "reachable (sock_step uv) sock_init S" and "uv_reading S"
  shows "\<exists>f w. fibers S f = ReadWait (fst (alloc_callback (impl S))) w \<and>
    fst (alloc_callback (impl S)) \<noteq> 0 \<and> (\<forall>g. is_read_wait (fibers S g) \<longrightarrow> g = f)"
proof -
  have "read_inv S" using sockets.reachable_inv [OF assms(1)] by (simp add: sock_inv_def)
  with assms(2) obtain f w where "fibers S f = ReadWait (buf (impl S)) w" "buf (impl S) \<noteq> 0"
    "\<forall>f g. is_read_wait (fibers S f) \<longrightarrow> is_read_wait (fibers S g) \<longrightarrow> f = g"
    unfolding read_inv_def by blast
  then show ?thesis by (auto simp: alloc_callback_def)
qed

lemmas sock_eval = sock_init_def socket_impl_new_def can_call_def read_call_def read_begin_def
  set_pc_def read_callback_step_def read_callback_def on_read_finished_def notify_all_def
  read_resume_def wait_for_read_to_finish_def read_after_wait_def close_returns_def read_return_def
  close_begin_def shutdown_result_def close_handle_begin_def close_throws_def close_end_def
  read_catch_def ERROR_EOF_def ERROR_READ_FAILED_def linux_uv_def check_uv_status_def

theorem read_buffer_is_live_witness:
  "\<exists>S. run (sock_step linux_uv) sock_init [Read 1 4096 10 0] = Some S \<and> uv_reading S \<and>
    fst (alloc_callback (impl S)) \<noteq> 0"
proof -
  obtain S where r: "run (sock_step linux_uv) sock_init [Read 1 4096 10 0] = Some S" and u: "uv_reading S"
    by (simp add: sock_eval)
  from read_buffer_is_live [OF run_reachable [OF r] u] r u show ?thesis by blast
qed

text \<open>
  C18. A second \<open>read\<close> on the same socket fails and does no harm: while a fiber waits in \<open>read\<close>
  on an open socket, a \<open>read\<close> of any other fiber throws \<open>io_error("concurrent read")\<close> and changes
  nothing else, neither the socket nor the state of the waiting fiber.
\<close>

theorem concurrent_read_rejected:
  assumes "reachable (sock_step uv) sock_init S" and "is_read_wait (fibers S f)"
    and "\<not> closed (impl S)" and "can_call (fibers S g)" and "b \<noteq> 0"
  shows "sock_step uv S (Read g b sz status) =
    Some (S\<lparr>fibers := (fibers S)(g := Finished (Threw (Io_error ''concurrent read'')))\<rparr>)"
proof -
  have "reading (impl S)"
    using sockets.reachable_inv [OF assms(1)] assms(2) unfolding sock_inv_def read_inv_def by blast
  with assms show ?thesis by (simp add: read_call_def read_begin_def set_pc_def)
qed

theorem concurrent_read_rejected_witness:
  "\<exists>S. run (sock_step linux_uv) sock_init [Read 1 4096 10 0] = Some S \<and>
    sock_step linux_uv S (Read 2 512 10 0) =
      Some (S\<lparr>fibers := (fibers S)(2 := Finished (Threw (Io_error ''concurrent read'')))\<rparr>)"
proof -
  obtain S where r: "run (sock_step linux_uv) sock_init [Read 1 4096 10 0] = Some S"
    and h: "is_read_wait (fibers S 1)" "\<not> closed (impl S)" "can_call (fibers S 2)"
    by (simp add: sock_eval)
  have "sock_step linux_uv S (Read 2 512 10 0) =
      Some (S\<lparr>fibers := (fibers S)(2 := Finished (Threw (Io_error ''concurrent read'')))\<rparr>)"
    by (rule concurrent_read_rejected [OF run_reachable [OF r] h]) simp
  with r show ?thesis by blast
qed

text \<open>
  A closed socket stays closed and refuses every operation: once \<open>closed_\<close> is set no step
  clears it, \<open>connect\<close>, \<open>read\<close> and \<open>write\<close> throw \<open>socket_closed_error\<close> without touching the socket,
  and another \<open>close\<close> returns at once without touching it.
\<close>

theorem closed_is_final:
  assumes "closed (impl S)" and "can_call (fibers S f)" and "b \<noteq> 0"
  shows "(\<forall>e T. sock_step uv S e = Some T \<longrightarrow> closed (impl T)) \<and>
    sock_step uv S (Connect f st) = Some (S\<lparr>fibers := (fibers S)(f := Finished (Threw Socket_closed_error))\<rparr>) \<and>
    sock_step uv S (Read f b sz st) = Some (S\<lparr>fibers := (fibers S)(f := Finished (Threw Socket_closed_error))\<rparr>) \<and>
    sock_step uv S (Write f st) = Some (S\<lparr>fibers := (fibers S)(f := Finished (Threw Socket_closed_error))\<rparr>) \<and>
    sock_step uv S (Close f st) = Some (S\<lparr>fibers := (fibers S)(f := Finished Ok)\<rparr>)"
proof (intro conjI)
  show "\<forall>e T. sock_step uv S e = Some T \<longrightarrow> closed (impl T)"
    using closed_step assms(1) by blast
qed (use assms in \<open>simp_all add: connect_call_def read_call_def read_begin_def write_call_def
      close_begin_def close_returns_def set_pc_def\<close>)

theorem closed_is_final_witness:
  "\<exists>S. run (sock_step linux_uv) sock_init [Close 1 (- 107), CloseCb 1] = Some S \<and> closed (impl S) \<and>
    sock_step linux_uv S (Write 1 0) =
      Some (S\<lparr>fibers := (fibers S)(1 := Finished (Threw Socket_closed_error))\<rparr>)"
proof -
  obtain S where r: "run (sock_step linux_uv) sock_init [Close 1 (- 107), CloseCb 1] = Some S"
    and h: "closed (impl S)" "can_call (fibers S 1)"
    by (simp add: sock_eval)
  have "sock_step linux_uv S (Write 1 0) =
      Some (S\<lparr>fibers := (fibers S)(1 := Finished (Threw Socket_closed_error))\<rparr>)"
    using closed_is_final [OF h, of 8 linux_uv 0] by simp
  with r h show ?thesis by blast
qed

text \<open>
  C7. Closing a socket releases its reader: in every reachable state in which the handle has been
  closed, a fiber that still waits in \<open>read\<close> has been notified, and when it runs it leaves \<open>read\<close>,
  with 0 bytes unless a failed read was reported to it before.
\<close>

theorem close_releases_reader:
  assumes "reachable (sock_step uv) sock_init S" and "handle S = Closed"
    and "fibers S f = ReadWait b w"
  shows "\<exists>T. sock_step uv S (ReadResume f st) = Some T \<and> fibers T f =
    Finished (if len (impl S) = ERROR_READ_FAILED then Threw (Io_error ''read failed'') else Count 0)"
proof -
  have inv: "sock_inv S" using assms(1) by (rule sockets.reachable_inv)
  with assms(2) have c: "closed (impl S)" and u: "\<not> uv_reading S"
    by (auto simp: sock_inv_unfold)
  with inv assms(2,3) have "w" by (cases w) (auto simp: sock_inv_unfold)
  with c assms(3) show ?thesis
    by (simp add: read_resume_def wait_for_read_to_finish_def read_after_wait_def close_begin_def
        close_returns_def read_return_def set_pc_def ERROR_EOF_def ERROR_READ_FAILED_def Let_def)
qed

theorem close_releases_reader_witness:
  "\<exists>S. run (sock_step linux_uv) sock_init [Read 1 4096 10 0, Close 2 0, ShutdownCb 2 0, CloseCb 2] = Some S \<and>
    handle S = Closed \<and> (\<exists>T. sock_step linux_uv S (ReadResume 1 0) = Some T \<and> fibers T 1 = Finished (Count 0))"
proof -
  obtain S where r: "run (sock_step linux_uv) sock_init [Read 1 4096 10 0, Close 2 0, ShutdownCb 2 0, CloseCb 2] = Some S"
    and h: "handle S = Closed" "fibers S 1 = ReadWait 4096 True" and l: "len (impl S) = 10"
    by (simp add: sock_eval)
  from close_releases_reader [OF run_reachable [OF r] h, of 0] r h l show ?thesis
    by (simp add: ERROR_READ_FAILED_def)
qed

lemmas read_eval = read_callback_step_def read_callback_def on_read_finished_def notify_all_def
  read_resume_def wait_for_read_to_finish_def read_after_wait_def close_returns_def
  read_return_def set_pc_def read_catch_def Let_def

lemma count_is_no_error:
  assumes "0 \<le> n" and "n < 2 ^ 63"
  shows "word_of_int n \<noteq> ERROR_EOF" and "word_of_int n \<noteq> ERROR_READ_FAILED"
proof -
  have "sint (word_of_int n :: 64 word) = n"
    using assms by (simp add: sint_sbintrunc' signed_take_bit_int_eq_self)
  moreover have "sint ERROR_EOF = - 1" "sint ERROR_READ_FAILED = - 2"
    by (simp_all add: ERROR_EOF_def ERROR_READ_FAILED_def)
  ultimately show "word_of_int n \<noteq> ERROR_EOF" and "word_of_int n \<noteq> ERROR_READ_FAILED"
    using assms(1) by force+
qed

lemma error_codes_differ [simp]:
  "ERROR_EOF \<noteq> ERROR_READ_FAILED" "ERROR_READ_FAILED \<noteq> ERROR_EOF"
  by (simp_all add: ERROR_EOF_def ERROR_READ_FAILED_def)

text \<open>
  C34. What a waiting \<open>read\<close> returns is what libuv reported: on an open socket a callback with
  \<open>nread \<ge> 0\<close> makes \<open>read\<close> return exactly that count and leaves the socket open and free for the
  next read; any error other than end-of-file makes it throw \<open>io_error("read failed")\<close>, again with
  the socket open and free; end-of-file closes the socket and, once the nested \<open>close\<close> is
  through, returns 0.
\<close>

theorem read_outcome:
  assumes "reachable (sock_step uv) sock_init S" and "uv_codes_ok uv"
    and "fibers S f = ReadWait b w" and "uv_reading S" and "\<not> closed (impl S)"
  shows "(0 \<le> nread \<and> nread < 2 ^ 63 \<longrightarrow>
      (\<exists>T. run (sock_step uv) S [ReadCb nread, ReadResume f st] = Some T \<and>
        fibers T f = Finished (Count (word_of_int nread)) \<and> \<not> closed (impl T) \<and>
        \<not> reading (impl T) \<and> buf (impl T) = 0)) \<and>
    (nread < 0 \<and> nread \<noteq> UV_EOF uv \<longrightarrow>
      (\<exists>T. run (sock_step uv) S [ReadCb nread, ReadResume f st] = Some T \<and>
        fibers T f = Finished (Threw (Io_error ''read failed'')) \<and> \<not> closed (impl T) \<and>
        \<not> reading (impl T) \<and> buf (impl T) = 0)) \<and>
    (\<exists>T. run (sock_step uv) S [ReadCb (UV_EOF uv), ReadResume f 0, ShutdownCb f 0, CloseCb f] = Some T \<and>
        fibers T f = Finished (Count 0) \<and> closed (impl T) \<and> handle T = Closed)"
proof (intro conjI impI)
  assume n: "0 \<le> nread \<and> nread < 2 ^ 63"
  then show "\<exists>T. run (sock_step uv) S [ReadCb nread, ReadResume f st] = Some T \<and>
        fibers T f = Finished (Count (word_of_int nread)) \<and> \<not> closed (impl T) \<and>
        \<not> reading (impl T) \<and> buf (impl T) = 0"
    using assms count_is_no_error [of nread] by (simp add: read_eval)
next
  assume n: "nread < 0 \<and> nread \<noteq> UV_EOF uv"
  then show "\<exists>T. run (sock_step uv) S [ReadCb nread, ReadResume f st] = Some T \<and>
        fibers T f = Finished (Threw (Io_error ''read failed'')) \<and> \<not> closed (impl T) \<and>
        \<not> reading (impl T) \<and> buf (impl T) = 0"
    using assms by (simp add: read_eval)
next
  show "\<exists>T. run (sock_step uv) S [ReadCb (UV_EOF uv), ReadResume f 0, ShutdownCb f 0, CloseCb f] = Some T \<and>
        fibers T f = Finished (Count 0) \<and> closed (impl T) \<and> handle T = Closed"
    using assms by (simp add: read_eval close_begin_def shutdown_result_def close_handle_begin_def
        close_end_def uv_codes_ok_def)
qed

theorem read_outcome_witness:
  "\<exists>S. run (sock_step linux_uv) sock_init [Read 1 4096 10 0] = Some S \<and>
    (\<exists>T. run (sock_step linux_uv) S [ReadCb 7, ReadResume 1 0] = Some T \<and> fibers T 1 = Finished (Count 7))"
proof -
  obtain S where r: "run (sock_step linux_uv) sock_init [Read 1 4096 10 0] = Some S"
    and h: "fibers S 1 = ReadWait 4096 False" "uv_reading S" "\<not> closed (impl S)"
    by (simp add: sock_eval)
  from read_outcome [OF run_reachable [OF r] linux_uv_codes_ok h, of 7 0]
  obtain T where "run (sock_step linux_uv) S [ReadCb 7, ReadResume 1 0] = Some T"
    "fibers T 1 = Finished (Count 7)"
    by auto
  with r show ?thesis by blast
qed

text \<open>
  Every failure of \<open>connect\<close> reaches the caller as an \<open>io_error\<close>: whichever of its steps ends
  it with an exception (the closed check, \<open>uv_getaddrinfo\<close> or its callback, \<open>uv_tcp_connect\<close> or its
  callback), the exception is \<open>io_error\<close> or derived from it, and the socket's own state is as before.
\<close>

theorem connect_throws_io_error:
  assumes "sock_step uv S e = Some T"
    and "e = Connect f st \<or> e = AddrinfoCb f st st2 \<or> e = ConnectCb f st"
  shows "impl T = impl S \<and> (\<forall>x. fibers T f = Finished (Threw x) \<longrightarrow> is_io_error x) \<and>
    (st < 0 \<longrightarrow> (\<exists>x. fibers T f = Finished (Threw x)))"
proof -
  have catch: "is_io_error (connect_catch uv x)" if "check_uv_status uv status = Inl x" for x status
    using that by (auto simp: check_uv_status_def connect_catch_def split: if_splits)
  show ?thesis
    using assms catch
    by (auto simp: connect_call_def connect_resolved_def connect_done_def promise_result_def
        addrinfo_callback_def set_pc_def split: if_splits sum.splits)
qed

theorem connect_throws_io_error_witness:
  "\<exists>S T. run (sock_step linux_uv) sock_init [Connect 1 0, AddrinfoCb 1 0 0] = Some S \<and>
    sock_step linux_uv S (ConnectCb 1 (- 111)) = Some T \<and>
    (\<exists>x. fibers T 1 = Finished (Threw x) \<and> is_io_error x)"
proof -
  obtain S where r: "run (sock_step linux_uv) sock_init [Connect 1 0, AddrinfoCb 1 0 0] = Some S"
    and c: "fibers S 1 = Connecting"
    by (simp add: sock_eval connect_call_def connect_resolved_def addrinfo_callback_def)
  then obtain T where t: "sock_step linux_uv S (ConnectCb 1 (- 111)) = Some T" by simp
  from connect_throws_io_error [OF t, of 1 "- 111"] r t show ?thesis by auto
qed

text \<open>
  \<open>write\<close> reports libuv's status, but unlike \<open>connect\<close> it does not turn the internal
  \<open>uv_error\<close> into an \<open>io_error\<close>: a write whose callback reports a status other than the two
  codes of a closed connection and the address family code ends with an exception that a handler
  for \<open>io_error\<close> does not catch.
\<close>

theorem write_outcome:
  assumes "fibers S f = Writing"
  shows "\<exists>r. sock_step uv S (WriteCb f st) = Some (S\<lparr>fibers := (fibers S)(f := Finished r)\<rparr>) \<and>
    (0 \<le> st \<longrightarrow> r = Ok) \<and>
    (st < 0 \<and> (st = UV_ENOTCONN uv \<or> st = UV_EBADF uv) \<longrightarrow> r = Threw Socket_closed_error) \<and>
    (st < 0 \<and> st \<notin> {UV_ENOTCONN uv, UV_EBADF uv, UV_EAI_ADDRFAMILY uv} \<longrightarrow>
       r = Threw (Uv_error st) \<and> \<not> is_io_error (Uv_error st))"
  using assms by (auto simp: promise_result_def set_pc_def check_uv_status_def)

theorem write_outcome_witness:
  "\<exists>S. run (sock_step linux_uv) sock_init [Write 1 0] = Some S \<and>
    sock_step linux_uv S (WriteCb 1 (- 32)) =
      Some (S\<lparr>fibers := (fibers S)(1 := Finished (Threw (Uv_error (- 32))))\<rparr>)"
proof -
  obtain S where r: "run (sock_step linux_uv) sock_init [Write 1 0] = Some S" and w: "fibers S 1 = Writing"
    by (simp add: sock_eval write_call_def)
  from write_outcome [OF w, of linux_uv "- 32"] r show ?thesis by (auto simp: linux_uv_def)
qed

definition stranded :: "sock_sys \<Rightarrow> bool" where
  "stranded S \<longleftrightarrow> closed (impl S) \<and> handle S = Open \<and> (\<forall>f. \<not> is_closer (fibers S f))"

lemma stranded_set_pc: "stranded S \<Longrightarrow> neutral p \<Longrightarrow> stranded (set_pc f p S)"
  by (simp add: stranded_def neutral_def)

lemma stranded_no_closer: "stranded S \<Longrightarrow> fibers S f \<noteq> Shutting c \<and> fibers S f \<noteq> ClosingHandle c"
  unfolding stranded_def by (metis is_closer.simps(1,2))

lemma stranded_impl:
  "stranded S \<Longrightarrow> closed s \<Longrightarrow> stranded (S\<lparr>impl := s\<rparr>)" "stranded (S\<lparr>uv_reading := r\<rparr>) = stranded S"
  by (simp_all add: stranded_def)

lemma stranded_read_resume: "stranded S \<Longrightarrow> stranded (read_resume uv f b st S)"
proof -
  assume s: "stranded S"
  then have c: "closed (impl S)" by (simp add: stranded_def)
  have "stranded (close_returns f By_read (S\<lparr>impl := (impl S)\<lparr>reading := False\<rparr>\<rparr>))"
    using s c by (auto simp: close_returns_def read_return_def intro!: stranded_set_pc stranded_impl)
  then show ?thesis
    using s c by (auto simp: read_resume_def wait_for_read_to_finish_def read_after_wait_def
        close_begin_def read_catch_def Let_def intro!: stranded_set_pc stranded_impl)
qed

lemma stranded_step: "stranded S \<Longrightarrow> sock_step uv S e = Some T \<Longrightarrow> stranded T"
proof (cases e)
  case (ReadResume f st)
  then show "stranded S \<Longrightarrow> sock_step uv S e = Some T \<Longrightarrow> ?thesis"
    by (auto intro: stranded_read_resume split: sock_pc.splits bool.splits)
next
  case (ReadCb n)
  then show "stranded S \<Longrightarrow> sock_step uv S e = Some T \<Longrightarrow> ?thesis"
    by (auto simp: stranded_def read_callback_step_def read_callback_def on_read_finished_def
        notify_all_def split: if_splits)
next
  case (CloseCb f)
  then show "stranded S \<Longrightarrow> sock_step uv S e = Some T \<Longrightarrow> ?thesis"
    using stranded_no_closer [of S f] by (auto split: sock_pc.splits)
next
  case (ShutdownCb f st)
  then show "stranded S \<Longrightarrow> sock_step uv S e = Some T \<Longrightarrow> ?thesis"
    using stranded_no_closer [of S f] by (auto split: sock_pc.splits)
qed (auto simp: connect_call_def connect_resolved_def connect_done_def promise_result_def
      read_call_def read_begin_def close_begin_def close_returns_def write_call_def stranded_def
      split: if_splits sum.splits)

lemma stranded_run: "stranded S \<Longrightarrow> run (sock_step uv) S es = Some T \<Longrightarrow> stranded T"
  by (induction es arbitrary: S) (auto split: option.splits dest: stranded_step)

text \<open>
  C38. A \<open>close\<close> whose \<open>uv_shutdown\<close> fails with any other status gives up half way: \<open>closed_\<close> is set,
  the exception leaves \<open>close\<close>, the handle is still open and no later step ever closes it, and a
  fiber that waits in \<open>read\<close> is not notified.
\<close>

theorem failed_shutdown_strands_handle:
  assumes "sock_inv S" and "fibers S f = Shutting By_user"
    and "st < 0" and "st \<notin> {UV_ENOTCONN uv, UV_EBADF uv, UV_EAI_ADDRFAMILY uv}"
  shows "\<exists>T. sock_step uv S (ShutdownCb f st) = Some T \<and> closed (impl T) \<and>
    fibers T f = Finished (Threw (Uv_error st)) \<and>
    (\<forall>g. g \<noteq> f \<longrightarrow> fibers T g = fibers S g) \<and>
    (\<forall>es U. run (sock_step uv) T es = Some U \<longrightarrow> handle U = Open)"
proof -
  let ?T = "set_pc f (Finished (Threw (Uv_error st))) S"
  have step: "sock_step uv S (ShutdownCb f st) = Some ?T"
    using assms(2-4) by (simp add: shutdown_result_def close_throws_def check_uv_status_def)
  note sh = shutting [OF assms(1,2)]
  have "\<not> is_closer (fibers ?T g)" for g
    using sh(3) [of g] by (cases "g = f") auto
  with sh have "stranded ?T" by (simp add: stranded_def)
  have "handle U = Open" if "run (sock_step uv) ?T es = Some U" for es U
    using stranded_run [OF \<open>stranded ?T\<close> that] by (simp add: stranded_def)
  with step sh(1) show ?thesis by (intro exI [of _ ?T]) auto
qed
theorem failed_shutdown_strands_handle_witness:
  "\<exists>S. run (sock_step linux_uv) sock_init [Read 1 4096 10 0, Close 2 0] = Some S \<and>
    (\<exists>T. sock_step linux_uv S (ShutdownCb 2 (- 105)) = Some T \<and> closed (impl T) \<and>
      fibers T 1 = ReadWait 4096 False \<and>
      (\<forall>es U. run (sock_step linux_uv) T es = Some U \<longrightarrow> handle U = Open))"
proof -
  obtain S where r: "run (sock_step linux_uv) sock_init [Read 1 4096 10 0, Close 2 0] = Some S"
    and h: "fibers S 2 = Shutting By_user" "fibers S 1 = ReadWait 4096 False"
    by (simp add: sock_eval)
  have "sock_inv S" using sockets.reachable_inv [OF run_reachable [OF r]] .
  from failed_shutdown_strands_handle [OF this h(1), of "- 105" linux_uv]
  obtain T where "sock_step linux_uv S (ShutdownCb 2 (- 105)) = Some T" "closed (impl T)"
    "\<forall>g. g \<noteq> 2 \<longrightarrow> fibers T g = fibers S g"
    "\<forall>es U. run (sock_step linux_uv) T es = Some U \<longrightarrow> handle U = Open"
    by (auto simp: linux_uv_def)
  with r h(2) show ?thesis by (metis num.distinct(1) numeral_eq_one_iff)
qed
end
