(* ===== verification/ServerSocketImpl.thy ===== *)
theory ServerSocketImpl
  imports SocketImpl
begin

text \<open>
  The listening socket of \<open>src/server_socket_impl.hpp\<close> and \<open>src/server_socket_impl.cpp\<close>: the
  bound address, the count of connections that libuv has announced and \<open>accept\<close> has not taken,
  and the fibers that wait in \<open>accept\<close>. As in SocketImpl, an operation is cut where it
  suspends and its pieces interleave with those of other fibers and with libuv's callbacks.
\<close>

section \<open>The object and its address\<close>

text \<open>
  \<open>pending_connections_\<close> is a C++ \<open>int\<close>, a word of 32 bits that \<open>sint\<close> reads. The model wraps around where C++ leaves signed
  overflow undefined; results about the number of connections carry the bound that rules it out.
\<close>

record server_impl =
  pending_connections :: "32 word"
  srv_closed :: bool
  host :: string
  port :: "16 word"

text \<open>The constructor leaves \<open>port_\<close> uninitialised: its first value is an argument.\<close>

definition server_impl_new :: "16 word \<Rightarrow> server_impl" where
  "server_impl_new junk =
     \<lparr>pending_connections = 0, srv_closed = False, host = [], port = junk\<rparr>"

text \<open>
  What \<open>uv_tcp_getsockname\<close> stores: the family, the address, and the port as the two bytes in
  network order. \<open>inet_ntop\<close> is the C library's, an argument; \<open>ntohs\<close> reads the two bytes.
\<close>

datatype sockaddr =
    Inet "32 word" "8 word" "8 word"
  | Inet6 "128 word" "8 word" "8 word"
  | Other_family

definition ntohs :: "8 word \<Rightarrow> 8 word \<Rightarrow> 16 word" where
  "ntohs hi lo = word_cat hi lo"

definition htons :: "16 word \<Rightarrow> 8 word \<times> 8 word" where
  "htons p = word_split p"

record ntop_lib =
  inet_ntop4 :: "32 word \<Rightarrow> string option"
  inet_ntop6 :: "128 word \<Rightarrow> string option"

definition addr_to_string :: "string option \<Rightarrow> exn + string" where
  "addr_to_string result =
     (case result of None \<Rightarrow> Inl (Runtime_error ''inet_ntop failed'') | Some text \<Rightarrow> Inr text)"

definition update_address ::
    "uv_lib \<Rightarrow> ntop_lib \<Rightarrow> int \<Rightarrow> sockaddr \<Rightarrow> server_impl \<Rightarrow> (exn + unit) \<times> server_impl" where
  "update_address uv ntop status addr s =
     (case check_uv_status uv status of
        Inl e \<Rightarrow> (Inl e, s)
      | Inr _ \<Rightarrow>
          (case addr of
             Inet a hi lo \<Rightarrow>
               (case addr_to_string (inet_ntop4 ntop a) of
                  Inl e \<Rightarrow> (Inl e, s)
                | Inr text \<Rightarrow> (Inr (), s\<lparr>host := text, port := ntohs hi lo\<rparr>))
           | Inet6 a hi lo \<Rightarrow>
               (case addr_to_string (inet_ntop6 ntop a) of
                  Inl e \<Rightarrow> (Inl e, s)
                | Inr text \<Rightarrow> (Inr (), s\<lparr>host := text, port := ntohs hi lo\<rparr>))
           | Other_family \<Rightarrow> (Inr (), s)))"

text \<open>\<open>bind\<close>: the resolved address, \<open>uv_tcp_bind\<close>'s status and \<open>uv_tcp_getsockname\<close>'s answer are given.\<close>

definition bind ::
    "uv_lib \<Rightarrow> ntop_lib \<Rightarrow> string \<Rightarrow> 16 word \<Rightarrow> exn + 'addr \<Rightarrow> int \<Rightarrow> int \<Rightarrow> sockaddr \<Rightarrow> server_impl \<Rightarrow> (exn + unit) \<times> server_impl"
where
  "bind uv ntop h p resolved bind_status name_status name s =
     (let s1 = s\<lparr>host := h, port := p\<rparr> in
      case resolved of
        Inl e \<Rightarrow> (Inl e, s1)
      | Inr addr \<Rightarrow>
          (case check_uv_status uv bind_status of
             Inl e \<Rightarrow> (Inl e, s1)
           | Inr _ \<Rightarrow> update_address uv ntop name_status name s1))"

definition get_host :: "server_impl \<Rightarrow> string" where
  "get_host s = host s"

definition get_port :: "server_impl \<Rightarrow> 16 word" where
  "get_port s = port s"

definition listen :: "uv_lib \<Rightarrow> int \<Rightarrow> server_impl \<Rightarrow> exn + unit" where
  "listen uv status s = check_uv_status uv status"

section \<open>Connections\<close>

definition on_connection :: "int \<Rightarrow> server_impl \<Rightarrow> server_impl" where
  "on_connection status s = s\<lparr>pending_connections := pending_connections s + 1\<rparr>"

definition accept_waits :: "server_impl \<Rightarrow> bool" where
  "accept_waits s \<longleftrightarrow> pending_connections s = 0 \<and> \<not> srv_closed s"

text \<open>
  The rest of \<open>accept\<close> after the wait, with the status of \<open>uv_accept\<close>. On failure the new
  socket object is destroyed on the way out, which closes its handle.
\<close>

definition accept_take :: "uv_lib \<Rightarrow> int \<Rightarrow> server_impl \<Rightarrow> (exn + unit) \<times> server_impl" where
  "accept_take uv status s =
     (if srv_closed s then (Inl (Runtime_error ''connection closed''), s)
      else
        let s1 = s\<lparr>pending_connections := pending_connections s - 1\<rparr>
        in (check_uv_status uv status, s1))"

section \<open>Fibers that use one listening socket\<close>

datatype srv_outcome = Accepted | Srv_ok | Srv_threw exn

datatype srv_pc =
    Srv_idle
  | AcceptWait bool
  | AcceptCleanup exn
  | Srv_closing
  | Srv_finished srv_outcome

record srv_sys =
  srv :: server_impl
  srv_handle :: handle_state
  srv_fibers :: "nat \<Rightarrow> srv_pc"
  listens :: bool        \<comment> \<open>uv_listen has succeeded\<close>
  announced :: nat       \<comment> \<open>connection callbacks so far\<close>
  taken :: nat           \<comment> \<open>connections that accept has taken off the count\<close>

definition srv_init :: "16 word \<Rightarrow> srv_sys" where
  "srv_init junk = \<lparr>srv = server_impl_new junk, srv_handle = Open, srv_fibers = (\<lambda>_. Srv_idle),
     listens = False, announced = 0, taken = 0\<rparr>"

fun srv_notified :: "srv_pc \<Rightarrow> srv_pc" where
  "srv_notified (AcceptWait _) = AcceptWait True"
| "srv_notified p = p"

definition srv_notify_all :: "srv_sys \<Rightarrow> srv_sys" where
  "srv_notify_all S = S\<lparr>srv_fibers := srv_notified \<circ> srv_fibers S\<rparr>"

definition srv_set_pc :: "nat \<Rightarrow> srv_pc \<Rightarrow> srv_sys \<Rightarrow> srv_sys" where
  "srv_set_pc f p S = S\<lparr>srv_fibers := (srv_fibers S)(f := p)\<rparr>"

definition srv_can_call :: "srv_pc \<Rightarrow> bool" where
  "srv_can_call p = (case p of Srv_idle \<Rightarrow> True | Srv_finished _ \<Rightarrow> True | _ \<Rightarrow> False)"

text \<open>One turn of \<open>accept\<close>: at the call, and whenever the fiber is resumed from the wait.\<close>

definition accept_turn :: "uv_lib \<Rightarrow> nat \<Rightarrow> int \<Rightarrow> srv_sys \<Rightarrow> srv_sys" where
  "accept_turn uv f status S =
     (if accept_waits (srv S) then srv_set_pc f (AcceptWait False) S
      else
        let (r, s) = accept_take uv status (srv S);
            S1 = S\<lparr>srv := s, taken := (if srv_closed (srv S) then taken S else Suc (taken S))\<rparr>
        in case r of
             Inr _ \<Rightarrow> srv_set_pc f (Srv_finished Accepted) S1
           | Inl e \<Rightarrow>
               if srv_closed (srv S) then srv_set_pc f (Srv_finished (Srv_threw e)) S1
               else srv_set_pc f (AcceptCleanup e) S1)"

text \<open>\<open>listen\<close> does not suspend; from then on libuv reports connections.\<close>

definition srv_listen :: "uv_lib \<Rightarrow> nat \<Rightarrow> int \<Rightarrow> srv_sys \<Rightarrow> srv_sys" where
  "srv_listen uv f status S =
     (case listen uv status (srv S) of
        Inl e \<Rightarrow> srv_set_pc f (Srv_finished (Srv_threw e)) S
      | Inr _ \<Rightarrow> srv_set_pc f (Srv_finished Srv_ok) (S\<lparr>listens := True\<rparr>))"

definition connection_step :: "int \<Rightarrow> srv_sys \<Rightarrow> srv_sys" where
  "connection_step status S =
     srv_notify_all (S\<lparr>srv := on_connection status (srv S), announced := Suc (announced S)\<rparr>)"

definition srv_close_begin :: "nat \<Rightarrow> srv_sys \<Rightarrow> srv_sys" where
  "srv_close_begin f S =
     (if srv_closed (srv S) then srv_set_pc f (Srv_finished Srv_ok) S
      else srv_set_pc f Srv_closing (S\<lparr>srv := (srv S)\<lparr>srv_closed := True\<rparr>, srv_handle := Closing\<rparr>))"

definition srv_close_end :: "nat \<Rightarrow> srv_sys \<Rightarrow> srv_sys" where
  "srv_close_end f S = srv_set_pc f (Srv_finished Srv_ok) (srv_notify_all (S\<lparr>srv_handle := Closed\<rparr>))"

datatype srv_event =
    SrvListen nat int
  | Accept nat int
  | AcceptResume nat int
  | CleanupDone nat
  | ConnectionCb int
  | SrvClose nat
  | SrvCloseCb nat

fun srv_step :: "uv_lib \<Rightarrow> srv_sys \<Rightarrow> srv_event \<Rightarrow> srv_sys option" where
  "srv_step uv S (SrvListen f status) =
     (if srv_can_call (srv_fibers S f) then Some (srv_listen uv f status S) else None)"
| "srv_step uv S (Accept f status) =
     (if srv_can_call (srv_fibers S f) then Some (accept_turn uv f status S) else None)"
| "srv_step uv S (AcceptResume f status) =
     (if srv_fibers S f = AcceptWait True then Some (accept_turn uv f status S) else None)"
| "srv_step uv S (CleanupDone f) =
     (case srv_fibers S f of AcceptCleanup e \<Rightarrow> Some (srv_set_pc f (Srv_finished (Srv_threw e)) S)
      | _ \<Rightarrow> None)"
| "srv_step uv S (ConnectionCb status) =
     (if srv_handle S = Open \<and> listens S then Some (connection_step status S) else None)"
| "srv_step uv S (SrvClose f) =
     (if srv_can_call (srv_fibers S f) then Some (srv_close_begin f S) else None)"
| "srv_step uv S (SrvCloseCb f) =
     (if srv_fibers S f = Srv_closing then Some (srv_close_end f S) else None)"

section \<open>Invariant\<close>

text \<open>
  The count is what was announced and not taken; a fiber that waits in \<open>accept\<close> and was not
  notified waits for good reason; the handle state follows \<open>closed_\<close>, and while the handle is being closed a fiber is in \<open>close\<close>.
\<close>

definition backlog :: "srv_sys \<Rightarrow> nat" where
  "backlog S = announced S - taken S"

definition srv_inv :: "srv_sys \<Rightarrow> bool" where
  "srv_inv S \<longleftrightarrow>
     pending_connections (srv S) = word_of_nat (backlog S) \<and>
     taken S \<le> announced S \<and>
     (srv_closed (srv S) \<longleftrightarrow> srv_handle S \<noteq> Open) \<and>
     (\<forall>f. srv_fibers S f = AcceptWait False \<longrightarrow>
        pending_connections (srv S) = 0 \<and> srv_handle S = Open \<or> srv_handle S = Closing) \<and>
     (srv_handle S = Closing \<longleftrightarrow> (\<exists>f. srv_fibers S f = Srv_closing)) \<and>
     (\<forall>f g. srv_fibers S f = Srv_closing \<longrightarrow> srv_fibers S g = Srv_closing \<longrightarrow> f = g)"

lemma srv_notified_simps [simp]:
  "srv_notified p = AcceptWait w \<longleftrightarrow> w \<and> (\<exists>v. p = AcceptWait v)"
  "srv_notified p = Srv_closing \<longleftrightarrow> p = Srv_closing"
  by (cases p; auto)+

lemma srv_set_pc_simps [simp]:
  "srv (srv_set_pc f p S) = srv S" "srv_handle (srv_set_pc f p S) = srv_handle S"
  "srv_fibers (srv_set_pc f p S) = (srv_fibers S)(f := p)"
  "listens (srv_set_pc f p S) = listens S" "announced (srv_set_pc f p S) = announced S" "taken (srv_set_pc f p S) = taken S"
  by (simp_all add: srv_set_pc_def)

lemma backlog_frame [simp]:
  "backlog (S\<lparr>srv := s\<rparr>) = backlog S" "backlog (S\<lparr>srv_handle := h\<rparr>) = backlog S" "backlog (S\<lparr>srv_fibers := fs\<rparr>) = backlog S"
  "backlog (S\<lparr>listens := b\<rparr>) = backlog S" "backlog (srv_set_pc f p S) = backlog S"
  "backlog (S\<lparr>srv := s, taken := t\<rparr>) = backlog (S\<lparr>taken := t\<rparr>)"
  "backlog (S\<lparr>srv := s, announced := a\<rparr>) = backlog (S\<lparr>announced := a\<rparr>)"
  by (simp_all add: backlog_def)

lemma backlog_count:
  "taken S < announced S \<Longrightarrow> backlog S = Suc (backlog (S\<lparr>taken := Suc (taken S)\<rparr>))"
  "taken S \<le> announced S \<Longrightarrow> backlog (S\<lparr>announced := Suc (announced S)\<rparr>) = Suc (backlog S)"
  by (simp_all add: backlog_def)

lemma srv_inv_set_pc:
  assumes "srv_inv S" and "srv_fibers S f \<noteq> Srv_closing" and "p \<noteq> AcceptWait False" and "p \<noteq> Srv_closing"
  shows "srv_inv (srv_set_pc f p S)"
proof -
  have closing: "((srv_fibers S)(f := p)) g = Srv_closing \<longleftrightarrow> srv_fibers S g = Srv_closing" for g
    using assms(2,4) by simp
  have waiting: "((srv_fibers S)(f := p)) g = AcceptWait False \<longrightarrow> srv_fibers S g = AcceptWait False" for g
    using assms(3) by simp
  show ?thesis using assms(1) waiting unfolding srv_inv_def srv_set_pc_simps backlog_frame closing by blast
qed

lemma accept_turn_inv:
  assumes inv: "srv_inv S" and idle: "srv_fibers S f \<noteq> Srv_closing"
  shows "srv_inv (accept_turn uv f status S)"
proof (cases "accept_waits (srv S)")
  case True
  with inv have "srv_handle S = Open" by (auto simp: accept_waits_def srv_inv_def)
  with True inv show ?thesis by (auto simp: accept_turn_def accept_waits_def srv_inv_def)
next
  case False
  show ?thesis
  proof (cases "srv_closed (srv S)")
    case True
    with inv idle False show ?thesis
      by (simp add: accept_turn_def accept_take_def srv_inv_set_pc)
  next
    case open_: False
    with False inv have lt: "taken S < announced S"
      by (auto simp: accept_waits_def srv_inv_def backlog_def intro: le_neq_trans)
    have "pending_connections (srv S) \<noteq> 0" using False open_ by (simp add: accept_waits_def)
    with inv lt open_ have "srv_inv (S\<lparr>srv := (srv S)\<lparr>pending_connections := pending_connections (srv S) - 1\<rparr>,
        taken := Suc (taken S)\<rparr>)"
      using backlog_count(1) [OF lt] by (auto simp: srv_inv_def)
    with False open_ idle show ?thesis
      by (auto simp: accept_turn_def accept_take_def Let_def intro!: srv_inv_set_pc split: sum.splits)
  qed
qed

lemma srv_listen_inv:
  assumes "srv_inv S" and "srv_fibers S f \<noteq> Srv_closing"
  shows "srv_inv (srv_listen uv f status S)"
proof -
  have "srv_inv (S\<lparr>listens := True\<rparr>)"
    using assms(1) by (auto simp: srv_inv_def)
  then show ?thesis using assms by (auto simp: srv_listen_def intro!: srv_inv_set_pc split: sum.splits)
qed

lemma srv_close_begin_inv:
  assumes inv: "srv_inv S" and idle: "srv_fibers S f \<noteq> Srv_closing"
  shows "srv_inv (srv_close_begin f S)"
proof (cases "srv_closed (srv S)")
  case True
  with assms show ?thesis by (simp add: srv_close_begin_def srv_inv_set_pc)
next
  case False
  with inv have "srv_handle S = Open" by (simp add: srv_inv_def)
  with inv have "srv_fibers S g \<noteq> Srv_closing" for g by (auto simp: srv_inv_def)
  with inv False show ?thesis by (auto simp: srv_close_begin_def srv_inv_def)
qed

lemma srv_close_end_inv:
  assumes "srv_inv S" and "srv_fibers S f = Srv_closing"
  shows "srv_inv (srv_close_end f S)"
  using assms by (auto simp: srv_close_end_def srv_notify_all_def srv_inv_def)

lemma srv_inv_init: "srv_inv (srv_init junk)"
  by (simp add: srv_inv_def srv_init_def server_impl_new_def backlog_def)

lemma srv_inv_step: "srv_inv S \<Longrightarrow> srv_step uv S e = Some T \<Longrightarrow> srv_inv T"
proof (cases e)
  case (ConnectionCb st)
  then show "srv_inv S \<Longrightarrow> srv_step uv S e = Some T \<Longrightarrow> ?thesis"
    by (auto simp: srv_inv_def connection_step_def srv_notify_all_def on_connection_def backlog_count(2) split: if_splits)
next
  case (SrvClose f)
  then show "srv_inv S \<Longrightarrow> srv_step uv S e = Some T \<Longrightarrow> ?thesis"
    by (auto intro!: srv_close_begin_inv simp: srv_can_call_def split: if_splits)
next
  case (SrvCloseCb f)
  then show "srv_inv S \<Longrightarrow> srv_step uv S e = Some T \<Longrightarrow> ?thesis"
    by (auto intro: srv_close_end_inv split: if_splits)
qed (auto intro!: srv_listen_inv accept_turn_inv srv_inv_set_pc simp: srv_can_call_def split: if_splits srv_pc.splits)

interpretation servers: inductive_invariant "srv_step uv" "srv_init junk" srv_inv for uv junk
  by unfold_locales (auto intro: srv_inv_init srv_inv_step)

section \<open>Properties\<close>

lemma sint_small: "n < 2 ^ 31 \<Longrightarrow> sint (word_of_nat n :: 32 word) = int n"
  by (simp add: signed_of_nat signed_take_bit_int_eq_self)

text \<open>
  C13. No connection is lost or taken twice: in every reachable state in which fewer than \<open>2\<^sup>3\<^sup>1\<close> announced connections have not been
  taken, the \<open>int\<close> \<open>pending_connections_\<close> is the number of connections libuv announced minus the number \<open>accept\<close> took, so
  never negative; and while the socket listens and a connection is pending, no fiber sleeps in \<open>accept\<close> without
  having been notified.
\<close>

theorem pending_connections_exact:
  assumes "reachable (srv_step uv) (srv_init junk) S" and "backlog S < 2 ^ 31"
  shows "sint (pending_connections (srv S)) = int (announced S) - int (taken S) \<and>
    0 \<le> sint (pending_connections (srv S)) \<and>
    (srv_handle S = Open \<and> 0 < sint (pending_connections (srv S)) \<longrightarrow>
       (\<forall>f. srv_fibers S f \<noteq> AcceptWait False))"
proof -
  have inv: "srv_inv S" using assms(1) by (rule servers.reachable_inv)
  then have "sint (pending_connections (srv S)) = int (backlog S)"
    using sint_small [OF assms(2)] by (simp add: srv_inv_def)
  with inv show ?thesis by (auto simp: srv_inv_def backlog_def)
qed

lemmas srv_eval = srv_init_def server_impl_new_def srv_can_call_def accept_turn_def accept_waits_def
  accept_take_def srv_listen_def listen_def connection_step_def on_connection_def srv_notify_all_def srv_set_pc_def
  srv_close_begin_def srv_close_end_def

theorem pending_connections_exact_witness:
  "\<exists>S. run (srv_step linux_uv) (srv_init 0)
         [SrvListen 1 0, Accept 1 0, Accept 2 0, ConnectionCb 0, AcceptResume 2 0, ConnectionCb 0] = Some S \<and>
    sint (pending_connections (srv S)) = 1 \<and> announced S = 2 \<and> taken S = 1 \<and> srv_fibers S 1 \<noteq> AcceptWait False"
proof -
  obtain S where r: "run (srv_step linux_uv) (srv_init 0)
         [SrvListen 1 0, Accept 1 0, Accept 2 0, ConnectionCb 0, AcceptResume 2 0, ConnectionCb 0] = Some S"
    and h: "srv_handle S = Open" "announced S = 2" "taken S = 1"
    by (simp add: srv_eval)
  have "backlog S < 2 ^ 31" using h by (simp add: backlog_def)
  from pending_connections_exact [OF run_reachable [OF r] this] r h show ?thesis by auto
qed

text \<open>
  \<open>accept\<close> hands out exactly one connection per call: on a listening socket with a pending
  connection the call, or the resumed wait, takes one off the count and ends with the accepted
  socket when \<open>uv_accept\<close> succeeds; with none pending it goes (back) to waiting and changes nothing.
\<close>

theorem accept_takes_one:
  assumes "srv_can_call (srv_fibers S f) \<and> e = Accept f st \<or> srv_fibers S f = AcceptWait True \<and> e = AcceptResume f st"
    and "\<not> srv_closed (srv S)"
  shows "(pending_connections (srv S) \<noteq> 0 \<and> 0 \<le> st \<longrightarrow>
      (\<exists>T. srv_step uv S e = Some T \<and> srv_fibers T f = Srv_finished Accepted \<and>
        pending_connections (srv T) = pending_connections (srv S) - 1 \<and> taken T = Suc (taken S))) \<and>
    (pending_connections (srv S) = 0 \<longrightarrow>
      srv_step uv S e = Some (S\<lparr>srv_fibers := (srv_fibers S)(f := AcceptWait False)\<rparr>))"
  using assms by (auto simp: accept_turn_def accept_waits_def accept_take_def srv_set_pc_def Let_def)

theorem accept_takes_one_witness:
  "\<exists>S. run (srv_step linux_uv) (srv_init 0) [SrvListen 1 0, ConnectionCb 0] = Some S \<and>
    (\<exists>T. srv_step linux_uv S (Accept 1 0) = Some T \<and> srv_fibers T 1 = Srv_finished Accepted)"
proof -
  obtain S where r: "run (srv_step linux_uv) (srv_init 0) [SrvListen 1 0, ConnectionCb 0] = Some S"
    and h: "srv_can_call (srv_fibers S 1)" "\<not> srv_closed (srv S)" "pending_connections (srv S) \<noteq> 0"
    by (simp add: srv_eval)
  from accept_takes_one [where S = S and f = 1 and st = 0 and e = "Accept 1 0" and uv = linux_uv] r h
  show ?thesis by blast
qed

text \<open>
  C35. Closing the listening socket ends every \<open>accept\<close>: once the handle is closed every fiber that
  still waits has been notified, and each resumed or new \<open>accept\<close> throws
  \<open>runtime_error("connection closed")\<close>, even with connections pending, and takes none.
\<close>

theorem close_ends_accept:
  assumes "reachable (srv_step uv) (srv_init junk) S" and "srv_handle S = Closed"
  shows "(\<forall>w. srv_fibers S f = AcceptWait w \<longrightarrow>
      srv_step uv S (AcceptResume f st) = Some (S\<lparr>srv_fibers := (srv_fibers S)
        (f := Srv_finished (Srv_threw (Runtime_error ''connection closed'')))\<rparr>)) \<and>
    (srv_can_call (srv_fibers S f) \<longrightarrow>
      srv_step uv S (Accept f st) = Some (S\<lparr>srv_fibers := (srv_fibers S)
        (f := Srv_finished (Srv_threw (Runtime_error ''connection closed'')))\<rparr>))"
proof -
  have inv: "srv_inv S" using assms(1) by (rule servers.reachable_inv)
  with assms(2) have c: "srv_closed (srv S)" by (simp add: srv_inv_def)
  have "w" if "srv_fibers S f = AcceptWait w" for w
    using inv assms(2) that by (cases w) (auto simp: srv_inv_def)
  then have "\<forall>w. srv_fibers S f = AcceptWait w \<longrightarrow> srv_fibers S f = AcceptWait True" by auto
  with c show ?thesis
    by (auto simp: accept_turn_def accept_waits_def accept_take_def srv_set_pc_def)
qed

theorem close_ends_accept_witness:
  "\<exists>S. run (srv_step linux_uv) (srv_init 0) [Accept 1 0, SrvClose 2, SrvCloseCb 2] = Some S \<and>
    srv_step linux_uv S (AcceptResume 1 0) = Some (S\<lparr>srv_fibers := (srv_fibers S)
        (1 := Srv_finished (Srv_threw (Runtime_error ''connection closed'')))\<rparr>)"
proof -
  obtain S where r: "run (srv_step linux_uv) (srv_init 0) [Accept 1 0, SrvClose 2, SrvCloseCb 2] = Some S"
    and h: "srv_handle S = Closed" "srv_fibers S 1 = AcceptWait True"
    by (simp add: srv_eval)
  have "srv_step linux_uv S (AcceptResume 1 0) = Some (S\<lparr>srv_fibers := (srv_fibers S)
        (1 := Srv_finished (Srv_threw (Runtime_error ''connection closed'')))\<rparr>)"
    using close_ends_accept [OF run_reachable [OF r] h(1), of 1 0] h(2) by blast
  with r show ?thesis by blast
qed

text \<open>
  A failed connection attempt is counted like a connection: \<open>on_connection\<close> ignores its status,
  so a callback with an error wakes a waiting \<open>accept\<close>, whose \<open>uv_accept\<close> then fails, and
  \<open>accept\<close> ends with libuv's internal error although no connection was there.
\<close>

theorem failed_connection_is_counted:
  assumes "srv_handle S = Open" and "listens S" and "\<not> srv_closed (srv S)" and "pending_connections (srv S) = 0"
    and "srv_fibers S f = AcceptWait False"
    and "st < 0" and "st \<notin> {UV_ENOTCONN uv, UV_EBADF uv, UV_EAI_ADDRFAMILY uv}"
  shows "\<exists>T. run (srv_step uv) S [ConnectionCb err, AcceptResume f st, CleanupDone f] = Some T \<and>
    srv_fibers T f = Srv_finished (Srv_threw (Uv_error st)) \<and>
    announced T = Suc (announced S) \<and> taken T = Suc (taken S)"
  using assms by (simp add: srv_eval check_uv_status_def)

theorem failed_connection_is_counted_witness:
  "\<exists>S. run (srv_step linux_uv) (srv_init 0) [SrvListen 1 0, Accept 1 0] = Some S \<and>
    (\<exists>T. run (srv_step linux_uv) S [ConnectionCb (- 24), AcceptResume 1 (- 11), CleanupDone 1] = Some T \<and>
      srv_fibers T 1 = Srv_finished (Srv_threw (Uv_error (- 11))))"
proof -
  obtain S where r: "run (srv_step linux_uv) (srv_init 0) [SrvListen 1 0, Accept 1 0] = Some S"
    and h: "srv_handle S = Open" "listens S" "\<not> srv_closed (srv S)" "pending_connections (srv S) = 0"
      "srv_fibers S 1 = AcceptWait False"
    by (simp add: srv_eval)
  have "\<exists>T. run (srv_step linux_uv) S [ConnectionCb (- 24), AcceptResume 1 (- 11), CleanupDone 1] = Some T \<and>
      srv_fibers T 1 = Srv_finished (Srv_threw (Uv_error (- 11))) \<and>
      announced T = Suc (announced S) \<and> taken T = Suc (taken S)"
    by (rule failed_connection_is_counted [OF h]) (simp_all add: linux_uv_def)
  with r show ?thesis by blast
qed

lemma bind_inet:
  "bind uv ntop h req resolved st st' (Inet a4 hi lo) s = (Inr u, s') \<Longrightarrow>
    get_port s' = ntohs hi lo \<and> inet_ntop4 ntop a4 = Some (get_host s')"
  "bind uv ntop h req resolved st st' (Inet6 a6 hi lo) s = (Inr u, s') \<Longrightarrow>
    get_port s' = ntohs hi lo \<and> inet_ntop6 ntop a6 = Some (get_host s')"
  by (auto simp: bind_def update_address_def addr_to_string_def get_host_def get_port_def Let_def split: sum.splits option.splits)

lemma bind_fails: "bind uv ntop h req resolved st st' name s = (Inl e, s') \<Longrightarrow> get_host s' = h \<and> get_port s' = req"
  by (auto simp: bind_def update_address_def addr_to_string_def get_host_def get_port_def Let_def
      split: sum.splits option.splits sockaddr.splits)

text \<open>
  C36. After a successful \<open>bind\<close> the socket reports the address it is really bound to: whatever host and port were requested, if
  \<open>bind\<close> returns and the socket's name is an IPv4 or IPv6 address, \<open>get_port\<close> is the port of \<open>uv_tcp_getsockname\<close>, converted
  from the two bytes in network order, and \<open>get_host\<close> is what \<open>inet_ntop\<close> printed of its address. If \<open>bind\<close> throws, whichever of
  its calls failed, \<open>get_host\<close> and \<open>get_port\<close> are what was requested.
\<close>

theorem bind_reports_address:
  assumes "bind uv ntop h req resolved st st' name s = (r, s')"
  shows "(\<forall>u a p. r = Inr u \<and> name = Inet a (fst (htons p)) (snd (htons p)) \<longrightarrow>
      get_port s' = p \<and> inet_ntop4 ntop a = Some (get_host s')) \<and>
    (\<forall>u a p. r = Inr u \<and> name = Inet6 a (fst (htons p)) (snd (htons p)) \<longrightarrow>
      get_port s' = p \<and> inet_ntop6 ntop a = Some (get_host s')) \<and>
    (\<forall>e. r = Inl e \<longrightarrow> get_host s' = h \<and> get_port s' = req)"
proof -
  have n: "ntohs (fst (htons p)) (snd (htons p)) = p" for p
  proof -
    obtain hi lo where hl: "htons p = (hi, lo)" by (cases "htons p")
    then show ?thesis using word_cat_split_alt [of p hi lo] by (simp add: ntohs_def htons_def size_word_def)
  qed
  show ?thesis
  proof (intro conjI allI impI)
    show "get_port s' = p" "inet_ntop4 ntop a = Some (get_host s')"
      if "r = Inr u \<and> name = Inet a (fst (htons p)) (snd (htons p))" for u a p
      using bind_inet(1) [of uv ntop h req resolved st st' a "fst (htons p)" "snd (htons p)" s u s'] that assms n by simp_all
    show "get_port s' = p" "inet_ntop6 ntop a = Some (get_host s')"
      if "r = Inr u \<and> name = Inet6 a (fst (htons p)) (snd (htons p))" for u a p
      using bind_inet(2) [of uv ntop h req resolved st st' a "fst (htons p)" "snd (htons p)" s u s'] that assms n by simp_all
    show "get_host s' = h" "get_port s' = req" if "r = Inl e" for e
      using bind_fails that assms by blast+
  qed
qed

theorem bind_reports_address_witness:
  "\<exists>s'. bind linux_uv \<lparr>inet_ntop4 = (\<lambda>_. Some ''127.0.0.1''), inet_ntop6 = (\<lambda>_. None)\<rparr> ''localhost'' 0
     (Inr ()) 0 0 (Inet 16777343 21 155) (server_impl_new 0) = (Inr (), s') \<and> get_host s' = ''127.0.0.1'' \<and> get_port s' = 5531"
proof -
  let ?ntop = "\<lparr>inet_ntop4 = (\<lambda>_. Some ''127.0.0.1''), inet_ntop6 = (\<lambda>_. None)\<rparr>"
  have h: "htons 5531 = (21, 155)" by (simp add: htons_def word_split_def)
  have "\<exists>s'. bind linux_uv ?ntop ''localhost'' 0 (Inr ()) 0 0 (Inet 16777343 21 155) (server_impl_new 0) = (Inr (), s')"
    by (simp add: bind_def update_address_def addr_to_string_def check_uv_status_def)
  then obtain s' where s': "bind linux_uv ?ntop ''localhost'' 0 (Inr ()) 0 0 (Inet 16777343 21 155) (server_impl_new 0) = (Inr (), s')"
    by blast
  from bind_reports_address [OF s'] have "get_port s' = 5531 \<and> inet_ntop4 ?ntop 16777343 = Some (get_host s')"
    using h by (metis fst_conv snd_conv)
  with s' show ?thesis by auto
qed

section \<open>A counting semaphore\<close>

text \<open>
  What the listening socket promises its fibers is a semaphore that can be shut: a connection puts in a token, \<open>accept\<close> takes
  one, \<open>close\<close> shuts it, and nothing else happens to it.
\<close>

datatype sem_event = V | P | Shut

record semaphore =
  tokens :: nat
  sem_open :: bool

fun sem_step :: "semaphore \<Rightarrow> sem_event \<Rightarrow> semaphore option" where
  "sem_step s V = (if sem_open s then Some (s\<lparr>tokens := tokens s + 1\<rparr>) else None)"
| "sem_step s P = (if sem_open s \<and> tokens s > 0 then Some (s\<lparr>tokens := tokens s - 1\<rparr>) else None)"
| "sem_step s Shut = (if sem_open s then Some (s\<lparr>sem_open := False\<rparr>) else None)"

definition srv_abs :: "srv_sys \<Rightarrow> semaphore" where
  "srv_abs S = \<lparr>tokens = unat (pending_connections (srv S)), sem_open = (\<not> srv_closed (srv S))\<rparr>"

definition sem_init :: semaphore where
  "sem_init = \<lparr>tokens = 0, sem_open = True\<rparr>"

fun srv_label :: "srv_sys \<Rightarrow> srv_event \<Rightarrow> sem_event option" where
  "srv_label S (ConnectionCb status) = Some V"
| "srv_label S (Accept f status) =
     (if \<not> srv_closed (srv S) \<and> pending_connections (srv S) \<noteq> 0 then Some P else None)"
| "srv_label S (AcceptResume f status) =
     (if \<not> srv_closed (srv S) \<and> pending_connections (srv S) \<noteq> 0 then Some P else None)"
| "srv_label S (SrvClose f) = (if srv_closed (srv S) then None else Some Shut)"
| "srv_label S e = None"

text \<open>The runs in which \<open>pending_connections_\<close> does not overflow.\<close>

definition bounded_step :: "uv_lib \<Rightarrow> srv_sys \<Rightarrow> srv_event \<Rightarrow> srv_sys option" where
  "bounded_step uv S e =
     (case srv_step uv S e of None \<Rightarrow> None | Some T \<Rightarrow> if backlog T < 2 ^ 31 then Some T else None)"

lemma bounded_step_Some: "bounded_step uv S e = Some T \<longleftrightarrow> srv_step uv S e = Some T \<and> backlog T < 2 ^ 31"
  by (auto simp: bounded_step_def split: option.splits)

lemma bounded_run:
  assumes "run (srv_step uv) S es = Some T" and "\<And>n U. run (srv_step uv) S (take n es) = Some U \<Longrightarrow> backlog U < 2 ^ 31"
  shows "run (bounded_step uv) S es = Some T \<and> trace (bounded_step uv) srv_label S es = trace (srv_step uv) srv_label S es"
  using assms
proof (induction es arbitrary: S)
  case (Cons e es)
  then obtain U where U: "srv_step uv S e = Some U" "run (srv_step uv) U es = Some T" by (auto split: option.splits)
  have "backlog U < 2 ^ 31" using Cons.prems(2) [of 1 U] U(1) by simp
  then have b: "bounded_step uv S e = Some U" using U(1) by (simp add: bounded_step_Some)
  have "backlog W < 2 ^ 31" if "run (srv_step uv) U (take n es) = Some W" for n W
    using Cons.prems(2) [of "Suc n" W] U(1) that by simp
  from Cons.IH [OF U(2) this] b U show ?case by (simp split: option.splits)
qed simp

lemma unat_backlog: "srv_inv S \<Longrightarrow> backlog S < 2 ^ 31 \<Longrightarrow> unat (pending_connections (srv S)) = backlog S"
  by (simp add: srv_inv_def unsigned_of_nat take_bit_nat_eq_self)

lemma accept_turn_abs:
  assumes "srv_inv S"
  shows "if \<not> srv_closed (srv S) \<and> pending_connections (srv S) \<noteq> 0
    then sem_step (srv_abs S) P = Some (srv_abs (accept_turn uv f status S))
    else srv_abs (accept_turn uv f status S) = srv_abs S"
proof (cases "\<not> srv_closed (srv S) \<and> pending_connections (srv S) \<noteq> 0")
  case True
  then have "unat (pending_connections (srv S) - 1) = unat (pending_connections (srv S)) - 1" "unat (pending_connections (srv S)) > 0"
    by (simp_all add: unat_minus_one unat_gt_0)
  with True show ?thesis
    by (simp add: srv_abs_def accept_turn_def accept_waits_def accept_take_def Let_def split: sum.splits)
next
  case False
  then show ?thesis
    by (auto simp: srv_abs_def accept_turn_def accept_waits_def accept_take_def Let_def split: sum.splits)
qed

lemma connection_abs:
  assumes "srv_inv S" and "srv_inv (connection_step status S)" and "backlog S < 2 ^ 31" and "backlog (connection_step status S) < 2 ^ 31"
  shows "srv_abs (connection_step status S) = (srv_abs S)\<lparr>tokens := tokens (srv_abs S) + 1\<rparr>"
proof -
  have "backlog (connection_step status S) = Suc (backlog S)"
    using assms(1) by (simp add: connection_step_def srv_notify_all_def srv_inv_def backlog_count(2))
  then have "unat (pending_connections (srv (connection_step status S))) = Suc (unat (pending_connections (srv S)))"
    using unat_backlog assms by simp
  then show ?thesis by (simp add: srv_abs_def) (simp add: connection_step_def srv_notify_all_def on_connection_def)
qed

interpretation bounded_server: simulation "bounded_step uv" "srv_init junk" "\<lambda>S. srv_inv S \<and> backlog S < 2 ^ 31"
  sem_step sem_init srv_abs srv_label for uv junk
proof
  show "srv_inv (srv_init junk) \<and> backlog (srv_init junk) < 2 ^ 31" using srv_inv_init by (simp add: backlog_def srv_init_def)
  show "srv_inv t \<and> backlog t < 2 ^ 31" if "srv_inv s \<and> backlog s < 2 ^ 31" "bounded_step uv s e = Some t" for s e t
    using that srv_inv_step by (auto simp: bounded_step_Some)
  show "srv_abs (srv_init junk) = sem_init"
    by (simp add: srv_abs_def srv_init_def server_impl_new_def sem_init_def)
next
  fix s e t
  assume "srv_inv s \<and> backlog s < 2 ^ 31" "bounded_step uv s e = Some t" "srv_label s e = None"
  then have "srv_inv s" "srv_step uv s e = Some t" "srv_label s e = None" by (simp_all add: bounded_step_Some)
  then show "srv_abs t = srv_abs s"
    using accept_turn_abs [of s uv]
    by (cases e) (auto simp: srv_listen_def srv_close_begin_def srv_close_end_def srv_notify_all_def split: if_splits srv_pc.splits sum.splits,
      auto simp: srv_abs_def)
next
  fix s e t a
  assume inv: "srv_inv s \<and> backlog s < 2 ^ 31" and "bounded_step uv s e = Some t" and l: "srv_label s e = Some a"
  then have st: "srv_step uv s e = Some t" "backlog t < 2 ^ 31" by (simp_all add: bounded_step_Some)
  show "sem_step (srv_abs s) a = Some (srv_abs t)"
  proof (cases e)
    case (ConnectionCb status)
    then have t: "t = connection_step status s" "srv_handle s = Open" using st(1) by (auto split: if_splits)
    moreover have "srv_inv t" using inv st(1) srv_inv_step by blast
    ultimately have "srv_abs t = (srv_abs s)\<lparr>tokens := tokens (srv_abs s) + 1\<rparr>" using connection_abs inv st(2) by blast
    moreover have "sem_open (srv_abs s)" using inv t(2) by (simp add: srv_abs_def srv_inv_def)
    ultimately show ?thesis using l ConnectionCb by auto
  next
    case (SrvClose f)
    then show ?thesis using st(1) l by (auto simp: srv_close_begin_def srv_abs_def split: if_splits)
  qed (use inv st(1) l accept_turn_abs [of s uv] in \<open>auto simp del: sem_step.simps split: if_splits\<close>)
qed

text \<open>
  C9. The listening socket refines a counting semaphore: seen through \<open>pending_connections_\<close> and \<open>closed_\<close>, every run of
  \<open>listen\<close> and \<open>accept\<close> calls, resumptions, connection callbacks and \<open>close\<close> calls by any number of fibers, in which never \<open>2\<^sup>3\<^sup>1\<close> or more
  announced connections are left to take (\<open>pending_connections_\<close> is an \<open>int\<close> of 32 bits), is a run of the semaphore in which
  each connection callback is one \<open>V\<close>, each \<open>accept\<close> that takes a connection is one \<open>P\<close> (which the semaphore allows only
  while it is open and has a token), the effective \<open>close\<close> is the one \<open>Shut\<close>, and every other step is invisible.
\<close>

theorem server_refines_semaphore:
  assumes "run (srv_step uv) (srv_init junk) es = Some S"
    and "\<forall>n T. run (srv_step uv) (srv_init junk) (take n es) = Some T \<longrightarrow> backlog T < 2 ^ 31"
  shows "run sem_step sem_init (trace (srv_step uv) srv_label (srv_init junk) es) = Some (srv_abs S)"
proof -
  have "run (bounded_step uv) (srv_init junk) es = Some S \<and>
      trace (bounded_step uv) srv_label (srv_init junk) es = trace (srv_step uv) srv_label (srv_init junk) es"
    using bounded_run [OF assms(1)] assms(2) by blast
  with bounded_server.runs_refine [of uv junk es S] show ?thesis by simp
qed

text \<open>A run has at most as many pending connections as events.\<close>

lemma backlog_step: "srv_step uv S e = Some T \<Longrightarrow> backlog T \<le> Suc (backlog S)"
  by (cases e) (auto simp: backlog_def srv_listen_def accept_turn_def connection_step_def srv_notify_all_def srv_close_begin_def
      srv_close_end_def Let_def split: if_splits sum.splits srv_pc.splits prod.splits)

lemma backlog_run: "run (srv_step uv) S es = Some T \<Longrightarrow> backlog T \<le> length es + backlog S"
proof (induction es arbitrary: S)
  case (Cons e es)
  then obtain U where U: "srv_step uv S e = Some U" "run (srv_step uv) U es = Some T" by (auto split: option.splits)
  show ?case using Cons.IH [OF U(2)] backlog_step [OF U(1)] by simp
qed simp

theorem server_refines_semaphore_witness:
  "\<exists>S. run (srv_step linux_uv) (srv_init 0)
       [SrvListen 1 0, Accept 1 0, ConnectionCb 0, AcceptResume 1 0, ConnectionCb 0, SrvClose 2] = Some S \<and>
     run sem_step sem_init [V, P, V, Shut] = Some (srv_abs S)"
proof -
  let ?es = "[SrvListen 1 0, Accept 1 0, ConnectionCb 0, AcceptResume 1 0, ConnectionCb 0, SrvClose 2]"
  have "\<exists>S. run (srv_step linux_uv) (srv_init 0) ?es = Some S"
    and t: "trace (srv_step linux_uv) srv_label (srv_init 0) ?es = [V, P, V, Shut]"
    by (simp_all add: srv_eval check_uv_status_def)
  then obtain S where S: "run (srv_step linux_uv) (srv_init 0) ?es = Some S" by blast
  have "\<forall>n T. run (srv_step linux_uv) (srv_init 0) (take n ?es) = Some T \<longrightarrow> backlog T < 2 ^ 31"
  proof (intro allI impI)
    fix n T
    assume "run (srv_step linux_uv) (srv_init 0) (take n ?es) = Some T"
    from backlog_run [OF this] have "backlog T \<le> length (take n ?es) + 0" by (simp add: backlog_def srv_init_def)
    also have "\<dots> \<le> 6" by simp
    finally show "backlog T < 2 ^ 31" by simp
  qed
  from server_refines_semaphore [OF S this] have "run sem_step sem_init [V, P, V, Shut] = Some (srv_abs S)" unfolding t .
  with S show ?thesis by blast
qed

end
