(* ===== verification/Blocking.thy ===== *)
theory Blocking
  imports ServerSocketImpl
begin

text \<open>
  What a thread's scheduler sees of a socket: an object that fibers block on. A fiber is outside every operation of the object, waits
  on its condition variable (notified or not), or waits for the promise of a request that libuv will complete. The locale
  \<open>blocking_object\<close> states the laws of such an object; the sockets of \<open>SocketImpl\<close> and the listening sockets of \<open>ServerSocketImpl\<close>
  both satisfy them, and so does the type \<open>io_object\<close> of either, which \<open>Runtime\<close> uses.
\<close>

section \<open>The interface\<close>

text \<open>
  An event has an actor, the fiber that calls or goes on, or is a callback that belongs to no fiber. \<open>completes e S f\<close>: the event is
  the completion of the request that fiber \<open>f\<close> waits for; the callback sets a promise and the fiber goes on when it is picked.
  \<open>resumption\<close> is the event of a notified fiber that is picked. The last two laws say that nobody waits in vain: a fiber inside an
  operation waits for a completion or on the condition variable, and a fiber on the condition variable of an object that is \<open>live\<close> is
  notified by an event that can come, a callback or the completion of another fiber's request.
\<close>

locale blocking_object =
  fixes step :: "'s \<Rightarrow> 'e \<Rightarrow> 's option" and actor :: "'e \<Rightarrow> nat option" and free :: "'s \<Rightarrow> nat \<Rightarrow> bool"
    and waits :: "bool \<Rightarrow> 's \<Rightarrow> nat \<Rightarrow> bool" and completes :: "'e \<Rightarrow> 's \<Rightarrow> nat \<Rightarrow> bool"
    and resumption :: "'s \<Rightarrow> nat \<Rightarrow> int \<Rightarrow> 'e" and inv :: "'s \<Rightarrow> bool" and live :: "'s \<Rightarrow> bool"
  assumes waits_busy: "waits w S f \<Longrightarrow> \<not> free S f"
    and waits_one: "waits False S f \<Longrightarrow> \<not> waits True S f"
    and completes_busy: "completes e S f \<Longrightarrow> \<not> free S f"
    and completes_no_wait: "completes e S f \<Longrightarrow> \<not> waits w S f"
    and step_others: "step S e = Some T \<Longrightarrow> actor e \<noteq> Some g \<Longrightarrow> \<not> (waits False S g \<and> waits True T g) \<Longrightarrow>
      free T g = free S g \<and> waits w T g = waits w S g \<and> completes d T g = completes d S g"
    and step_actor: "step S e = Some T \<Longrightarrow> actor e = Some f \<Longrightarrow> \<not> waits True T f"
    and completes_enabled: "completes e S f \<Longrightarrow> actor e = Some f \<Longrightarrow> \<exists>T. step S e = Some T"
    and resumption_enabled: "waits True S f \<Longrightarrow> \<exists>T. step S (resumption S f st) = Some T"
    and resumption_actor: "actor (resumption S f st) = Some f"
    and step_inv: "inv S \<Longrightarrow> step S e = Some T \<Longrightarrow> inv T"
    and request_owed: "inv S \<Longrightarrow> \<not> free S f \<Longrightarrow> \<not> waits True S f \<Longrightarrow>
      waits False S f \<or> (\<exists>e. actor e = Some f \<and> completes e S f)"
    and notification_owed: "inv S \<Longrightarrow> live S \<Longrightarrow> waits False S f \<Longrightarrow>
      \<exists>e T. step S e = Some T \<and> waits True T f \<and> (\<forall>g. actor e = Some g \<longrightarrow> completes e S g)"
begin

text \<open>So from a state with a fiber that can go on neither now nor by itself, some event of libuv brings it on.\<close>

lemma can_be_woken:
  assumes "inv S" and "\<not> free S f" and "\<not> waits True S f" and "live S"
  shows "\<exists>e. (actor e = Some f \<and> completes e S f) \<or>
    waits False S f \<and> (\<exists>T. step S e = Some T \<and> waits True T f \<and> (\<forall>g. actor e = Some g \<longrightarrow> completes e S g))"
  using request_owed [OF assms(1-3)] notification_owed [OF assms(1,4), of f] by blast

text \<open>A fiber on the condition variable that gets past an event unnoticed is where it was.\<close>

lemma not_woken:
  assumes "step S e = Some T" and "actor e \<noteq> Some g" and "\<not> (waits False S g \<and> waits True T g)"
  shows "free T g = free S g" and "waits w T g = waits w S g" and "completes d T g = completes d S g"
  using step_others [OF assms] by blast+

end

section \<open>Sockets\<close>

fun sock_actor :: "sock_event \<Rightarrow> nat option" where
  "sock_actor (Connect f _) = Some f"
| "sock_actor (AddrinfoCb f _ _) = Some f"
| "sock_actor (ConnectCb f _) = Some f"
| "sock_actor (Read f _ _ _) = Some f"
| "sock_actor (ReadCb _) = None"
| "sock_actor (ReadResume f _) = Some f"
| "sock_actor (Write f _) = Some f"
| "sock_actor (WriteCb f _) = Some f"
| "sock_actor (Close f _) = Some f"
| "sock_actor (ShutdownCb f _) = Some f"
| "sock_actor (CloseCb f) = Some f"

fun sock_is_call :: "sock_event \<Rightarrow> bool" where
  "sock_is_call (Connect _ _) = True"
| "sock_is_call (Read _ _ _ _) = True"
| "sock_is_call (Write _ _) = True"
| "sock_is_call (Close _ _) = True"
| "sock_is_call _ = False"

fun sock_completes :: "sock_event \<Rightarrow> sock_pc \<Rightarrow> bool" where
  "sock_completes (AddrinfoCb _ _ _) Resolving = True"
| "sock_completes (ConnectCb _ _) Connecting = True"
| "sock_completes (WriteCb _ _) Writing = True"
| "sock_completes (ShutdownCb _ _) (Shutting _) = True"
| "sock_completes (CloseCb _) (ClosingHandle _) = True"
| "sock_completes _ _ = False"

fun is_wait :: "bool \<Rightarrow> sock_pc \<Rightarrow> bool" where
  "is_wait w (ReadWait _ v) \<longleftrightarrow> v = w"
| "is_wait w _ \<longleftrightarrow> False"

lemma notified_facts [simp]:
  "can_call (notified p) = can_call p" "is_wait False p \<Longrightarrow> is_wait True (notified p)"
  "sock_completes e (notified p) = sock_completes e p" "\<not> is_wait False (notified p)"
  by (cases p; cases e; auto simp: can_call_def)+

lemma notified_id: "\<not> is_wait False p \<Longrightarrow> notified p = p"
  by (cases p) auto

lemma wait_not_call:
  "is_wait w p \<Longrightarrow> \<not> can_call p" "sock_completes e p \<Longrightarrow> \<not> can_call p" "sock_completes e p \<Longrightarrow> \<not> is_wait w p"
  "is_wait False p \<Longrightarrow> \<not> is_wait True p"
  by (cases p; cases e; auto simp: can_call_def)+

lemmas sock_ops = close_returns_def close_throws_def close_handle_begin_def shutdown_result_def close_begin_def close_end_def
  read_resume_def read_call_def read_callback_step_def write_call_def promise_result_def connect_call_def connect_resolved_def
  connect_done_def notify_all_def set_pc_def

text \<open>Only the acting fiber moves; \<open>notify_all\<close> marks the others that wait in \<open>read\<close>.\<close>

lemma sock_step_others:
  assumes "sock_step uv S e = Some T" and "sock_actor e \<noteq> Some g"
  shows "fibers T g = fibers S g \<or> fibers T g = notified (fibers S g)"
  using assms
  by (cases e) (auto simp: sock_ops Let_def split: if_splits sum.splits prod.splits close_caller.splits exn.splits
      sock_pc.splits bool.splits read_next.splits)

lemma sock_step_actor:
  assumes "sock_step uv S e = Some T" and "sock_actor e = Some f"
  shows "\<not> is_wait True (fibers T f)"
  using assms
  by (cases e) (auto simp: sock_ops Let_def split: if_splits sum.splits prod.splits close_caller.splits exn.splits
      sock_pc.splits bool.splits read_next.splits)

lemma sock_step_stays:
  assumes "sock_step uv S e = Some T" and "sock_actor e \<noteq> Some g"
    and "\<not> (is_wait False (fibers S g) \<and> is_wait True (fibers T g))"
  shows "fibers T g = fibers S g"
  using sock_step_others [OF assms(1,2)] assms(3) notified_id [of "fibers S g"]
  by (cases "is_wait False (fibers S g)") auto

lemma sock_completes_enabled:
  "sock_completes e (fibers S f) \<Longrightarrow> sock_actor e = Some f \<Longrightarrow> \<exists>T. sock_step uv S e = Some T"
  by (cases e; cases "fibers S f") auto

lemma sock_wait_enabled: "is_wait True (fibers S f) \<Longrightarrow> \<exists>T. sock_step uv S (ReadResume f st) = Some T"
  by (cases "fibers S f") (auto split: bool.splits)

text \<open>A fiber inside an operation waits for a request, or in \<open>read\<close>; a reader is notified by the read callback, or by the fiber that closes.\<close>

lemma sock_completions [simp]:
  "\<exists>e. sock_actor e = Some f \<and> sock_completes e Resolving" "\<exists>e. sock_actor e = Some f \<and> sock_completes e Connecting"
  "\<exists>e. sock_actor e = Some f \<and> sock_completes e Writing" "\<exists>e. sock_actor e = Some f \<and> sock_completes e (Shutting c)"
  "\<exists>e. sock_actor e = Some f \<and> sock_completes e (ClosingHandle c)"
  by (rule exI [of _ "AddrinfoCb f 0 0"] exI [of _ "ConnectCb f 0"] exI [of _ "WriteCb f 0"] exI [of _ "ShutdownCb f 0"]
      exI [of _ "CloseCb f"], simp; fail)+

lemma sock_request_owed:
  assumes "\<not> can_call (fibers S f)" and "\<not> is_wait True (fibers S f)"
  shows "is_wait False (fibers S f) \<or> (\<exists>e. sock_actor e = Some f \<and> sock_completes e (fibers S f))"
  using assms by (cases "fibers S f") (simp_all add: can_call_def)

lemma sock_notification_owed:
  assumes "sock_inv S" and "is_wait False (fibers S f)"
  shows "\<exists>e T. sock_step uv S e = Some T \<and> is_wait True (fibers T f) \<and>
    (\<forall>g. sock_actor e = Some g \<longrightarrow> sock_completes e (fibers S g))"
proof -
  obtain b where b: "fibers S f = ReadWait b False" using assms(2) by (cases "fibers S f") auto
  then consider "uv_reading S" | "handle S = Closing" using assms(1) by (auto simp: sock_inv_def read_inv_def)
  then show ?thesis
  proof cases
    case 1
    then have "sock_step uv S (ReadCb 1) = Some (read_callback_step uv 1 S)" by simp
    moreover have "is_wait True (fibers (read_callback_step uv 1 S) f)"
      using b by (simp add: read_callback_step_def read_callback_def notify_all_def)
    ultimately show ?thesis by (intro exI [of _ "ReadCb 1"]) simp
  next
    case 2
    then obtain g c where g: "fibers S g = ClosingHandle c" using assms(1) by (auto simp: sock_inv_def close_inv_def)
    then have "sock_step uv S (CloseCb g) = Some (close_end g c S)" by simp
    moreover have "is_wait True (fibers (close_end g c S) f)"
      using b g by (auto simp: close_end_def close_returns_def notify_all_def set_pc_def Let_def
          split: close_caller.splits sum.splits prod.splits exn.splits)
    ultimately show ?thesis using g by (intro exI [of _ "CloseCb g"]) auto
  qed
qed

definition sock_free :: "sock_sys \<Rightarrow> nat \<Rightarrow> bool" where
  "sock_free S f = can_call (fibers S f)"

definition sock_waits :: "bool \<Rightarrow> sock_sys \<Rightarrow> nat \<Rightarrow> bool" where
  "sock_waits w S f = is_wait w (fibers S f)"

interpretation sock_block: blocking_object
  "sock_step uv" sock_actor sock_free sock_waits "\<lambda>e S f. sock_completes e (fibers S f)" "\<lambda>S. ReadResume" sock_inv "\<lambda>S. True" for uv
proof (unfold_locales, unfold sock_free_def sock_waits_def)
  show "can_call (fibers T g) = can_call (fibers S g) \<and> is_wait w (fibers T g) = is_wait w (fibers S g) \<and>
      sock_completes d (fibers T g) = sock_completes d (fibers S g)"
    if "sock_step uv S e = Some T" "sock_actor e \<noteq> Some g" "\<not> (is_wait False (fibers S g) \<and> is_wait True (fibers T g))"
    for S e T g w d
    using sock_step_stays [OF that] by simp
qed (erule wait_not_call, erule wait_not_call, erule wait_not_call, erule wait_not_call, erule (1) sock_step_actor,
    erule (1) sock_completes_enabled, erule sock_wait_enabled, simp, erule (1) sockets.inv_step,
    rule sock_request_owed, assumption+, rule sock_notification_owed, assumption+)

section \<open>Listening sockets\<close>

fun srv_actor :: "srv_event \<Rightarrow> nat option" where
  "srv_actor (SrvListen f _) = Some f"
| "srv_actor (Accept f _) = Some f"
| "srv_actor (AcceptResume f _) = Some f"
| "srv_actor (CleanupDone f) = Some f"
| "srv_actor (ConnectionCb _) = None"
| "srv_actor (SrvClose f) = Some f"
| "srv_actor (SrvCloseCb f) = Some f"

fun srv_is_call :: "srv_event \<Rightarrow> bool" where
  "srv_is_call (SrvListen _ _) = True"
| "srv_is_call (Accept _ _) = True"
| "srv_is_call (SrvClose _) = True"
| "srv_is_call _ = False"

fun srv_completes :: "srv_event \<Rightarrow> srv_pc \<Rightarrow> bool" where
  "srv_completes (CleanupDone _) (AcceptCleanup _) = True"
| "srv_completes (SrvCloseCb _) Srv_closing = True"
| "srv_completes _ _ = False"

definition srv_free :: "srv_sys \<Rightarrow> nat \<Rightarrow> bool" where
  "srv_free S f = srv_can_call (srv_fibers S f)"

definition srv_waits :: "bool \<Rightarrow> srv_sys \<Rightarrow> nat \<Rightarrow> bool" where
  "srv_waits w S f \<longleftrightarrow> srv_fibers S f = AcceptWait w"

text \<open>libuv reports connections once \<open>listen\<close> has succeeded; before that, only a fiber that closes the socket ends an \<open>accept\<close>.\<close>

definition srv_live :: "srv_sys \<Rightarrow> bool" where
  "srv_live S \<longleftrightarrow> listens S \<or> srv_handle S = Closing"

lemma not_listening_silent:
  "\<not> srv_live S \<Longrightarrow> srv_actor e = None \<Longrightarrow> srv_step uv S e = None"
  by (cases e) (auto simp: srv_live_def)

lemmas srv_block_defs = srv_free_def srv_waits_def srv_can_call_def

lemma srv_pc_facts:
  "srv_completes e p \<Longrightarrow> \<not> srv_can_call p" "srv_completes e p \<Longrightarrow> p \<noteq> AcceptWait w"
  by (cases p; cases e; simp add: srv_can_call_def)+

lemmas srv_ops = srv_listen_def accept_turn_def connection_step_def srv_close_begin_def srv_close_end_def srv_notify_all_def

lemma srv_step_others:
  assumes "srv_step uv S e = Some T" and "srv_actor e \<noteq> Some g"
  shows "srv_fibers T g = srv_fibers S g \<or> srv_fibers S g = AcceptWait False \<and> srv_fibers T g = AcceptWait True"
  using assms
  by (cases e; cases "srv_fibers S g")
    (auto simp: srv_ops Let_def split: if_splits sum.splits prod.splits srv_pc.splits)

lemma srv_step_actor:
  assumes "srv_step uv S e = Some T" and "srv_actor e = Some f"
  shows "srv_fibers T f \<noteq> AcceptWait True"
  using assms
  by (cases e) (auto simp: srv_ops Let_def split: if_splits sum.splits prod.splits srv_pc.splits)

lemma srv_completes_enabled:
  "srv_completes e (srv_fibers S f) \<Longrightarrow> srv_actor e = Some f \<Longrightarrow> \<exists>T. srv_step uv S e = Some T"
  by (cases e; cases "srv_fibers S f") auto

lemma srv_completions [simp]:
  "\<exists>e. srv_actor e = Some f \<and> srv_completes e Srv_closing" "\<exists>e. srv_actor e = Some f \<and> srv_completes e (AcceptCleanup x)"
  by (rule exI [of _ "SrvCloseCb f"] exI [of _ "CleanupDone f"], simp; fail)+

text \<open>A fiber in \<open>accept\<close> is notified by the next connection, or by the fiber that closes.\<close>

lemma srv_notification_owed:
  assumes "srv_inv S" and "srv_live S" and "srv_fibers S f = AcceptWait False"
  shows "\<exists>e T. srv_step uv S e = Some T \<and> srv_fibers T f = AcceptWait True \<and>
    (\<forall>g. srv_actor e = Some g \<longrightarrow> srv_completes e (srv_fibers S g))"
proof -
  consider "srv_handle S = Open" "listens S" | "srv_handle S = Closing" using assms by (auto simp: srv_inv_def srv_live_def)
  then show ?thesis
  proof cases
    case 1
    then show ?thesis
      using assms(3) by (intro exI [of _ "ConnectionCb 0"]) (simp add: connection_step_def srv_notify_all_def)
  next
    case 2
    then obtain g where g: "srv_fibers S g = Srv_closing" using assms(1) by (auto simp: srv_inv_def)
    then show ?thesis
      using assms(3) by (intro exI [of _ "SrvCloseCb g"]) (auto simp: srv_close_end_def srv_notify_all_def)
  qed
qed

interpretation srv_block: blocking_object
  "srv_step uv" srv_actor srv_free srv_waits "\<lambda>e S f. srv_completes e (srv_fibers S f)" "\<lambda>S. AcceptResume" srv_inv srv_live for uv
proof (unfold_locales, unfold srv_free_def srv_waits_def)
  show "srv_can_call (srv_fibers T g) = srv_can_call (srv_fibers S g) \<and>
      (srv_fibers T g = AcceptWait w) = (srv_fibers S g = AcceptWait w) \<and>
      srv_completes d (srv_fibers T g) = srv_completes d (srv_fibers S g)"
    if "srv_step uv S e = Some T" "srv_actor e \<noteq> Some g"
      "\<not> (srv_fibers S g = AcceptWait False \<and> srv_fibers T g = AcceptWait True)" for S e T g w d
    using srv_step_others [OF that(1,2)] that(3) by auto
  show "srv_fibers S f = AcceptWait False \<or> (\<exists>e. srv_actor e = Some f \<and> srv_completes e (srv_fibers S f))"
    if "\<not> srv_can_call (srv_fibers S f)" "srv_fibers S f \<noteq> AcceptWait True" for S f
    using that by (cases "srv_fibers S f") (auto simp: srv_can_call_def)
qed (simp add: srv_can_call_def, simp, erule srv_pc_facts, erule srv_pc_facts, erule (1) srv_step_actor,
    erule (1) srv_completes_enabled, simp, simp, erule (1) srv_inv_step, erule (2) srv_notification_owed)

section \<open>Objects of either kind\<close>

datatype io_object = Sock sock_sys | Server srv_sys

datatype io_event = On_sock sock_event | On_server srv_event

fun io_step :: "uv_lib \<Rightarrow> io_object \<Rightarrow> io_event \<Rightarrow> io_object option" where
  "io_step uv (Sock S) (On_sock e) = map_option Sock (sock_step uv S e)"
| "io_step uv (Server S) (On_server e) = map_option Server (srv_step uv S e)"
| "io_step uv _ _ = None"

fun io_actor :: "io_event \<Rightarrow> nat option" where
  "io_actor (On_sock e) = sock_actor e"
| "io_actor (On_server e) = srv_actor e"

fun io_is_call :: "io_event \<Rightarrow> bool" where
  "io_is_call (On_sock e) = sock_is_call e"
| "io_is_call (On_server e) = srv_is_call e"

fun io_free :: "io_object \<Rightarrow> nat \<Rightarrow> bool" where
  "io_free (Sock S) f = sock_free S f"
| "io_free (Server S) f = srv_free S f"

fun io_waits :: "bool \<Rightarrow> io_object \<Rightarrow> nat \<Rightarrow> bool" where
  "io_waits w (Sock S) f = sock_waits w S f"
| "io_waits w (Server S) f = srv_waits w S f"

fun io_completes :: "io_event \<Rightarrow> io_object \<Rightarrow> nat \<Rightarrow> bool" where
  "io_completes (On_sock e) (Sock S) f = sock_completes e (fibers S f)"
| "io_completes (On_server e) (Server S) f = srv_completes e (srv_fibers S f)"
| "io_completes _ _ _ = False"

fun io_resumption :: "io_object \<Rightarrow> nat \<Rightarrow> int \<Rightarrow> io_event" where
  "io_resumption (Sock S) f st = On_sock (ReadResume f st)"
| "io_resumption (Server S) f st = On_server (AcceptResume f st)"

fun io_inv :: "io_object \<Rightarrow> bool" where
  "io_inv (Sock S) = sock_inv S"
| "io_inv (Server S) = srv_inv S"

fun io_live :: "io_object \<Rightarrow> bool" where
  "io_live (Sock S) = True"
| "io_live (Server S) = srv_live S"

lemma io_step_Some:
  "io_step uv X e = Some Y \<longleftrightarrow>
     (\<exists>S d T. X = Sock S \<and> e = On_sock d \<and> Y = Sock T \<and> sock_step uv S d = Some T) \<or>
     (\<exists>S d T. X = Server S \<and> e = On_server d \<and> Y = Server T \<and> srv_step uv S d = Some T)"
  by (cases X; cases e) auto

lemma io_completes_iff:
  "io_completes e X f \<longleftrightarrow>
     (\<exists>S d. X = Sock S \<and> e = On_sock d \<and> sock_completes d (fibers S f)) \<or>
     (\<exists>S d. X = Server S \<and> e = On_server d \<and> srv_completes d (srv_fibers S f))"
  by (cases X; cases e) auto

lemma io_step_others:
  assumes "io_step uv X e = Some Y" and "io_actor e \<noteq> Some g" and "\<not> (io_waits False X g \<and> io_waits True Y g)"
  shows "io_free Y g = io_free X g \<and> io_waits w Y g = io_waits w X g \<and> io_completes d Y g = io_completes d X g"
  using assms(1) unfolding io_step_Some
proof (elim disjE exE conjE)
  fix S d' T
  assume s: "X = Sock S" "e = On_sock d'" "Y = Sock T" "sock_step uv S d' = Some T"
  have "sock_actor d' \<noteq> Some g" "\<not> (sock_waits False S g \<and> sock_waits True T g)" using assms(2,3) s by simp_all
  note sock_block.not_woken [OF s(4) this]
  then show ?thesis using s by (cases d) simp_all
next
  fix S d' T
  assume s: "X = Server S" "e = On_server d'" "Y = Server T" "srv_step uv S d' = Some T"
  have "srv_actor d' \<noteq> Some g" "\<not> (srv_waits False S g \<and> srv_waits True T g)" using assms(2,3) s by simp_all
  note srv_block.not_woken [OF s(4) this]
  then show ?thesis using s by (cases d) simp_all
qed

lemma io_request_owed:
  assumes "io_inv X" and "\<not> io_free X f" and "\<not> io_waits True X f"
  shows "io_waits False X f \<or> (\<exists>e. io_actor e = Some f \<and> io_completes e X f)"
proof (cases X)
  case (Sock S)
  then have "sock_waits False S f \<or> (\<exists>e. sock_actor e = Some f \<and> sock_completes e (fibers S f))"
    using assms sock_block.request_owed by simp
  then show ?thesis using Sock by (metis io_actor.simps(1) io_completes.simps(1) io_waits.simps(1))
next
  case (Server S)
  then have "srv_waits False S f \<or> (\<exists>e. srv_actor e = Some f \<and> srv_completes e (srv_fibers S f))"
    using assms srv_block.request_owed by simp
  then show ?thesis using Server by (metis io_actor.simps(2) io_completes.simps(2) io_waits.simps(2))
qed

lemma io_notification_owed:
  assumes "io_inv X" and "io_live X" and "io_waits False X f"
  shows "\<exists>e Y. io_step uv X e = Some Y \<and> io_waits True Y f \<and> (\<forall>g. io_actor e = Some g \<longrightarrow> io_completes e X g)"
proof (cases X)
  case (Sock S)
  then obtain e T where "sock_step uv S e = Some T" "sock_waits True T f"
      "\<forall>g. sock_actor e = Some g \<longrightarrow> sock_completes e (fibers S g)"
    using assms sock_block.notification_owed [of S f uv] by auto
  then show ?thesis using Sock by (intro exI [of _ "On_sock e"] exI [of _ "Sock T"]) simp
next
  case (Server S)
  then obtain e T where "srv_step uv S e = Some T" "srv_waits True T f"
      "\<forall>g. srv_actor e = Some g \<longrightarrow> srv_completes e (srv_fibers S g)"
    using assms srv_block.notification_owed [of S f uv] by auto
  then show ?thesis using Server by (intro exI [of _ "On_server e"] exI [of _ "Server T"]) simp
qed

interpretation objects: blocking_object
  "io_step uv" io_actor io_free io_waits io_completes io_resumption io_inv io_live for uv
proof
  show "\<not> io_free X f" if "io_waits w X f" for w X f
    using that sock_block.waits_busy srv_block.waits_busy by (cases X) auto
  show "\<not> io_waits True X f" if "io_waits False X f" for X f
    using that sock_block.waits_one srv_block.waits_one by (cases X) auto
  show "\<not> io_free X f" if "io_completes e X f" for e X f
    using that sock_block.completes_busy srv_block.completes_busy by (auto simp: io_completes_iff)
  show "\<not> io_waits w X f" if "io_completes e X f" for e X f w
    using that sock_block.completes_no_wait srv_block.completes_no_wait by (auto simp: io_completes_iff)
  show "\<not> io_waits True Y f" if "io_step uv X e = Some Y" "io_actor e = Some f" for X e Y f
    using that sock_block.step_actor [of uv] srv_block.step_actor [of uv] unfolding io_step_Some by auto
  show "\<exists>Y. io_step uv X e = Some Y" if "io_completes e X f" "io_actor e = Some f" for e X f
    using that sock_block.completes_enabled [of _ _ f uv] srv_block.completes_enabled [of _ _ f uv] by (auto simp: io_completes_iff)
  show "\<exists>Y. io_step uv X (io_resumption X f st) = Some Y" if "io_waits True X f" for X f st
    using that sock_block.resumption_enabled [of _ f uv st] srv_block.resumption_enabled [of _ f uv st]
    by (cases X) (auto simp del: sock_step.simps srv_step.simps)
  show "io_actor (io_resumption X f st) = Some f" for X f st by (cases X) simp_all
  show "io_inv Y" if "io_inv X" "io_step uv X e = Some Y" for X e Y
    using that sockets.inv_step [of _ uv] srv_inv_step [of _ uv] by (auto simp: io_step_Some)
qed (fact io_step_others io_request_owed io_notification_owed)+

end
