(* ===== verification/Runtime.thy ===== *)
theory Runtime
  imports Scheduler UvLoop Blocking
begin

text \<open>
  A thread of a FiberIO program: the scheduler of \<open>Scheduler\<close> and any number of sockets and listening sockets, as \<open>Blocking\<close>
  presents them, driven together. Fibers
  are picked from the ready queue, run until they block in a socket operation, and are awakened by the callbacks that
  libuv runs inside \<open>suspend_until\<close> or by other fibers. The result is that no wake-up is lost between the parts: a fiber
  whose operation can go on is in the ready queue, the thread does not go to sleep while there is one, and the queue
  brings it to run.
\<close>

section \<open>Setting up a thread\<close>

text \<open>
  \<open>use_on_this_thread\<close> makes a scheduler, whose constructor fetches the thread's loop, timer and async handle, and hands it to
  Boost.Fiber; what Boost.Fiber does with it is the argument \<open>install\<close>.
\<close>

record scheduler_object =
  object :: scheduler
  loop_ref :: handle_ref
  timer_ref :: handle_ref
  async_ref :: handle_ref

definition scheduler_construct :: "thread_uv_loop \<Rightarrow> scheduler_object \<times> thread_uv_loop" where
  "scheduler_construct l =
     (let (lo, l1) = get_uv_loop l; (ti, l2) = get_scheduler_timer l1; (as, l3) = get_scheduler_async l2
      in (\<lparr>object = scheduler_new, loop_ref = lo, timer_ref = ti, async_ref = as\<rparr>, l3))"

definition use_on_this_thread ::
  "(scheduler_object \<Rightarrow> 'b \<Rightarrow> 'b) \<Rightarrow> thread_uv_loop \<times> 'b \<Rightarrow> thread_uv_loop \<times> 'b" where
  "use_on_this_thread install t = (let (ob, l) = scheduler_construct (fst t) in (l, install ob (snd t)))"

text \<open>
  Setting up a thread: the loop is initialised by the first call and only by it, a scheduler gets the three handles of its
  thread, and is handed to Boost.Fiber with an empty queue and neither flag set; at the end of the thread everything is closed.
\<close>

lemma use_on_this_thread_eq:
  "use_on_this_thread install (l, b) =
     (make_ready l, install \<lparr>object = scheduler_new, loop_ref = Loop_ref, timer_ref = Timer_ref, async_ref = Async_ref\<rparr> b)"
  by (simp add: use_on_this_thread_def scheduler_construct_def get_uv_loop_def get_scheduler_timer_def get_scheduler_async_def
      make_ready_def)

theorem thread_set_up:
  assumes "n \<noteq> 0" and "(use_on_this_thread install ^^ n) (thread_uv_loop_new, b) = (l, b')"
  shows "calls l = [Loop_init, Timer_init, Async_init] \<and>
    calls (destroy_loop l) = [Loop_init, Timer_init, Async_init, Close_async, Close_timer, Loop_close] \<and>
    b' = (install \<lparr>object = scheduler_new, loop_ref = Loop_ref, timer_ref = Timer_ref, async_ref = Async_ref\<rparr> ^^ n) b"
proof -
  let ?ob = "\<lparr>object = scheduler_new, loop_ref = Loop_ref, timer_ref = Timer_ref, async_ref = Async_ref\<rparr>"
  have "(use_on_this_thread install ^^ n) (thread_uv_loop_new, b) =
      (if n = 0 then thread_uv_loop_new else make_ready thread_uv_loop_new, (install ?ob ^^ n) b)" for n
    by (induction n) (simp_all add: use_on_this_thread_eq make_ready_def)
  then have "l = make_ready thread_uv_loop_new" "b' = (install ?ob ^^ n) b" using assms by simp_all
  then show ?thesis by (simp add: make_ready_def thread_uv_loop_new_def destroy_loop_def)
qed

section \<open>The thread\<close>

text \<open>
  Between the calls of the scheduler's members is Boost.Fiber. What is used of it is what it documents of a scheduling algorithm:
  it calls \<open>awakened\<close> once for a fiber that becomes ready (a new one, one that yields, one whose promise is set or whose
  condition variable is notified), \<open>pick_next\<close> when no fiber is running, and \<open>suspend_until\<close> when none is ready either.
\<close>

datatype object_id = Sock_id nat | Server_id nat

datatype fiber_status = Absent | Ready | Running | Blocked | Dead

text \<open>
  \<open>place\<close> is the socket of a fiber's current operation; \<open>completed\<close> the completion that awaits its fiber.
\<close>

record thread_sys =
  sys :: sched_sys
  objs :: "object_id \<Rightarrow> io_object"
  status :: "fiber \<Rightarrow> fiber_status"
  place :: "fiber \<Rightarrow> object_id"
  completed :: "fiber \<Rightarrow> io_event option"
  members :: "fiber list"

definition object_init :: "16 word \<Rightarrow> object_id \<Rightarrow> io_object" where
  "object_init junk k = (case k of Sock_id _ \<Rightarrow> Sock sock_init | Server_id _ \<Rightarrow> Server (srv_init junk))"

definition thread_init :: "16 word \<Rightarrow> thread_sys" where
  "thread_init junk = \<lparr>sys = sched_init, objs = object_init junk, status = (\<lambda>_. Absent), place = (\<lambda>_. Sock_id 0),
     completed = (\<lambda>_. None), members = []\<rparr>"

definition runnable :: "thread_sys \<Rightarrow> fiber list" where
  "runnable R = queue (sched (sys R))"

definition woken :: "fiber list \<Rightarrow> io_object \<Rightarrow> io_object \<Rightarrow> fiber list" where
  "woken fs S T = filter (\<lambda>g. io_waits False S g \<and> io_waits True T g) fs"

definition mark_ready :: "fiber list \<Rightarrow> thread_sys \<Rightarrow> thread_sys" where
  "mark_ready gs R = R\<lparr>status := (\<lambda>g. if g \<in> set gs then Ready else status R g)\<rparr>"

definition awaken_all :: "fiber list \<Rightarrow> thread_sys \<Rightarrow> thread_sys" where
  "awaken_all gs R = mark_ready gs (R\<lparr>sys := (sys R)\<lparr>sched := fold awakened gs (sched (sys R))\<rparr>\<rparr>)"

definition set_status :: "fiber \<Rightarrow> fiber_status \<Rightarrow> thread_sys \<Rightarrow> thread_sys" where
  "set_status f st R = R\<lparr>status := (status R)(f := st)\<rparr>"

text \<open>The running fiber performs an event on a socket and then runs on or blocks; a \<open>notify_all\<close> on the way awakens others.\<close>

definition run_op :: "uv_lib \<Rightarrow> fiber \<Rightarrow> object_id \<Rightarrow> io_event \<Rightarrow> thread_sys \<Rightarrow> thread_sys option" where
  "run_op uv f k e R =
     (case io_step uv (objs R k) e of
        None \<Rightarrow> None
      | Some T \<Rightarrow>
          let R1 = R\<lparr>objs := (objs R)(k := T), completed := (completed R)(f := None), place := (place R)(f := k)\<rparr>;
              R2 = awaken_all (woken (members R) (objs R k) T) R1
          in Some (set_status f (if io_free T f then Running else Blocked) R2))"

definition resume :: "uv_lib \<Rightarrow> int \<Rightarrow> fiber \<Rightarrow> thread_sys \<Rightarrow> thread_sys option" where
  "resume uv st f R =
     (case completed R f of
        Some e \<Rightarrow> run_op uv f (place R f) e R
      | None \<Rightarrow>
          if io_waits True (objs R (place R f)) f then run_op uv f (place R f) (io_resumption (objs R (place R f)) f st) R
          else Some (set_status f Running R))"

text \<open>A callback inside \<open>uv_run\<close>, with the fibers it awakens.\<close>

definition deliver :: "uv_lib \<Rightarrow> object_id \<times> io_event \<Rightarrow> thread_sys \<Rightarrow> (thread_sys \<times> fiber list) option" where
  "deliver uv ke R =
     (case ke of (k, e) \<Rightarrow>
        (case io_actor e of
           None \<Rightarrow>
             (case io_step uv (objs R k) e of
                None \<Rightarrow> None
              | Some T \<Rightarrow>
                  let gs = woken (members R) (objs R k) T
                  in Some (mark_ready gs (R\<lparr>objs := (objs R)(k := T)\<rparr>), gs))
         | Some f \<Rightarrow>
             if status R f = Blocked \<and> place R f = k \<and> io_completes e (objs R k) f
             then Some (mark_ready [f] (R\<lparr>completed := (completed R)(f := Some e)\<rparr>), [f])
             else None))"

fun deliver_all :: "uv_lib \<Rightarrow> (object_id \<times> io_event) list \<Rightarrow> thread_sys \<Rightarrow> (thread_sys \<times> fiber list) option" where
  "deliver_all uv [] R = Some (R, [])"
| "deliver_all uv (ke # kes) R =
     (case deliver uv ke R of
        None \<Rightarrow> None
      | Some (R1, gs) \<Rightarrow>
          (case deliver_all uv kes R1 of None \<Rightarrow> None | Some (R2, hs) \<Rightarrow> Some (R2, gs @ hs)))"

definition none_running :: "thread_sys \<Rightarrow> bool" where
  "none_running R \<longleftrightarrow> list_all (\<lambda>f. status R f \<noteq> Running) (members R)"

datatype thread_event =
    Spawn fiber                    \<comment> \<open>a new fiber, put into the ready queue\<close>
  | Op object_id io_event              \<comment> \<open>the running fiber calls an operation of a socket\<close>
  | Yield fiber
  | Finish fiber
  | Pick int                       \<comment> \<open>pick_next; the status is that of an uv_shutdown\<close>
  | Local sched_event              \<comment> \<open>a step of suspend_until, or of notify on another thread\<close>
  | UvReturn bool bool "(object_id \<times> io_event) list" \<comment> \<open>uv_run returns, having run these callbacks\<close>

fun local_ok :: "thread_sys \<Rightarrow> sched_event \<Rightarrow> bool" where
  "local_ok R (Suspend _) \<longleftrightarrow> none_running R \<and> runnable R = []"
| "local_ok R (Awaken _) \<longleftrightarrow> False"
| "local_ok R PickNext \<longleftrightarrow> False"
| "local_ok R (UvRun _ _ _) \<longleftrightarrow> False"
| "local_ok R _ \<longleftrightarrow> True"

fun thread_step :: "uv_lib \<Rightarrow> thread_sys \<Rightarrow> thread_event \<Rightarrow> thread_sys option" where
  "thread_step uv R (Spawn f) =
     (if pc (sys R) = Outside \<and> status R f = Absent
      then Some (awaken_all [f] (R\<lparr>members := members R @ [f]\<rparr>)) else None)"
| "thread_step uv R (Op k e) =
     (case io_actor e of
        Some f \<Rightarrow> if status R f = Running \<and> io_is_call e then run_op uv f k e R else None
      | None \<Rightarrow> None)"
| "thread_step uv R (Yield f) = (if status R f = Running then Some (awaken_all [f] R) else None)"
| "thread_step uv R (Finish f) = (if status R f = Running then Some (set_status f Dead R) else None)"
| "thread_step uv R (Pick st) =
     (if pc (sys R) = Outside \<and> none_running R then
        (case pick_next (sched (sys R)) of
           (None, s) \<Rightarrow> Some R
         | (Some f, s) \<Rightarrow> resume uv st f (R\<lparr>sys := (sys R)\<lparr>sched := s\<rparr>\<rparr>))
      else None)"
| "thread_step uv R (Local e) =
     (if local_ok R e then map_option (\<lambda>s. R\<lparr>sys := s\<rparr>) (sched_step (sys R) e) else None)"
| "thread_step uv R (UvReturn fired consumed kes) =
     (if pc (sys R) = Waiting then
        (case deliver_all uv kes R of
           None \<Rightarrow> None
         | Some (R1, gs) \<Rightarrow> map_option (\<lambda>s. R1\<lparr>sys := s\<rparr>) (sched_step (sys R1) (UvRun fired consumed gs)))
      else None)"

section \<open>Invariant\<close>

text \<open>
  A fiber inside an operation is ready or blocked, and the operation is on the socket it is recorded at; a blocked fiber has
  nothing to go on with; a recorded completion is one its fiber waits for; and a ready fiber inside an operation
  has been notified or has a completion.
\<close>

definition fiber_ok :: "thread_sys \<Rightarrow> fiber \<Rightarrow> bool" where
  "fiber_ok R f \<longleftrightarrow>
     (\<forall>k. \<not> io_free (objs R k) f \<longrightarrow> place R f = k \<and> (status R f = Ready \<or> status R f = Blocked)) \<and>
     (status R f = Blocked \<longrightarrow>
        \<not> io_free (objs R (place R f)) f \<and> \<not> io_waits True (objs R (place R f)) f) \<and>
     (status R f = Ready \<and> completed R f = None \<and> \<not> io_free (objs R (place R f)) f \<longrightarrow>
        io_waits True (objs R (place R f)) f) \<and>
     (\<forall>e. completed R f = Some e \<longrightarrow>
        status R f = Ready \<and> io_actor e = Some f \<and> io_completes e (objs R (place R f)) f)"

text \<open>\<open>q\<close> are the fibers that are queued or about to be, \<open>out\<close> the fiber that has been picked.\<close>

definition core :: "thread_sys \<Rightarrow> fiber list \<Rightarrow> fiber set \<Rightarrow> bool" where
  "core R q out \<longleftrightarrow>
     distinct q \<and> set q = {g. status R g = Ready} - out \<and>
     distinct (members R) \<and> set (members R) = {g. status R g \<noteq> Absent} \<and> (\<forall>g. g \<notin> out \<longrightarrow> fiber_ok R g)"

definition sleep_ok :: "sched_sys \<Rightarrow> bool" where
  "sleep_ok s \<longleftrightarrow>
     (case pc s of
        Entered _ _ \<Rightarrow> queue (sched s) = []
      | Waiting \<Rightarrow> queue (sched s) = []
      | Checked r _ \<Rightarrow> r = (queue (sched s) \<noteq> [])
      | _ \<Rightarrow> True)"

definition thread_inv :: "thread_sys \<Rightarrow> bool" where
  "thread_inv R \<longleftrightarrow>
     core R (runnable R) {} \<and> (\<forall>k. io_inv (objs R k)) \<and> sleep_ok (sys R) \<and>
     (\<forall>f g. status R f = Running \<longrightarrow> status R g = Running \<longrightarrow> f = g) \<and>
     (\<forall>f. status R f = Running \<longrightarrow> pc (sys R) = Outside)"

lemma queue_fold_awakened [simp]: "queue (fold awakened gs s) = queue s @ gs"
  by (simp add: fold_awakened)

lemma thread_simps [simp]:
  "objs (mark_ready gs R) = objs R" "place (mark_ready gs R) = place R" "completed (mark_ready gs R) = completed R"
  "members (mark_ready gs R) = members R" "sys (mark_ready gs R) = sys R"
  "status (mark_ready gs R) g = (if g \<in> set gs then Ready else status R g)"
  "objs (awaken_all gs R) = objs R" "place (awaken_all gs R) = place R" "completed (awaken_all gs R) = completed R"
  "members (awaken_all gs R) = members R" "pc (sys (awaken_all gs R)) = pc (sys R)"
  "status (awaken_all gs R) g = (if g \<in> set gs then Ready else status R g)" "runnable (awaken_all gs R) = runnable R @ gs"
  "objs (set_status f st R) = objs R" "place (set_status f st R) = place R" "completed (set_status f st R) = completed R"
  "members (set_status f st R) = members R" "sys (set_status f st R) = sys R"
  "status (set_status f st R) = (status R)(f := st)" "runnable (set_status f st R) = runnable R"
  by (simp_all add: mark_ready_def awaken_all_def set_status_def runnable_def)

text \<open>A fiber that an event wakes was blocked, and is then ready for good reason.\<close>

lemma woken_blocked:
  assumes "fiber_ok R g" and "io_waits False (objs R k) g"
  shows "place R g = k" and "status R g = Blocked" and "completed R g = None"
proof -
  have in_op: "\<not> io_free (objs R k) g" using assms(2) by (rule objects.waits_busy)
  then show p: "place R g = k" using assms(1) by (simp add: fiber_ok_def)
  have w: "\<not> io_waits True (objs R k) g" using assms(2) by (rule objects.waits_one)
  show c: "completed R g = None"
    using assms p objects.completes_no_wait unfolding fiber_ok_def by (metis option.exhaust)
  show "status R g = Blocked" using assms(1) in_op p w c unfolding fiber_ok_def by blast
qed

lemma wake_core:
  assumes "core R q out" and step: "io_step uv (objs R k) e = Some T" and act: "\<And>g. io_actor e = Some g \<Longrightarrow> g \<in> out"
    and gs: "gs = woken (members R) (objs R k) T" and out: "\<And>g. g \<in> out \<Longrightarrow> \<not> io_waits True T g"
    and R': "objs R' = (objs R)(k := T)" "\<And>g. g \<notin> out \<Longrightarrow> place R' g = place R g \<and> completed R' g = completed R g"
      "members R' = members R" "\<And>g. status R' g = (if g \<in> set gs then Ready else status R g)"
  shows "core R' (q @ gs) out"
proof -
  have woken: "g \<in> set gs \<longleftrightarrow> io_waits False (objs R k) g \<and> io_waits True T g" if "g \<notin> out" for g
  proof -
    have "g \<in> set (members R)" if "io_waits False (objs R k) g"
      using assms(1) \<open>g \<notin> out\<close> woken_blocked(2) [OF _ that] by (auto simp: core_def)
    then show ?thesis by (auto simp: gs woken_def)
  qed
  have not_out: "g \<notin> out" if "g \<in> set gs" for g using that out by (auto simp: gs woken_def)
  have blocked: "status R g = Blocked" "place R g = k" "completed R g = None" if "g \<in> set gs" for g
    using woken_blocked [of R g k] woken [OF not_out [OF that]] that not_out [OF that] assms(1) by (auto simp: core_def)
  have ok: "fiber_ok R' g" if "g \<notin> out" for g
  proof (cases "g \<in> set gs")
    case True
    have "io_waits True T g" using woken [OF that] True by simp
    moreover have "\<not> io_free (objs R k') g \<longrightarrow> k' = k" for k'
      using assms(1) that blocked [OF True] by (auto simp: core_def fiber_ok_def)
    ultimately show ?thesis
      using R' that blocked [OF True] True by (auto simp: fiber_ok_def dest: objects.waits_busy)
  next
    case False
    have "io_actor e \<noteq> Some g" using act that by blast
    note stays = objects.not_woken [OF step this]
    have "io_free (objs R' k') g = io_free (objs R k') g" "io_waits w (objs R' k') g = io_waits w (objs R k') g"
      "io_completes d (objs R' k') g = io_completes d (objs R k') g" for k' w d
      using stays woken [OF that] False by (auto simp: R'(1))
    then show ?thesis
      using assms(1) that R'(2) [OF that] R'(4) [of g] False by (simp add: core_def fiber_ok_def)
  qed
  have "distinct gs" using assms(1) by (simp add: gs woken_def core_def)
  moreover have "set q \<inter> set gs = {}" using assms(1) blocked by (auto simp: core_def)
  moreover have "set (members R') = {g. status R' g \<noteq> Absent}"
    using assms(1) R'(3,4) blocked by (auto simp: core_def)
  ultimately show ?thesis
    using assms(1) R'(3,4) ok not_out by (auto simp: core_def)
qed

lemma core_frame: "core (R\<lparr>sys := s\<rparr>) q out = core R q out"
  by (simp add: core_def fiber_ok_def)

lemma core_picked: "core R q {} \<Longrightarrow> set q' = set q - {f} \<Longrightarrow> distinct q' \<Longrightarrow> core R q' {f}"
  by (auto simp: core_def)

lemma core_back:
  assumes "core R q {f}" and "fiber_ok (set_status f st R) f" and "st \<noteq> Ready" and "st \<noteq> Absent" and "status R f \<noteq> Absent"
  shows "core (set_status f st R) q {}"
proof -
  have "fiber_ok (set_status f st R) g" for g
    using assms(1,2) by (cases "g = f") (simp_all add: core_def fiber_ok_def)
  with assms show ?thesis by (auto simp: core_def)
qed

lemma run_op_inv:
  assumes core: "core R (runnable R) {f}" and inv: "\<forall>k. io_inv (objs R k)" and pc: "pc (sys R) = Outside"
    and alone: "\<And>g. g \<noteq> f \<Longrightarrow> status R g \<noteq> Running" and there: "status R f \<noteq> Absent"
    and act: "io_actor e = Some f" and elsewhere: "\<And>k'. k' \<noteq> k \<Longrightarrow> io_free (objs R k') f"
    and run: "run_op uv f k e R = Some R'"
  shows "thread_inv R'"
proof -
  obtain T where T: "io_step uv (objs R k) e = Some T" using run by (auto simp: run_op_def split: option.splits)
  let ?gs = "woken (members R) (objs R k) T"
  let ?R1 = "R\<lparr>objs := (objs R)(k := T), completed := (completed R)(f := None), place := (place R)(f := k)\<rparr>"
  let ?R2 = "awaken_all ?gs ?R1"
  let ?st = "if io_free T f then Running else Blocked"
  have R': "R' = set_status f ?st ?R2" using run T by (simp add: run_op_def Let_def)
  have quiet: "\<not> io_waits True T f" using objects.step_actor [OF T act] .
  have "core ?R2 (runnable R @ ?gs) {f}"
    by (rule wake_core [OF core T]) (use act quiet in auto)
  moreover have "fiber_ok (set_status f ?st ?R2) f"
    using elsewhere quiet by (auto simp: fiber_ok_def)
  moreover have "status ?R2 f \<noteq> Absent" using there by simp
  ultimately have "core R' (runnable R @ ?gs) {}" unfolding R' by (intro core_back) auto
  moreover have "runnable R' = runnable R @ ?gs" by (simp add: R' runnable_def awaken_all_def)
  moreover have "io_inv (objs R' k')" for k'
    using inv objects.step_inv [OF _ T] by (simp add: R')
  moreover have "pc (sys R') = Outside" using pc by (simp add: R')
  moreover have "g = f" if "status R' g = Running" for g using alone that by (cases "g = f") (simp_all add: R' split: if_splits)
  ultimately show ?thesis by (simp add: thread_inv_def sleep_ok_def) metis
qed

lemma resume_inv:
  assumes core: "core R (runnable R) {f}" and ok: "fiber_ok R f" and inv: "\<forall>k. io_inv (objs R k)"
    and pc: "pc (sys R) = Outside" and alone: "\<And>g. status R g \<noteq> Running" and there: "status R f = Ready"
    and res: "resume uv st f R = Some R'"
  shows "thread_inv R'"
proof -
  have elsewhere: "io_free (objs R k') f" if "k' \<noteq> place R f" for k'
    using ok that by (auto simp: fiber_ok_def)
  note run = run_op_inv [OF core inv pc alone _ _ elsewhere]
  show ?thesis
  proof (cases "completed R f")
    case (Some e)
    then show ?thesis using run [of e "place R f"] ok res there by (simp add: resume_def fiber_ok_def)
  next
    case None
    show ?thesis
    proof (cases "io_waits True (objs R (place R f)) f")
      case True
      then show ?thesis using run [of "io_resumption (objs R (place R f)) f st" "place R f"] None res there objects.resumption_actor
        by (simp add: resume_def)
    next
      case False
      then have idle: "io_free (objs R k) f" for k
        using ok None there elsewhere by (cases "k = place R f") (auto simp: fiber_ok_def)
      have R': "R' = set_status f Running R" using res None False by (simp add: resume_def)
      have "fiber_ok R' f" using idle None by (simp add: R' fiber_ok_def)
      then have "core R' (runnable R) {}" using core there unfolding R' by (intro core_back) auto
      then show ?thesis using R' inv pc alone by (auto simp: thread_inv_def sleep_ok_def)
    qed
  qed
qed

text \<open>A picked fiber can always go on.\<close>

lemma resume_enabled:
  assumes "fiber_ok R f"
  shows "\<exists>R'. resume uv st f R = Some R'"
proof -
  have run: "\<exists>R'. run_op uv f k e R = Some R'" if "\<exists>T. io_step uv (objs R k) e = Some T" for k e
    using that by (auto simp: run_op_def Let_def)
  show ?thesis
  proof (cases "completed R f")
    case (Some e)
    then have "io_completes e (objs R (place R f)) f" "io_actor e = Some f" using assms by (auto simp: fiber_ok_def)
    from run [OF objects.completes_enabled [OF this]] Some show ?thesis by (simp add: resume_def)
  next
    case None
    then show ?thesis using run [OF objects.resumption_enabled [of _ f uv st]] by (auto simp: resume_def)
  qed
qed

lemma deliver_core:
  assumes "core R q {}" and "deliver uv ke R = Some (R', gs)"
  shows "core R' (q @ gs) {}"
proof -
  obtain k e where ke: "ke = (k, e)" by (cases ke)
  show ?thesis
  proof (cases "io_actor e")
    case None
    then obtain T where T: "io_step uv (objs R k) e = Some T" and gs: "gs = woken (members R) (objs R k) T"
        and R': "R' = mark_ready gs (R\<lparr>objs := (objs R)(k := T)\<rparr>)"
      using assms(2) ke by (auto simp: deliver_def Let_def split: option.splits)
    show ?thesis by (rule wake_core [OF assms(1) T]) (use None gs R' in auto)
  next
    case (Some f)
    then have f: "status R f = Blocked" "place R f = k" "io_completes e (objs R k) f"
        and gs: "gs = [f]" and R': "R' = mark_ready [f] (R\<lparr>completed := (completed R)(f := Some e)\<rparr>)"
      using assms(2) ke by (auto simp: deliver_def split: if_splits)
    have "fiber_ok R g" for g using assms(1) by (simp add: core_def)
    then have "fiber_ok R' g" for g using f Some by (cases "g = f") (auto simp: R' fiber_ok_def)
    then show ?thesis using assms(1) f(1) by (auto simp: core_def R' gs)
  qed
qed

lemma deliver_rest:
  assumes "deliver uv ke R = Some (R', gs)" and "\<forall>k. io_inv (objs R k)"
  shows "sys R' = sys R \<and> (\<forall>k. io_inv (objs R' k)) \<and> (\<forall>g. status R' g = Running \<longrightarrow> status R g = Running)"
proof -
  have "io_inv T" if "io_step uv (objs R k) e = Some T" for k e T
    using objects.step_inv [OF _ that] assms(2) by blast
  then show ?thesis
    using assms by (auto simp: deliver_def Let_def split: prod.splits option.splits if_splits)
qed

lemma deliver_all_inv:
  assumes "core R q {}" and "\<forall>k. io_inv (objs R k)" and "deliver_all uv kes R = Some (R', gs)"
  shows "core R' (q @ gs) {} \<and> sys R' = sys R \<and> (\<forall>k. io_inv (objs R' k)) \<and>
    (\<forall>g. status R' g = Running \<longrightarrow> status R g = Running)"
  using assms
proof (induction kes arbitrary: R q gs)
  case (Cons ke kes)
  then obtain R1 g1 g2 where d: "deliver uv ke R = Some (R1, g1)" "deliver_all uv kes R1 = Some (R', g2)" "gs = g1 @ g2"
    by (auto split: option.splits)
  note rest = deliver_rest [OF d(1) Cons.prems(2)]
  from Cons.IH [OF deliver_core [OF Cons.prems(1) d(1)] _ d(2)] rest show ?case by (simp add: d(3))
qed simp

lemma uv_run_queue:
  assumes "sched_step s (UvRun fired consumed gs) = Some t"
  shows "queue (sched t) = queue (sched s) @ gs \<and> pc t = Returned"
  using assms by (auto simp: uv_run_once_def suspend_timer_callback_def Let_def split: if_splits)

lemma local_step:
  assumes "sched_step s e = Some t" and "local_ok R e" and "sys R = s" and "sleep_ok s"
  shows "queue (sched t) = queue (sched s) \<and> sleep_ok t \<and> (pc s = Outside \<and> \<not> none_running R \<longrightarrow> pc t = Outside)"
  using assms
  by (cases e) (auto simp: begin_suspend_def suspend_enter_def after_enter_def suspend_exit_def check_loop_def decide_loop_def stop_timer_def
      finish_suspend_def notify_update_def update_notify_def notify_send_def sleep_ok_def runnable_def Let_def
      split: if_splits pc.splits)

lemma object_init_facts:
  "io_free (object_init junk k) f" "io_inv (object_init junk k)"
  using sockets.inv_init srv_inv_init
  by (cases k; simp add: object_init_def sock_free_def sock_init_def can_call_def srv_free_def srv_init_def srv_can_call_def)+

lemma thread_inv_init: "thread_inv (thread_init junk)"
proof -
  have "fiber_ok (thread_init junk) f" for f by (simp add: fiber_ok_def thread_init_def object_init_facts)
  then have "core (thread_init junk) [] {}" by (auto simp: core_def thread_init_def)
  then show ?thesis
    by (simp add: thread_inv_def runnable_def)
      (simp add: thread_init_def object_init_facts sched_init_def scheduler_new_def sleep_ok_def)
qed

lemma running_member: "thread_inv R \<Longrightarrow> status R f = Running \<Longrightarrow> \<not> none_running R"
  by (auto simp: thread_inv_def core_def none_running_def list_all_iff)

lemma none_running_iff: "thread_inv R \<Longrightarrow> none_running R \<longleftrightarrow> (\<forall>f. status R f \<noteq> Running)"
  by (auto simp: thread_inv_def core_def none_running_def list_all_iff)

lemma idle_fiber:
  assumes "thread_inv R" and "status R f \<noteq> Ready" and "status R f \<noteq> Blocked"
  shows "io_free (objs R k) f" and "completed R f = None"
proof -
  have "fiber_ok R f" using assms(1) by (simp add: thread_inv_def core_def)
  then show "io_free (objs R k) f" "completed R f = None"
    using assms(2,3) by (auto simp: fiber_ok_def)
qed

lemma awaken_inv:
  assumes "thread_inv R" and "pc (sys R) = Outside" and "core (awaken_all [f] R') (runnable R @ [f]) {}"
    and "objs R' = objs R" and "sys R' = sys R" and "\<And>g. status R' g = status R g"
  shows "thread_inv (awaken_all [f] R')"
  using assms by (auto simp: thread_inv_def runnable_def sleep_ok_def awaken_all_def awakened_def)

lemma spawn_inv:
  assumes "thread_inv R" and "pc (sys R) = Outside" and "status R f = Absent"
  shows "thread_inv (awaken_all [f] (R\<lparr>members := members R @ [f]\<rparr>))"
proof -
  have c: "core R (runnable R) {}" using assms(1) by (simp add: thread_inv_def)
  then have ok: "fiber_ok R g" for g by (simp add: core_def)
  let ?R = "awaken_all [f] (R\<lparr>members := members R @ [f]\<rparr>)"
  have "io_free (objs R k) f" "completed R f = None" for k
    using idle_fiber [OF assms(1)] assms(3) by simp_all
  then have "fiber_ok ?R g" for g using ok [of g] by (cases "g = f") (auto simp: fiber_ok_def)
  then have "core ?R (runnable R @ [f]) {}" using c assms(3) by (auto simp: core_def)
  from awaken_inv [OF assms(1,2) this] show ?thesis by simp
qed

lemma yield_inv:
  assumes "thread_inv R" and "status R f = Running"
  shows "thread_inv (awaken_all [f] R)"
proof -
  have c: "core R (runnable R) {}" and pc: "pc (sys R) = Outside" using assms by (auto simp: thread_inv_def)
  then have ok: "fiber_ok R g" for g by (simp add: core_def)
  have "io_free (objs R k) f" "completed R f = None" for k
    using idle_fiber [OF assms(1)] assms(2) by simp_all
  then have "fiber_ok (awaken_all [f] R) g" for g using ok [of g] by (cases "g = f") (auto simp: fiber_ok_def)
  then have "core (awaken_all [f] R) (runnable R @ [f]) {}" using c assms(2) by (auto simp: core_def)
  from awaken_inv [OF assms(1) pc this] show ?thesis by simp
qed

lemma finish_inv:
  assumes "thread_inv R" and "status R f = Running"
  shows "thread_inv (set_status f Dead R)"
proof -
  have c: "core R (runnable R) {}" using assms by (auto simp: thread_inv_def)
  then have "core R (runnable R) {f}" using assms(2) by (auto simp: core_def)
  moreover have "fiber_ok (set_status f Dead R) f"
    using idle_fiber [OF assms(1)] assms(2) by (simp add: fiber_ok_def)
  ultimately have "core (set_status f Dead R) (runnable R) {}" using assms(2) by (intro core_back) auto
  then show ?thesis using assms by (simp add: thread_inv_def) blast
qed

lemma op_inv:
  assumes "thread_inv R" and "status R f = Running" and "io_actor e = Some f" and "run_op uv f k e R = Some R'"
  shows "thread_inv R'"
proof -
  have c: "core R (runnable R) {}" using assms by (auto simp: thread_inv_def)
  then have "core R (runnable R) {f}" using assms(2) by (auto simp: core_def)
  moreover have "io_free (objs R k') f" for k' using idle_fiber [OF assms(1)] assms(2) by simp
  ultimately show ?thesis
    using assms by (intro run_op_inv [where e = e]) (auto simp: thread_inv_def)
qed

lemma pick_inv:
  assumes "thread_inv R" and "none_running R" and "pc (sys R) = Outside" and "pick_next (sched (sys R)) = (Some f, s)"
    and "resume uv st f (R\<lparr>sys := (sys R)\<lparr>sched := s\<rparr>\<rparr>) = Some R'"
  shows "thread_inv R'"
proof -
  let ?R = "R\<lparr>sys := (sys R)\<lparr>sched := s\<rparr>\<rparr>"
  have q: "runnable R = f # runnable ?R"
    using assms(4) by (cases "queue (sched (sys R))") (auto simp: pick_next_def runnable_def)
  have c: "core R (f # runnable ?R) {}" using assms(1) q by (simp add: thread_inv_def)
  then have "core R (runnable ?R) {f}" by (auto simp: core_def)
  moreover have "fiber_ok R f" "status R f = Ready" using c by (auto simp: core_def)
  ultimately show ?thesis
    using assms none_running_iff [OF assms(1)]
    by (intro resume_inv [OF _ _ _ _ _ _ assms(5)]) (auto simp: core_frame thread_inv_def fiber_ok_def)
qed

lemma thread_inv_step:
  assumes "thread_inv R" and "thread_step uv R e = Some R'"
  shows "thread_inv R'"
proof (cases e)
  case (Spawn f)
  then show ?thesis using assms spawn_inv by (auto split: if_splits)
next
  case (Op k x)
  then show ?thesis using assms op_inv by (auto split: option.splits if_splits)
next
  case (Yield f)
  then show ?thesis using assms yield_inv by (auto split: if_splits)
next
  case (Finish f)
  then show ?thesis using assms finish_inv by (auto split: if_splits)
next
  case (Pick st)
  then show ?thesis using assms pick_inv by (auto split: if_splits prod.splits option.splits)
next
  case (Local x)
  then obtain s where s: "local_ok R x" "sched_step (sys R) x = Some s" "R' = R\<lparr>sys := s\<rparr>"
    using assms(2) by (auto split: if_splits)
  have "sleep_ok (sys R)" using assms(1) by (simp add: thread_inv_def)
  from local_step [OF s(2,1) refl this] running_member [OF assms(1)] assms(1) s(3) show ?thesis
    by (auto simp: thread_inv_def core_frame runnable_def)
next
  case (UvReturn fired consumed kes)
  then obtain R1 gs s where d: "pc (sys R) = Waiting" "deliver_all uv kes R = Some (R1, gs)"
      "sched_step (sys R1) (UvRun fired consumed gs) = Some s" "R' = R1\<lparr>sys := s\<rparr>"
    using assms(2) by (auto split: if_splits option.splits)
  have "core R (runnable R) {}" "\<forall>k. io_inv (objs R k)" "\<And>f. status R f \<noteq> Running"
    using assms(1) d(1) by (auto simp: thread_inv_def)
  with deliver_all_inv [OF this(1,2) d(2)] uv_run_queue [OF d(3)] d(4) show ?thesis
    by (auto simp: thread_inv_def core_frame runnable_def sleep_ok_def)
qed

interpretation threads: inductive_invariant "thread_step uv" "thread_init junk" thread_inv for uv junk
  by unfold_locales (auto intro: thread_inv_init thread_inv_step)

section \<open>Every ready fiber is picked in its turn\<close>

fun is_pick :: "thread_event \<Rightarrow> bool" where
  "is_pick (Pick _) \<longleftrightarrow> True"
| "is_pick _ \<longleftrightarrow> False"

definition picks :: "thread_event list \<Rightarrow> nat" where
  "picks es = length (filter is_pick es)"

lemma run_op_queue: "run_op uv f k e R = Some R' \<Longrightarrow> \<exists>gs. runnable R' = runnable R @ gs"
  by (auto simp: run_op_def Let_def runnable_def awaken_all_def mark_ready_def set_status_def split: option.splits)

lemma resume_queue: "resume uv st f R = Some R' \<Longrightarrow> \<exists>gs. runnable R' = runnable R @ gs"
  using run_op_queue by (auto simp: resume_def split: option.splits if_splits)

lemma deliver_sys: "deliver_all uv kes R = Some (R', gs) \<Longrightarrow> sys R' = sys R"
  by (induction kes arbitrary: R gs) (auto simp: deliver_def Let_def split: option.splits prod.splits if_splits)

text \<open>A pick takes the head of the queue; everything else only appends to it.\<close>

lemma step_queue:
  assumes "thread_inv R" and "thread_step uv R e = Some R'"
  shows "\<exists>gs. runnable R' = (if is_pick e then tl (runnable R) else runnable R) @ gs"
proof (cases e)
  case (Op k x)
  then show ?thesis using assms(2) run_op_queue by (auto split: option.splits if_splits)
next
  case (Pick st)
  then show ?thesis
    using assms(2) by (auto simp: pick_next_def runnable_def dest!: resume_queue split: if_splits prod.splits option.splits)
next
  case (Local x)
  have "sleep_ok (sys R)" using assms(1) by (simp add: thread_inv_def)
  then show ?thesis using Local assms(2) local_step [OF _ _ refl] by (auto simp: runnable_def split: if_splits)
next
  case (UvReturn fired consumed kes)
  then obtain R1 gs s where d: "deliver_all uv kes R = Some (R1, gs)"
      "sched_step (sys R1) (UvRun fired consumed gs) = Some s" "R' = R1\<lparr>sys := s\<rparr>"
    using assms(2) by (auto split: if_splits option.splits)
  then show ?thesis using uv_run_queue [OF d(2)] deliver_sys [OF d(1)] UvReturn by (simp add: runnable_def)
qed (use assms(2) in \<open>auto simp: runnable_def awaken_all_def awakened_def mark_ready_def set_status_def split: if_splits\<close>)

lemma run_queue:
  assumes "thread_inv R" and "run (thread_step uv) R es = Some R'" and "picks es \<le> length (runnable R)"
  shows "\<exists>gs. runnable R' = drop (picks es) (runnable R) @ gs"
  using assms
proof (induction es arbitrary: R)
  case Nil
  then show ?case by (simp add: picks_def)
next
  case (Cons e es)
  obtain R1 where R1: "thread_step uv R e = Some R1" and r: "run (thread_step uv) R1 es = Some R'"
    using Cons.prems(2) by (auto split: option.splits)
  obtain gs where gs: "runnable R1 = (if is_pick e then tl (runnable R) else runnable R) @ gs"
    using step_queue [OF Cons.prems(1) R1] by blast
  have le: "picks es \<le> length (if is_pick e then tl (runnable R) else runnable R)"
    using Cons.prems(3) by (auto simp: picks_def)
  then have "picks es \<le> length (runnable R1)" using gs by simp
  from Cons.IH [OF thread_inv_step [OF Cons.prems(1) R1] r this] le gs show ?case
    by (auto simp: picks_def drop_Suc)
qed

text \<open>What a picked fiber looks like afterwards: it runs, or blocks in the next wait of its operation.\<close>

lemma resume_runs:
  assumes "resume uv st f R = Some R'"
  shows "(status R' f = Running \<or> status R' f = Blocked) \<and> completed R' f = None"
proof -
  have "(status R' f = Running \<or> status R' f = Blocked) \<and> completed R' f = None" if "run_op uv f k e R = Some R'" for k e
    using that by (auto simp: run_op_def Let_def split: option.splits if_splits)
  then show ?thesis using assms by (auto simp: resume_def split: option.splits if_splits)
qed

section \<open>No deadlock\<close>

lemma uv_return:
  assumes "pc (sys R) = Waiting" and "deliver uv ke R = Some (R1, gs)"
  shows "\<exists>s. thread_step uv R (UvReturn False False [ke]) = Some (R1\<lparr>sys := s\<rparr>) \<and> pc s = Returned \<and>
    queue (sched s) = runnable R @ gs"
proof -
  have "sys R1 = sys R" using deliver_sys [of uv "[ke]" R R1 gs] assms(2) by simp
  then show ?thesis
    using assms by (intro exI [of _ "(sys R)\<lparr>sched := fold awakened gs (sched (sys R)), pc := Returned\<rparr>"])
      (simp add: uv_run_once_def runnable_def Let_def)
qed

text \<open>With a fiber in the queue, the loop of \<open>suspend_until\<close> is left and the thread gets back to Boost.Fiber.\<close>

definition leave_loop :: "thread_event list" where
  "leave_loop = [Local Check, Local Decide, Local StopTimer, Local Exit]"

lemma leave_loop_runs:
  assumes "pc (sys R) = Returned" and "runnable R \<noteq> []"
  shows "\<exists>s. run (thread_step uv) R leave_loop = Some (R\<lparr>sys := s\<rparr>) \<and> pc s = Outside \<and> queue (sched s) = runnable R"
  using assms
  by (intro exI [of _ "finish_suspend (stop_timer (decide_loop True (should_wake_up (sched (sys R))) (check_loop (sys R))))"])
    (simp add: leave_loop_def check_loop_def decide_loop_def stop_timer_def finish_suspend_def suspend_exit_def runnable_def)

lemma resume_wakes:
  assumes "pc (sys R) = Outside" and "none_running R" and "runnable R = [g]" and "completed R g = Some e"
    and "io_step uv (objs R (place R g)) e = Some T" and "f \<in> set (woken (members R) (objs R (place R g)) T)"
  shows "\<exists>R'. thread_step uv R (Pick st) = Some R' \<and> f \<in> set (runnable R')"
  using assms by (simp add: pick_next_def resume_def run_op_def Let_def runnable_def awaken_all_def mark_ready_def set_status_def)

lemma closer_wakes:
  assumes inv: "thread_inv R" and pc: "pc (sys R) = Waiting" and g: "status R g = Blocked" "place R g = k" "io_completes e (objs R k) g"
    "io_actor e = Some g" and T: "io_step uv (objs R k) e = Some T" "f \<in> set (woken (members R) (objs R k) T)"
  shows "\<exists>R'. run (thread_step uv) R (UvReturn False False [(k, e)] # leave_loop @ [Pick st]) = Some R' \<and> f \<in> set (runnable R')"
proof -
  let ?R1 = "mark_ready [g] (R\<lparr>completed := (completed R)(g := Some e)\<rparr>)"
  have "deliver uv (k, e) R = Some (?R1, [g])" using g by (simp add: deliver_def)
  from uv_return [OF pc this] obtain s where s: "thread_step uv R (UvReturn False False [(k, e)]) = Some (?R1\<lparr>sys := s\<rparr>)"
      "pc s = Returned" "queue (sched s) = runnable R @ [g]" by blast
  have empty: "runnable R = []" using inv pc by (simp add: thread_inv_def sleep_ok_def runnable_def)
  then obtain t where t: "run (thread_step uv) (?R1\<lparr>sys := s\<rparr>) leave_loop = Some (?R1\<lparr>sys := t\<rparr>)" "pc t = Outside"
      "queue (sched t) = [g]"
    using leave_loop_runs [of "?R1\<lparr>sys := s\<rparr>" uv] s(2,3) by (auto simp: runnable_def)
  have "\<And>h. status R h \<noteq> Running" using inv pc by (auto simp: thread_inv_def)
  then have "none_running (?R1\<lparr>sys := t\<rparr>)" by (simp add: none_running_def list_all_iff mark_ready_def)
  then obtain R' where "thread_step uv (?R1\<lparr>sys := t\<rparr>) (Pick st) = Some R'" "f \<in> set (runnable R')"
    using resume_wakes [of "?R1\<lparr>sys := t\<rparr>" g e uv T f st] t(2,3) g T by (auto simp: runnable_def)
  then show ?thesis using s(1) t(1) by (simp add: run_append)
qed

section \<open>Properties\<close>

text \<open>
  C2. No wake-up is lost between the sockets and the scheduler: in every reachable state of a thread with any number of fibers
  and sockets, a fiber whose read has been notified, or whose request libuv has completed, is in the ready queue, exactly once; and while
  the thread waits in \<open>uv_run\<close>, there is no such fiber and the ready queue is empty.
\<close>

theorem no_wakeup_lost:
  assumes "reachable (thread_step uv) (thread_init junk) R"
  shows "(io_waits True (objs R k) f \<or> completed R f \<noteq> None \<longrightarrow> f \<in> set (runnable R)) \<and>
    distinct (runnable R) \<and>
    (pc (sys R) = Waiting \<longrightarrow> runnable R = [] \<and> \<not> io_waits True (objs R k) f \<and> completed R f = None)"
proof -
  have inv: "thread_inv R" using assms by (rule threads.reachable_inv)
  then have c: "core R (runnable R) {}" and ok: "fiber_ok R f" by (simp_all add: thread_inv_def core_def)
  have wake: "f \<in> set (runnable R)" if "io_waits True (objs R k) f \<or> completed R f \<noteq> None"
  proof -
    have "status R f = Ready"
      using that ok objects.waits_busy [of True "objs R k" f] by (auto simp: fiber_ok_def)
    then show ?thesis using c by (simp add: core_def)
  qed
  moreover have "runnable R = []" if "pc (sys R) = Waiting"
    using inv that by (simp add: thread_inv_def sleep_ok_def runnable_def)
  ultimately show ?thesis using c by (auto simp: core_def)
qed

text \<open>
  C3. A fiber that is ready gets to run in its turn: from any reachable state in which fiber \<open>f\<close> is at position \<open>i\<close> of the ready
  queue, after any run with \<open>i\<close> picks in it - whatever else the fibers, the callbacks, the timer and other threads did meanwhile -
  it is the next one, and as soon as the thread is outside \<open>suspend_until\<close> with no fiber running, \<open>pick_next\<close> is enabled and
  resumes it: it runs, or blocks in the next wait of the operation it is in, and the completion it had is taken.
\<close>

theorem ready_fiber_progress:
  assumes "reachable (thread_step uv) (thread_init junk) R" and "i < length (runnable R)" and "runnable R ! i = f"
    and "run (thread_step uv) R es = Some R1" and "picks es = i"
  shows "runnable R1 \<noteq> [] \<and> hd (runnable R1) = f \<and>
    (pc (sys R1) = Outside \<and> none_running R1 \<longrightarrow>
       (\<exists>R2. thread_step uv R1 (Pick st) = Some R2 \<and> (status R2 f = Running \<or> status R2 f = Blocked) \<and> completed R2 f = None))"
proof -
  have inv: "thread_inv R" using assms(1) by (rule threads.reachable_inv)
  have inv1: "thread_inv R1" using threads.run_inv [OF inv assms(4)] .
  obtain gs where "runnable R1 = drop i (runnable R) @ gs" using run_queue [OF inv assms(4)] assms(2,5) by auto
  then obtain q where q: "runnable R1 = f # q" using assms(2,3) Cons_nth_drop_Suc [OF assms(2)] by (metis append_Cons)
  let ?R = "R1\<lparr>sys := (sys R1)\<lparr>sched := snd (pick_next (sched (sys R1)))\<rparr>\<rparr>"
  have f: "fiber_ok R1 f" "status R1 f = Ready" using inv1 q by (auto simp: thread_inv_def core_def)
  then have "fiber_ok ?R f" by (simp add: fiber_ok_def)
  then obtain R2 where R2: "resume uv st f ?R = Some R2" using resume_enabled by blast
  have "(status R2 f = Running \<or> status R2 f = Blocked) \<and> completed R2 f = None"
    using resume_runs [OF R2] .
  then show ?thesis using q R2 by (auto simp: pick_next_def runnable_def split: list.splits)
qed

text \<open>
  C4. A thread does not deadlock: while it sleeps in \<open>uv_run\<close>, every fiber that is blocked can still be woken, unless it is in
  \<open>accept\<close> on a socket on which \<open>listen\<close> has not succeeded and that nobody is closing. There is a callback that libuv can run next, for the very
  socket the fiber is blocked on, that puts the fiber into the ready queue, or that does so for a fiber that is
  closing the socket, whose resumption then puts it there. This holds for the fibers in \<open>connect\<close>, \<open>read\<close>, \<open>write\<close>,
  \<open>accept\<close> and \<open>close\<close>, of sockets and listening sockets, in any number.
\<close>

theorem no_deadlock:
  assumes "reachable (thread_step uv) (thread_init junk) R" and "pc (sys R) = Waiting" and "status R f = Blocked"
    and "io_live (objs R (place R f))"
  shows "\<exists>e es R'. (es = [] \<or> es = leave_loop @ [Pick st]) \<and>
    run (thread_step uv) R (UvReturn False False [(place R f, e)] # es) = Some R' \<and> f \<in> set (runnable R')"
proof -
  let ?X = "objs R (place R f)"
  have inv: "thread_inv R" using assms(1) by (rule threads.reachable_inv)
  then have c: "core R (runnable R) {}" and empty: "runnable R = []"
    using assms(2) by (auto simp: thread_inv_def sleep_ok_def runnable_def)
  have ok: "fiber_ok R g" for g using c by (simp add: core_def)
  have f: "io_inv ?X" "\<not> io_free ?X f" "\<not> io_waits True ?X f" "f \<in> set (members R)"
    using inv ok [of f] assms(3) c by (auto simp: thread_inv_def fiber_ok_def core_def)
  have blocked: "status R g = Blocked \<and> place R g = place R f" if "\<not> io_free ?X g" for g
    using ok [of g] c empty that by (auto simp: fiber_ok_def core_def)
  have direct: ?thesis if d: "deliver uv (place R f, e) R = Some (R1, gs)" "f \<in> set gs" for e R1 gs
  proof -
    obtain s where "thread_step uv R (UvReturn False False [(place R f, e)]) = Some (R1\<lparr>sys := s\<rparr>)"
        "queue (sched s) = runnable R @ gs"
      using uv_return [OF assms(2) d(1)] by blast
    then show ?thesis
      using d(2) by (intro exI [of _ e] exI [of _ "[]"] exI [of _ "R1\<lparr>sys := s\<rparr>"])
        (simp add: runnable_def del: thread_step.simps)
  qed
  obtain e where "(io_actor e = Some f \<and> io_completes e ?X f) \<or> io_waits False ?X f \<and>
      (\<exists>T. io_step uv ?X e = Some T \<and> io_waits True T f \<and> (\<forall>g. io_actor e = Some g \<longrightarrow> io_completes e ?X g))"
    using objects.can_be_woken [OF f(1-3) assms(4)] by blast
  then consider "io_actor e = Some f" "io_completes e ?X f"
    | T where "io_step uv ?X e = Some T" "f \<in> set (woken (members R) ?X T)" "\<forall>g. io_actor e = Some g \<longrightarrow> io_completes e ?X g"
    using f(4) by (auto simp: woken_def)
  then show ?thesis
  proof cases
    case 1
    then show ?thesis using direct [of e _ "[f]"] assms(3) by (simp add: deliver_def)
  next
    case (2 T)
    show ?thesis
    proof (cases "io_actor e")
      case None
      then show ?thesis using direct [of e _ "woken (members R) ?X T"] 2 by (simp add: deliver_def Let_def)
    next
      case (Some g)
      then have g: "io_completes e ?X g" using 2(3) by blast
      from closer_wakes [OF inv assms(2) _ _ g Some 2(1,2)] blocked objects.completes_busy [OF g] show ?thesis by blast
    qed
  qed
qed

text \<open>A run: fiber 1 reads on socket 0 and blocks; the thread goes to sleep; libuv delivers five bytes; fiber 1 is picked.\<close>

definition read_run :: "thread_event list" where
  "read_run = [Spawn 1, Pick 0, Op (Sock_id 0) (On_sock (Read 1 7 8 0)), Local (Suspend time_point_max), Local (AfterEnter 0),
     UvReturn False False [(Sock_id 0, On_sock (ReadCb 5))]]"

lemmas thread_eval = thread_init_def object_init_def sock_free_def sock_waits_def sched_init_def scheduler_new_def sock_init_def socket_impl_new_def awaken_all_def mark_ready_def
  awakened_def set_status_def run_op_def resume_def deliver_def woken_def none_running_def runnable_def pick_next_def
  begin_suspend_def suspend_enter_def after_enter_def is_max_time_def uv_run_once_def read_call_def read_begin_def set_pc_def can_call_def
  read_callback_step_def read_callback_def on_read_finished_def notify_all_def check_uv_status_def

lemma read_run_ends:
  "\<exists>R. run (thread_step linux_uv) (thread_init 0) read_run = Some R \<and> io_waits True (objs R (Sock_id 0)) 1 \<and> runnable R = [1] \<and>
     pc (sys R) = Returned"
  by (simp add: read_run_def thread_eval Let_def fun_upd_def cong: if_cong)

theorem no_wakeup_lost_witness:
  "\<exists>R. reachable (thread_step linux_uv) (thread_init 0) R \<and> io_waits True (objs R (Sock_id 0)) 1 \<and> 1 \<in> set (runnable R) \<and>
     pc (sys R) \<noteq> Waiting"
proof -
  obtain R where R: "run (thread_step linux_uv) (thread_init 0) read_run = Some R" "io_waits True (objs R (Sock_id 0)) 1"
    using read_run_ends by blast
  have r: "reachable (thread_step linux_uv) (thread_init 0) R" by (rule run_reachable) (rule R(1))
  then show ?thesis using no_wakeup_lost [OF r, of "Sock_id 0" 1] R(2) by blast
qed

text \<open>Fibers 1 and 2 are spawned; fiber 1 runs, yields and is queued behind fiber 2, which is next.\<close>

definition yield_run :: "thread_event list" where
  "yield_run = [Spawn 1, Spawn 2]"

lemma yield_run_ends:
  "\<exists>R R1. run (thread_step linux_uv) (thread_init 0) yield_run = Some R \<and> runnable R = [1, 2] \<and>
     run (thread_step linux_uv) R [Pick 0, Yield 1] = Some R1 \<and> pc (sys R1) = Outside \<and> none_running R1"
  by (simp add: yield_run_def thread_eval Let_def fun_upd_def cong: if_cong)

theorem ready_fiber_progress_witness:
  "\<exists>R R1 R2. reachable (thread_step linux_uv) (thread_init 0) R \<and> runnable R ! 1 = 2 \<and>
     run (thread_step linux_uv) R [Pick 0, Yield 1] = Some R1 \<and> thread_step linux_uv R1 (Pick 0) = Some R2 \<and>
     (status R2 2 = Running \<or> status R2 2 = Blocked)"
proof -
  obtain R R1 where r: "run (thread_step linux_uv) (thread_init 0) yield_run = Some R" and q: "runnable R = [1, 2]"
    and r1: "run (thread_step linux_uv) R [Pick 0, Yield 1] = Some R1" and o1: "pc (sys R1) = Outside" "none_running R1"
    using yield_run_ends by blast
  have R: "reachable (thread_step linux_uv) (thread_init 0) R" using r by (rule run_reachable)
  have "picks [Pick 0, Yield 1] = 1" by (simp add: picks_def)
  from ready_fiber_progress [OF R _ _ r1 this, of 2 0] q o1
  obtain R2 where "thread_step linux_uv R1 (Pick 0) = Some R2" "status R2 2 = Running \<or> status R2 2 = Blocked" by force
  moreover have "runnable R ! 1 = 2" using q by simp
  ultimately show ?thesis using R r1 by blast
qed

text \<open>Fiber 1 waits in \<open>accept\<close> while fiber 2 is closing the listening socket, and the thread sleeps.\<close>

definition accept_run :: "thread_event list" where
  "accept_run = [Spawn 1, Spawn 2, Pick 0, Op (Server_id 0) (On_server (Accept 1 0)), Pick 0,
     Op (Server_id 0) (On_server (SrvClose 2)), Local (Suspend time_point_max), Local (AfterEnter 0)]"

lemma accept_run_ends:
  "\<exists>R. run (thread_step linux_uv) (thread_init 0) accept_run = Some R \<and> status R 1 = Blocked \<and> place R 1 = Server_id 0 \<and>
     pc (sys R) = Waiting \<and> io_live (objs R (Server_id 0))"
  by (simp add: accept_run_def thread_eval srv_eval srv_free_def srv_waits_def srv_live_def Let_def fun_upd_def cong: if_cong)

theorem no_deadlock_witness:
  "\<exists>R e es R'. reachable (thread_step linux_uv) (thread_init 0) R \<and> status R 1 = Blocked \<and>
     run (thread_step linux_uv) R (UvReturn False False [(Server_id 0, e)] # es) = Some R' \<and> 1 \<in> set (runnable R')"
proof -
  obtain R where R: "run (thread_step linux_uv) (thread_init 0) accept_run = Some R" "status R 1 = Blocked"
      "place R 1 = Server_id 0" "pc (sys R) = Waiting" "io_live (objs R (Server_id 0))"
    using accept_run_ends by blast
  have r: "reachable (thread_step linux_uv) (thread_init 0) R" by (rule run_reachable) (rule R(1))
  from no_deadlock [OF r R(4,2), of 0] R(3,5) r R(2) show ?thesis by metis
qed

end
