(* ===== verification/Composition.thy ===== *)
theory Composition
  imports Runtime
begin

text \<open>
  What libuv may write to, in a thread of \<open>Runtime\<close> with any number of fibers and sockets: the invariant of a socket (who waits in \<open>read\<close>,
  with which buffer) and the one of the thread (who is suspended, and where) together.
\<close>

section \<open>Properties\<close>

lemma read_run_parts:
  "\<exists>R. run (thread_step linux_uv) (thread_init 0) (take 5 read_run) = Some R \<and>
     (\<exists>S. objs R (Sock_id 0) = Sock S \<and> uv_reading S)"
  by (simp add: read_run_def thread_eval Let_def fun_upd_def cong: if_cong)

text \<open>
  C5. libuv never writes to memory of a fiber that runs or has ended: in every reachable state of a thread, while libuv reads on a socket, the
  buffer it reads into is that of a fiber that is suspended in \<open>read\<close> on this very socket, so that the frame that holds the buffer is
  alive and nobody else uses it; it is the only fiber in \<open>read\<close> there.
\<close>

theorem read_target_is_suspended:
  assumes "reachable (thread_step uv) (thread_init junk) R" and "objs R (Sock_id k) = Sock S" and "uv_reading S"
  shows "\<exists>f. fibers S f = ReadWait (buf (impl S)) False \<and> status R f = Blocked \<and> place R f = Sock_id k \<and>
    f \<notin> set (runnable R) \<and> (\<forall>g. is_read_wait (fibers S g) \<longrightarrow> g = f)"
proof -
  have inv: "thread_inv R" using assms(1) by (rule threads.reachable_inv)
  then have c: "core R (runnable R) {}" by (simp add: thread_inv_def)
  have "io_inv (objs R (Sock_id k))" using inv by (simp add: thread_inv_def)
  then have s: "read_inv S" using assms(2) by (simp add: sock_inv_def)
  obtain f w where f: "fibers S f = ReadWait (buf (impl S)) w" using s assms(3) by (auto simp: read_inv_def)
  then have w: "\<not> w" using s assms(3) by (cases w) (auto simp: read_inv_def)
  have "io_waits False (objs R (Sock_id k)) f" using f w assms(2) by (simp add: sock_waits_def)
  moreover have "fiber_ok R f" using c by (simp add: core_def)
  ultimately have b: "status R f = Blocked" "place R f = Sock_id k" using woken_blocked by blast+
  have "f \<notin> set (runnable R)" using c b(1) by (auto simp: core_def)
  moreover have "g = f" if "is_read_wait (fibers S g)" for g using s f that by (auto simp: read_inv_def)
  ultimately show ?thesis using f w b by auto
qed

theorem read_target_is_suspended_witness:
  "\<exists>R S f. reachable (thread_step linux_uv) (thread_init 0) R \<and> objs R (Sock_id 0) = Sock S \<and> uv_reading S \<and>
     fibers S f = ReadWait (buf (impl S)) False \<and> status R f = Blocked"
proof -
  obtain R S where R: "run (thread_step linux_uv) (thread_init 0) (take 5 read_run) = Some R" "objs R (Sock_id 0) = Sock S" "uv_reading S"
    using read_run_parts by blast
  have r: "reachable (thread_step linux_uv) (thread_init 0) R" by (rule run_reachable) (rule R(1))
  from read_target_is_suspended [OF r R(2,3)] r R(2,3) show ?thesis by blast
qed

end
