(* ===== verification/Socket.thy ===== *)
theory Socket
  imports SocketImpl
begin

text \<open>
  The public \<open>socket\<close> of \<open>src/socket.cpp\<close> and the stream device of
  \<open>include/fiberio/iostream.hpp\<close>: loops over \<open>socket_impl::read\<close> by one fiber. What they need of a
  read is stated as the locale \<open>byte_source\<close>; the model's read on a connection whose arrivals are
  given is composed of the pieces of SocketImpl and shown to satisfy it.
\<close>

section \<open>Reading into a buffer\<close>

text \<open>
  A read returns \<open>None\<close> if it never completes (no data ever arrives), and otherwise an exception
  or the bytes that were stored at the given address. \<open>blit\<close> stores bytes in the caller's buffer.
\<close>

type_synonym 's reader = "'s \<Rightarrow> nat \<Rightarrow> ((exn + string) \<times> 's) option"

definition blit :: "'a list \<Rightarrow> nat \<Rightarrow> 'a list \<Rightarrow> 'a list" where
  "blit buffer pos bytes = take pos buffer @ bytes @ drop (pos + length bytes) buffer"

text \<open>
  \<open>socket::read_exactly\<close>: the loop, with the position of \<open>current_buf\<close> in the caller's buffer.
  The first argument bounds the number of reads; running out of it is \<open>None\<close>.
\<close>

fun read_exactly :: "nat \<Rightarrow> 's reader \<Rightarrow> 's \<Rightarrow> string \<Rightarrow> nat \<Rightarrow> nat \<Rightarrow> ((exn + unit) \<times> string \<times> 's) option"
where
  "read_exactly 0 rd s buffer pos bytes_left = None"
| "read_exactly (Suc fuel) rd s buffer pos bytes_left =
     (if bytes_left > 0 then
        (case rd s bytes_left of
           None \<Rightarrow> None
         | Some (Inl e, s') \<Rightarrow> Some (Inl e, buffer, s')
         | Some (Inr bytes, s') \<Rightarrow>
             read_exactly fuel rd s' (blit buffer pos bytes) (pos + length bytes)
               (bytes_left - length bytes))
      else Some (Inr (), buffer, s))"

text \<open>\<open>socket::read_string\<close>, in its C++17 form and in the older one.\<close>

definition read_string17 :: "'s reader \<Rightarrow> 's \<Rightarrow> nat \<Rightarrow> ((exn + string) \<times> 's) option" where
  "read_string17 rd s cnt =
     (let buffer = replicate cnt (CHR 0x00) in
      case rd s (length buffer) of
        None \<Rightarrow> None
      | Some (Inl e, s') \<Rightarrow> Some (Inl e, s')
      | Some (Inr bytes, s') \<Rightarrow>
          (let bytes_read = length bytes; filled = blit buffer 0 bytes in
           Some (Inr (if bytes_read < cnt then take bytes_read filled else filled), s')))"

definition read_string14 :: "'s reader \<Rightarrow> 's \<Rightarrow> nat \<Rightarrow> ((exn + string) \<times> 's) option" where
  "read_string14 rd s cnt =
     (let buffer = replicate cnt (CHR 0x00) in
      case rd s (length buffer) of
        None \<Rightarrow> None
      | Some (Inl e, s') \<Rightarrow> Some (Inl e, s')
      | Some (Inr bytes, s') \<Rightarrow>
          Some (Inr (take (length bytes) (blit buffer 0 bytes)), s'))"

definition read_string_exactly :: "nat \<Rightarrow> 's reader \<Rightarrow> 's \<Rightarrow> nat \<Rightarrow> ((exn + string) \<times> 's) option" where
  "read_string_exactly fuel rd s cnt =
     (case read_exactly fuel rd s (replicate cnt (CHR 0x00)) 0 cnt of
        None \<Rightarrow> None
      | Some (Inl e, buffer, s') \<Rightarrow> Some (Inl e, s')
      | Some (Inr _, buffer, s') \<Rightarrow> Some (Inr buffer, s'))"

section \<open>The stream device\<close>

record 's socket_device =
  dev_socket :: 's
  closed_in :: bool
  closed_out :: bool

definition socket_device_new :: "'s \<Rightarrow> 's socket_device" where
  "socket_device_new s = \<lparr>dev_socket = s, closed_in = False, closed_out = False\<rparr>"

fun device_read ::
    "nat \<Rightarrow> 's reader \<Rightarrow> ('s \<Rightarrow> bool) \<Rightarrow> 's \<Rightarrow> string \<Rightarrow> nat \<Rightarrow> nat \<Rightarrow> ((exn + nat) \<times> string \<times> 's) option"
where
  "device_read 0 rd opn s buffer bytes_read n = None"
| "device_read (Suc fuel) rd opn s buffer bytes_read n =
     (if opn s \<and> bytes_read < n then
        (case rd s (n - bytes_read) of
           None \<Rightarrow> None
         | Some (Inl e, s') \<Rightarrow> Some (Inl e, buffer, s')
         | Some (Inr bytes, s') \<Rightarrow>
             device_read fuel rd opn s' (blit buffer bytes_read bytes) (bytes_read + length bytes) n)
      else Some (Inr bytes_read, buffer, s))"

text \<open>\<open>write\<close> hands all bytes to \<open>socket::write\<close>, which returns once they are written or throws.\<close>

definition device_write ::
  "('s \<Rightarrow> string \<Rightarrow> (exn + unit) \<times> 's) \<Rightarrow> string \<Rightarrow> 's socket_device \<Rightarrow> (exn + nat) \<times> 's socket_device" where
  "device_write wr bytes d =
     (case wr (dev_socket d) bytes of
        (Inl e, s) \<Rightarrow> (Inl e, d\<lparr>dev_socket := s\<rparr>)
      | (Inr _, s) \<Rightarrow> (Inr (length bytes), d\<lparr>dev_socket := s\<rparr>))"

datatype openmode = Mode_in | Mode_out | Mode_other

definition device_close :: "('s \<Rightarrow> 's) \<Rightarrow> openmode \<Rightarrow> 's socket_device \<Rightarrow> 's socket_device" where
  "device_close close_socket mode d =
     (let d1 = (if mode = Mode_out then d\<lparr>closed_out := True\<rparr>
                else if mode = Mode_in then d\<lparr>closed_in := True\<rparr> else d)
      in if closed_in d1 \<and> closed_out d1 then d1\<lparr>dev_socket := close_socket (dev_socket d1)\<rparr> else d1)"

section \<open>A connection with given arrivals\<close>

text \<open>
  What reaches a connection, in order: chunks of data, end-of-file, or a read error. End-of-file comes with the
  statuses that \<open>uv_shutdown\<close> and its callback will report to the \<open>close\<close> that \<open>read\<close> then makes. libuv hands
  a chunk to the read callback as far as the buffer reaches and keeps the rest for the next read;
  for a buffer of length 0 it reports \<open>UV_ENOBUFS\<close> to the callback and keeps everything.
\<close>

datatype arrival = Data string | Eof int int | Fail int

record conn =
  sock :: socket_impl
  arrivals :: "arrival list"

definition conn_open :: "conn \<Rightarrow> bool" where
  "conn_open c = is_open (sock c)"

text \<open>
  How \<open>close\<close> ends when libuv reports \<open>status\<close> to the call of \<open>uv_shutdown\<close> and \<open>cb\<close> to its callback: it swallows a
  \<open>socket_closed_error\<close> of \<open>shutdown\<close> and passes every other exception on.
\<close>

definition shutdown_outcome :: "uv_lib \<Rightarrow> int \<Rightarrow> int \<Rightarrow> exn + unit" where
  "shutdown_outcome uv status cb =
     (case check_uv_status uv status of Inl e \<Rightarrow> Inl e | Inr _ \<Rightarrow> shutdown_callback uv cb)"

definition close_outcome :: "uv_lib \<Rightarrow> int \<Rightarrow> int \<Rightarrow> exn + unit" where
  "close_outcome uv status cb =
     (case shutdown_outcome uv status cb of Inl Socket_closed_error \<Rightarrow> Inr () | r \<Rightarrow> r)"

text \<open>
  One \<open>socket_impl::read\<close> by the only fiber that uses the socket, from the same pieces as the
  interleaved model: \<open>read_begin\<close> with a successful \<open>uv_read_start\<close>, the callback for the next
  arrival, the code after the wait, the nested \<open>close\<close> on end-of-file, whose exception leaves through the
  \<open>catch\<close> of \<open>read\<close>, and the return. \<open>bytes\<close> are those that libuv stored, \<open>r\<close> is how a nested \<open>close\<close> ends.
\<close>

definition finish_read :: "exn + unit \<Rightarrow> string \<Rightarrow> arrival list \<Rightarrow> socket_impl \<Rightarrow> (exn + string) \<times> conn" where
  "finish_read r bytes as s =
     (let (nxt, s1) = read_after_wait s in
      case nxt of
        Throw_read_failed \<Rightarrow> (Inl (Io_error ''read failed''), \<lparr>sock = read_catch s1, arrivals = as\<rparr>)
      | Close_then_return \<Rightarrow>
          (let s2 = s1\<lparr>closed := True\<rparr> in
           case r of
             Inl e \<Rightarrow> (Inl e, \<lparr>sock = read_catch s2, arrivals = as\<rparr>)
           | Inr _ \<Rightarrow> (let (n, s3) = read_return s2 in (Inr (take (unat n) bytes), \<lparr>sock = s3, arrivals = as\<rparr>)))
      | Return_len \<Rightarrow>
          (let (n, s2) = read_return s1 in (Inr (take (unat n) bytes), \<lparr>sock = s2, arrivals = as\<rparr>)))"

text \<open>
  The address \<open>b\<close> of the caller's buffer is 0 for a null pointer, which a caller can only pass with \<open>n = 0\<close> (as
  \<open>data()\<close> of an empty \<open>std::vector\<close> may be): the wait loop then ends at once, before any callback.
\<close>

definition conn_read_at :: "uv_lib \<Rightarrow> nat \<Rightarrow> conn reader" where
  "conn_read_at uv b c n =
     (case read_begin uv b (of_nat n) 0 (sock c) of
        (Inl e, s) \<Rightarrow> Some (Inl e, c\<lparr>sock := s\<rparr>)
      | (Inr _, s) \<Rightarrow>
          if \<not> wait_for_read_to_finish s then Some (finish_read (Inr ()) [] (arrivals c) s)
          else
            (case arrivals c of
               [] \<Rightarrow> None
             | a # as \<Rightarrow>
                 if n = 0 then Some (finish_read (Inr ()) [] (a # as) (read_callback uv (UV_ENOBUFS uv) s))
                 else
                   (case a of
                      Data bs \<Rightarrow>
                        (let bytes = take n bs in
                         Some (finish_read (Inr ()) bytes (if n < length bs then Data (drop n bs) # as else as)
                                 (read_callback uv (int (length bytes)) s)))
                    | Eof status cb \<Rightarrow>
                        Some (finish_read (close_outcome uv status cb) [] as (read_callback uv (UV_EOF uv) s))
                    | Fail err \<Rightarrow> Some (finish_read (Inr ()) [] as (read_callback uv err s)))))"

text \<open>A read into a buffer that exists; its address, here 1, does not matter (\<open>conn_read_address\<close> below).\<close>

definition conn_read :: "uv_lib \<Rightarrow> conn reader" where
  "conn_read uv = conn_read_at uv 1"

text \<open>The bytes that arrive before the end or an error, and whether the end comes next and the \<open>close\<close> there returns.\<close>

fun payload :: "arrival list \<Rightarrow> string" where
  "payload (Data bs # as) = bs @ payload as"
| "payload _ = []"

fun ends :: "uv_lib \<Rightarrow> arrival list \<Rightarrow> bool" where
  "ends uv (Data bs # as) = ends uv as"
| "ends uv (Eof status cb # as) = (close_outcome uv status cb = Inr ())"
| "ends uv _ = False"

fun work :: "arrival list \<Rightarrow> nat" where
  "work [] = 0"
| "work (Data bs # as) = Suc (length bs + work as)"
| "work (Eof status cb # as) = Suc (work as)"
| "work (Fail err # as) = Suc (work as)"

section \<open>The interface\<close>

lemma blit_blit:
  assumes "pos + length xs \<le> length buffer"
  shows "blit (blit buffer pos xs) (pos + length xs) ys = blit buffer pos (xs @ ys)"
proof -
  have "take pos buffer @ xs @ drop (pos + length xs) buffer = blit buffer pos xs"
    by (simp add: blit_def)
  moreover have "take (pos + length xs) (blit buffer pos xs) = take pos buffer @ xs"
    using assms by (simp add: blit_def)
  moreover have "drop (pos + length xs + length ys) (blit buffer pos xs) =
      drop (pos + length xs + length ys) buffer"
    using assms by (simp add: blit_def ac_simps)
  ultimately show ?thesis
    unfolding blit_def [of "blit buffer pos xs"] by (simp add: blit_def ac_simps)
qed

lemma length_blit [simp]: "pos + length xs \<le> length buffer \<Longrightarrow> length (blit buffer pos xs) = length buffer"
  by (simp add: blit_def)

lemma blit_Nil [simp]: "blit buffer pos [] = buffer"
  by (simp add: blit_def)

lemma blit_all: "length xs = length buffer \<Longrightarrow> blit buffer 0 xs = xs"
  by (simp add: blit_def)

text \<open>
  What the loops rely on: a closed source throws; an open one with bytes to come, or with its end
  to come, returns a prefix of what is to come, gets closer to the end, and is only closed when
  nothing was left.
\<close>

locale byte_source =
  fixes rd :: "'s reader" and opn :: "'s \<Rightarrow> bool" and rest :: "'s \<Rightarrow> string"
    and ended :: "'s \<Rightarrow> bool" and todo :: "'s \<Rightarrow> nat" and ok :: "'s \<Rightarrow> bool"
  assumes rd_closed: "ok s \<Longrightarrow> \<not> opn s \<Longrightarrow> rd s n = Some (Inl Socket_closed_error, s)"
    and rest_closed: "\<not> opn s \<Longrightarrow> rest s = []"
    and rd_data: "ok s \<Longrightarrow> opn s \<Longrightarrow> 0 < n \<Longrightarrow> rest s \<noteq> [] \<or> ended s \<Longrightarrow>
      \<exists>bytes s'. rd s n = Some (Inr bytes, s') \<and> length bytes \<le> n \<and> rest s = bytes @ rest s' \<and>
        ended s' = ended s \<and> todo s' < todo s \<and> ok s' \<and> (opn s' \<or> rest s = [])"
begin

lemma read_exactly_enough:
  assumes "ok s" and "opn s" and "n \<le> length (rest s)" and "todo s < fuel"
    and "pos + n \<le> length buffer"
  shows "\<exists>s'. read_exactly fuel rd s buffer pos n = Some (Inr (), blit buffer pos (take n (rest s)), s') \<and>
    rest s' = drop n (rest s) \<and> opn s' \<and> ok s' \<and> todo s' \<le> todo s"
  using assms
proof (induction fuel arbitrary: s buffer pos n)
  case 0
  then show ?case by simp
next
  case (Suc fuel)
  show ?case
  proof (cases "n = 0")
    case True
    with Suc.prems show ?thesis by simp
  next
    case False
    with Suc.prems have "0 < n" "rest s \<noteq> []" by auto
    with rd_data [OF Suc.prems(1,2), of n] obtain bytes s' where
      r: "rd s n = Some (Inr bytes, s')" "length bytes \<le> n" "rest s = bytes @ rest s'"
        "todo s' < todo s" "ok s'" "opn s'"
      by auto
    have le: "n - length bytes \<le> length (rest s')" using r(3) Suc.prems(3) by simp
    from Suc.IH [OF r(5,6) le, of "pos + length bytes" "blit buffer pos bytes"]
      r Suc.prems obtain s'' where
      "read_exactly fuel rd s' (blit buffer pos bytes) (pos + length bytes) (n - length bytes) =
        Some (Inr (), blit (blit buffer pos bytes) (pos + length bytes) (take (n - length bytes) (rest s')), s'')"
      "rest s'' = drop (n - length bytes) (rest s')" "opn s''" "ok s''" "todo s'' \<le> todo s'"
      by auto
    with False r Suc.prems(5) show ?thesis by (simp add: blit_blit)
  qed
qed

lemma read_exactly_ended:
  assumes "ok s" and "ended s" and "length (rest s) < n" and "Suc (todo s) < fuel"
    and "pos + n \<le> length buffer"
  shows "\<exists>s'. read_exactly fuel rd s buffer pos n =
      Some (Inl Socket_closed_error, blit buffer pos (rest s), s') \<and> \<not> opn s'"
  using assms
proof (induction fuel arbitrary: s buffer pos n)
  case 0
  then show ?case by simp
next
  case (Suc fuel)
  show ?case
  proof (cases "opn s")
    case False
    with Suc.prems rd_closed rest_closed show ?thesis by simp
  next
    case True
    with rd_data [OF Suc.prems(1), of n] Suc.prems obtain bytes s' where
      r: "rd s n = Some (Inr bytes, s')" "length bytes \<le> n" "rest s = bytes @ rest s'"
        "todo s' < todo s" "ok s'" "ended s'"
      by auto
    have lt: "length (rest s') < n - length bytes" using r(2,3) Suc.prems(3) by simp
    from Suc.IH [OF r(5,6) lt, of "pos + length bytes" "blit buffer pos bytes"]
      r Suc.prems obtain s'' where
      "read_exactly fuel rd s' (blit buffer pos bytes) (pos + length bytes) (n - length bytes) =
        Some (Inl Socket_closed_error, blit (blit buffer pos bytes) (pos + length bytes) (rest s'), s'')"
      "\<not> opn s''"
      by auto
    with r Suc.prems show ?thesis by (simp add: blit_blit)
  qed
qed

lemma device_read_ended:
  assumes "ok s" and "ended s" and "todo s < fuel" and "k \<le> n" and "n \<le> length buffer"
  shows "\<exists>s'. device_read fuel rd opn s buffer k n =
      Some (Inr (k + min (n - k) (length (rest s))), blit buffer k (take (n - k) (rest s)), s') \<and>
    rest s' = drop (n - k) (rest s) \<and> (length (rest s) < n - k \<longrightarrow> \<not> opn s')"
  using assms
proof (induction fuel arbitrary: s buffer k)
  case 0
  then show ?case by simp
next
  case (Suc fuel)
  show ?case
  proof (cases "opn s \<and> k < n")
    case False
    with Suc.prems(4) rest_closed [of s] show ?thesis by (cases "opn s") auto
  next
    case True
    with rd_data [OF Suc.prems(1), of "n - k"] Suc.prems obtain bytes s' where
      r: "rd s (n - k) = Some (Inr bytes, s')" "length bytes \<le> n - k" "rest s = bytes @ rest s'"
        "todo s' < todo s" "ok s'" "ended s'"
      by auto
    have f: "todo s' < fuel" and le: "k + length bytes \<le> n" and l: "length (blit buffer k bytes) = length buffer"
      using r(2,4) True Suc.prems(3,5) by auto
    from Suc.IH [OF r(5,6) f le, of "blit buffer k bytes"] l Suc.prems(5) obtain s'' where
      d: "device_read fuel rd opn s' (blit buffer k bytes) (k + length bytes) n =
        Some (Inr (k + length bytes + min (n - (k + length bytes)) (length (rest s'))),
          blit (blit buffer k bytes) (k + length bytes) (take (n - (k + length bytes)) (rest s')), s'')"
      "rest s'' = drop (n - (k + length bytes)) (rest s')"
      "length (rest s') < n - (k + length bytes) \<longrightarrow> \<not> opn s''"
      by auto
    have "blit (blit buffer k bytes) (k + length bytes) (take (n - (k + length bytes)) (rest s')) =
        blit buffer k (take (n - k) (rest s))"
      using r(2,3) True Suc.prems(5) by (subst blit_blit) (auto simp: diff_diff_left)
    moreover have "k + length bytes + min (n - (k + length bytes)) (length (rest s')) =
        k + min (n - k) (length (rest s))"
      using r(2,3) by simp
    ultimately show ?thesis using d r(1,2,3) True by (auto simp: diff_diff_left)
  qed
qed

end

section \<open>The modelled connection is a byte source\<close>

definition conn_rest :: "conn \<Rightarrow> string" where
  "conn_rest c = (if conn_open c then payload (arrivals c) else [])"

definition conn_ended :: "uv_lib \<Rightarrow> conn \<Rightarrow> bool" where
  "conn_ended uv c \<longleftrightarrow> conn_open c \<longrightarrow> ends uv (arrivals c)"

text \<open>No read in progress, and chunks that fit the callback's \<open>ssize_t\<close>.\<close>

fun fits :: "arrival \<Rightarrow> bool" where
  "fits (Data bs) \<longleftrightarrow> length bs < 2 ^ 63"
| "fits _ \<longleftrightarrow> True"

definition conn_ok :: "conn \<Rightarrow> bool" where
  "conn_ok c \<longleftrightarrow> \<not> reading (sock c) \<and> list_all fits (arrivals c)"

lemma close_outcome_ok [simp]: "0 \<le> status \<Longrightarrow> 0 \<le> cb \<Longrightarrow> close_outcome uv status cb = Inr ()"
  by (simp add: close_outcome_def shutdown_outcome_def)

text \<open>A waiting read does not look at the address of its buffer.\<close>

lemma conn_read_address: "b \<noteq> 0 \<Longrightarrow> conn_read_at uv b c n = conn_read uv c n"
proof -
  have "finish_read r bytes as (read_callback uv k (s\<lparr>reading := True, buf := b, len := l\<rparr>)) =
      finish_read r bytes as (read_callback uv k (s\<lparr>reading := True, buf := 1, len := l\<rparr>))" for r bytes as k s l
    by (simp add: read_callback_def on_read_finished_def)
  moreover assume "b \<noteq> 0"
  ultimately show ?thesis
    by (auto simp: conn_read_def conn_read_at_def read_begin_def wait_for_read_to_finish_def Let_def split: list.split arrival.split)
qed

lemma conn_read_begins:
  assumes "conn_ok c" and "conn_open c" and "b \<noteq> 0"
  shows "read_begin uv b sz 0 (sock c) = (Inr (), (sock c)\<lparr>reading := True, buf := b, len := sz\<rparr>)"
    and "wait_for_read_to_finish ((sock c)\<lparr>reading := True, buf := b, len := sz\<rparr>)"
  using assms by (auto simp: read_begin_def wait_for_read_to_finish_def conn_ok_def conn_open_def is_open_def)

lemma finish_read_count:
  assumes "length bytes < 2 ^ 63" and "\<not> closed s"
  shows "finish_read r bytes as (read_callback uv (int (length bytes)) s) =
    (Inr bytes, \<lparr>sock = s\<lparr>reading := False, buf := 0, len := word_of_nat (length bytes)\<rparr>, arrivals = as\<rparr>)"
proof -
  have "word_of_int (int (length bytes)) \<noteq> ERROR_EOF" "word_of_int (int (length bytes)) \<noteq> ERROR_READ_FAILED"
    using assms(1) count_is_no_error [of "int (length bytes)"] by auto
  moreover have "unat (word_of_nat (length bytes) :: 64 word) = length bytes"
    using assms(1) by (simp add: unat_of_nat)
  ultimately show ?thesis
    using assms(2) by (simp add: finish_read_def read_callback_def on_read_finished_def
        read_after_wait_def read_return_def Let_def)
qed

lemma finish_read_eof:
  assumes "uv_codes_ok uv"
  shows "\<exists>s'. finish_read r [] as (read_callback uv (UV_EOF uv) s) =
      (case r of Inl e \<Rightarrow> Inl e | Inr _ \<Rightarrow> Inr [], \<lparr>sock = s', arrivals = as\<rparr>) \<and> closed s' \<and> \<not> reading s'"
  using assms by (simp add: finish_read_def read_callback_def on_read_finished_def read_after_wait_def
      read_return_def read_catch_def uv_codes_ok_def Let_def split: sum.split)

lemma finish_read_fail:
  assumes "uv_codes_ok uv" and "err < 0" and "err \<noteq> UV_EOF uv"
  shows "finish_read r bytes as (read_callback uv err s) =
    (Inl (Io_error ''read failed''), \<lparr>sock = s\<lparr>buf := 0, len := ERROR_READ_FAILED, reading := False\<rparr>, arrivals = as\<rparr>)"
proof -
  have "ERROR_READ_FAILED \<noteq> ERROR_EOF" by (simp add: ERROR_READ_FAILED_def ERROR_EOF_def)
  with assms show ?thesis
    by (simp add: finish_read_def read_callback_def on_read_finished_def read_after_wait_def read_catch_def Let_def)
qed

lemma conn_read_data:
  assumes "conn_ok c" and "conn_open c" and "0 < n" and "arrivals c = Data bs # as"
  shows "\<exists>c'. conn_read uv c n = Some (Inr (take n bs), c') \<and> conn_open c' \<and> conn_ok c' \<and>
    arrivals c' = (if n < length bs then Data (drop n bs) # as else as)"
proof -
  let ?s = "(sock c)\<lparr>reading := True, buf := 1, len := of_nat n\<rparr>"
  have fit: "length (take n bs) < 2 ^ 63" using assms by (auto simp: conn_ok_def)
  have "\<not> closed ?s" using assms(2) by (simp add: conn_open_def is_open_def)
  from finish_read_count [OF fit this] conn_read_begins [OF assms(1,2), of 1] assms show ?thesis
    by (auto simp: conn_read_def conn_read_at_def conn_open_def conn_ok_def is_open_def)
qed

lemma conn_read_eof:
  assumes "uv_codes_ok uv" and "conn_ok c" and "conn_open c" and "0 < n" and "arrivals c = Eof status cb # as"
  shows "\<exists>c'. conn_read uv c n = Some (case close_outcome uv status cb of Inl e \<Rightarrow> Inl e | Inr _ \<Rightarrow> Inr [], c') \<and>
    \<not> conn_open c' \<and> conn_ok c' \<and> arrivals c' = as"
proof -
  let ?s = "(sock c)\<lparr>reading := True, buf := 1, len := of_nat n\<rparr>"
  from finish_read_eof [OF assms(1), of "close_outcome uv status cb" as ?s] conn_read_begins [OF assms(2,3), of 1] assms
  show ?thesis by (auto simp: conn_read_def conn_read_at_def conn_open_def conn_ok_def is_open_def)
qed

lemma conn_read_fail:
  assumes "uv_codes_ok uv" and "conn_ok c" and "conn_open c" and "0 < n" and "arrivals c = Fail err # as"
    and "err < 0" and "err \<noteq> UV_EOF uv"
  shows "\<exists>c'. conn_read uv c n = Some (Inl (Io_error ''read failed''), c') \<and> conn_open c' \<and> conn_ok c' \<and> arrivals c' = as"
  using finish_read_fail [OF assms(1,6,7)] conn_read_begins [OF assms(2,3), of 1] assms
  by (simp add: conn_read_def conn_read_at_def conn_open_def conn_ok_def is_open_def)

lemma conn_read_closed: "\<not> conn_open c \<Longrightarrow> conn_read uv c n = Some (Inl Socket_closed_error, c)"
  by (simp add: conn_read_def conn_read_at_def read_begin_def conn_open_def is_open_def)

lemma conn_read_progress:
  assumes "uv_codes_ok uv" and "conn_ok c" and "conn_open c" and "0 < n"
    and "conn_rest c \<noteq> [] \<or> conn_ended uv c"
  shows "\<exists>bytes c'. conn_read uv c n = Some (Inr bytes, c') \<and> length bytes \<le> n \<and>
    conn_rest c = bytes @ conn_rest c' \<and> conn_ended uv c' = conn_ended uv c \<and>
    work (arrivals c') < work (arrivals c) \<and> conn_ok c' \<and> (conn_open c' \<or> conn_rest c = [])"
proof (cases "arrivals c")
  case Nil
  with assms show ?thesis by (simp add: conn_rest_def conn_ended_def)
next
  case (Cons a as)
  show ?thesis
  proof (cases a)
    case (Data bs)
    with conn_read_data [OF assms(2-4)] Cons obtain c' where
      "conn_read uv c n = Some (Inr (take n bs), c')" "conn_open c'" "conn_ok c'"
      "arrivals c' = (if n < length bs then Data (drop n bs) # as else as)"
      by blast
    with assms(3,4) Cons Data show ?thesis by (auto simp: conn_rest_def conn_ended_def)
  next
    case (Eof status cb)
    with assms(3,5) Cons have "close_outcome uv status cb = Inr ()" by (simp add: conn_rest_def conn_ended_def)
    with conn_read_eof [OF assms(1-4)] Cons Eof obtain c' where
      "conn_read uv c n = Some (Inr [], c')" "\<not> conn_open c'" "conn_ok c'" "arrivals c' = as"
      by fastforce
    with assms(3,5) Cons Eof show ?thesis by (auto simp: conn_rest_def conn_ended_def)
  next
    case (Fail e)
    with assms Cons show ?thesis by (simp add: conn_rest_def conn_ended_def)
  qed
qed

interpretation conn_source: byte_source "conn_read uv" conn_open conn_rest "conn_ended uv"
    "\<lambda>c. work (arrivals c)" "\<lambda>c. uv_codes_ok uv \<and> conn_ok c" for uv
  by unfold_locales (use conn_read_closed conn_read_progress in \<open>auto simp: conn_rest_def\<close>)

section \<open>Properties\<close>

text \<open>
  C14. \<open>read_exactly\<close> fills the buffer with exactly the next bytes of the connection, however they
  are cut into arrivals: if at least \<open>n\<close> bytes arrive before the end of the stream, the loop
  terminates, the \<open>n\<close> bytes at \<open>pos\<close> are the first \<open>n\<close> that arrived and the rest of the buffer is
  untouched, the socket is still open, and the following bytes are left for the next read.
\<close>

theorem read_exactly_fills:
  assumes "uv_codes_ok uv" and "conn_ok c" and "conn_open c" and "n \<le> length (payload (arrivals c))"
    and "work (arrivals c) < fuel" and "pos + n \<le> length buffer"
  shows "\<exists>c'. read_exactly fuel (conn_read uv) c buffer pos n =
      Some (Inr (), blit buffer pos (take n (payload (arrivals c))), c') \<and>
    conn_open c' \<and> payload (arrivals c') = drop n (payload (arrivals c))"
proof -
  have r: "conn_rest c = payload (arrivals c)" using assms(3) by (simp add: conn_rest_def)
  from conn_source.read_exactly_enough [of uv c n fuel pos buffer] assms r obtain c' where
    "read_exactly fuel (conn_read uv) c buffer pos n = Some (Inr (), blit buffer pos (take n (payload (arrivals c))), c')"
    "conn_rest c' = drop n (payload (arrivals c))" "conn_open c'"
    by auto
  then show ?thesis by (simp add: conn_rest_def)
qed

definition example_conn :: conn where
  "example_conn = \<lparr>sock = socket_impl_new, arrivals = [Data ''test'', Data [], Data ''123456'', Eof 0 0]\<rparr>"

lemma example_conn: "conn_ok example_conn" "conn_open example_conn" "conn_ended uv example_conn"
  "payload (arrivals example_conn) = ''test123456''" "work (arrivals example_conn) = 14"
  by (simp_all add: example_conn_def conn_ok_def conn_open_def is_open_def socket_impl_new_def
      conn_ended_def)

theorem read_exactly_fills_witness:
  "\<exists>c'. read_exactly 20 (conn_read linux_uv) example_conn ''........'' 1 6 = Some (Inr (), ''.test12.'', c') \<and>
    conn_open c' \<and> payload (arrivals c') = ''3456''"
  using read_exactly_fills [OF linux_uv_codes_ok example_conn(1,2), of 6 20 1 "''........''"]
  by (simp add: example_conn blit_def)

text \<open>
  When the stream ends before \<open>n\<close> bytes have arrived and the \<open>close\<close> at its end returns, \<open>read_exactly\<close> terminates with
  \<open>socket_closed_error\<close>, the bytes that did arrive are in the buffer, and the socket is closed.
\<close>

theorem read_exactly_past_end:
  assumes "uv_codes_ok uv" and "conn_ok c" and "conn_open c" and "ends uv (arrivals c)"
    and "length (payload (arrivals c)) < n" and "Suc (work (arrivals c)) < fuel"
    and "pos + n \<le> length buffer"
  shows "\<exists>c'. read_exactly fuel (conn_read uv) c buffer pos n =
      Some (Inl Socket_closed_error, blit buffer pos (payload (arrivals c)), c') \<and> \<not> conn_open c'"
  using conn_source.read_exactly_ended [of uv c n fuel pos buffer] assms
  by (simp add: conn_rest_def conn_ended_def)

theorem read_exactly_past_end_witness:
  "\<exists>c'. read_exactly 20 (conn_read linux_uv) example_conn ''............'' 0 12 =
      Some (Inl Socket_closed_error, ''test123456..'', c') \<and> \<not> conn_open c'"
  using read_exactly_past_end [OF linux_uv_codes_ok example_conn(1,2), of 12 20 0 "''............''"]
  by (simp add: example_conn blit_def) (simp add: example_conn_def)

text \<open>
  The two forms of \<open>read_string\<close> (C++17 and older) are equivalent, and both return exactly the
  bytes of one \<open>read\<close>, or its exception.
\<close>

theorem read_string_is_read:
  "read_string17 rd s cnt = rd s cnt \<and> read_string14 rd s cnt = rd s cnt"
proof -
  have "take (length bytes) (blit buffer 0 bytes) = bytes" for bytes buffer :: string
    by (simp add: blit_def)
  moreover have "blit (replicate cnt (CHR 0x00)) 0 bytes = bytes" if "\<not> length bytes < cnt" for bytes
    using that by (simp add: blit_def)
  ultimately show ?thesis
    by (auto simp: read_string17_def read_string14_def Let_def split: option.splits sum.splits)
qed

text \<open>
  C37. The stream device delivers everything up to the end of the stream: on a connection whose
  end has arrived and where the \<open>close\<close> that \<open>read\<close> makes there returns, a device read of \<open>n\<close> bytes terminates without an exception, stores the first
  \<open>n\<close> bytes, or all of them when there are fewer, and returns how many; when there were fewer the
  socket is closed.
\<close>

theorem device_read_complete:
  assumes "uv_codes_ok uv" and "conn_ok c" and "conn_open c" and "ends uv (arrivals c)"
    and "work (arrivals c) < fuel" and "n \<le> length buffer"
  shows "\<exists>c'. device_read fuel (conn_read uv) conn_open c buffer 0 n =
      Some (Inr (min n (length (payload (arrivals c)))), blit buffer 0 (take n (payload (arrivals c))), c') \<and>
    (length (payload (arrivals c)) < n \<longrightarrow> \<not> conn_open c')"
  using conn_source.device_read_ended [of uv c fuel 0 n buffer] assms
  by (auto simp: conn_rest_def conn_ended_def)

theorem device_read_complete_witness:
  "\<exists>c'. device_read 20 (conn_read linux_uv) conn_open example_conn ''............'' 0 12 =
      Some (Inr 10, ''test123456..'', c') \<and> \<not> conn_open c'"
  using device_read_complete [OF linux_uv_codes_ok example_conn(1,2), of 20 12 "''............''"]
  by (simp add: example_conn blit_def) (simp add: example_conn_def numeral_eq_Suc)

lemma device_close_flags:
  "closed_in (fold (device_close cl) modes d) \<longleftrightarrow> closed_in d \<or> Mode_in \<in> set modes"
  "closed_out (fold (device_close cl) modes d) \<longleftrightarrow> closed_out d \<or> Mode_out \<in> set modes"
  by (induction modes arbitrary: d) (auto simp: device_close_def Let_def)

lemma device_close_socket:
  assumes "\<And>x. cl (cl x) = cl x"
  shows "(closed_in d \<and> closed_out d \<longrightarrow> dev_socket d = cl s) \<Longrightarrow>
    (\<not> (closed_in d \<and> closed_out d) \<longrightarrow> dev_socket d = s) \<Longrightarrow>
    dev_socket (fold (device_close cl) modes d) =
      (if closed_in (fold (device_close cl) modes d) \<and> closed_out (fold (device_close cl) modes d)
       then cl s else s)"
proof (induction modes arbitrary: d)
  case Nil
  then show ?case by auto
next
  case (Cons m modes)
  then show ?case
    by (cases m) (auto simp: device_close_def Let_def assms simp del: device_close_flags)
qed

text \<open>
  The stream device closes its socket when, and only when, both directions have been closed,
  in whatever order and however often Boost.Iostreams closes them, for an idempotent \<open>close\<close>.
\<close>

theorem device_closes_after_both:
  assumes "\<And>x. cl (cl x) = cl x"
  shows "dev_socket (fold (device_close cl) modes (socket_device_new s)) =
    (if Mode_in \<in> set modes \<and> Mode_out \<in> set modes then cl s else s)"
  using device_close_socket [OF assms, of "socket_device_new s" s modes]
  by (simp add: device_close_flags socket_device_new_def)

theorem device_closes_after_both_witness:
  "dev_socket (fold (device_close (\<lambda>s. s\<lparr>closed := True\<rparr>)) [Mode_in, Mode_other, Mode_out, Mode_in]
     (socket_device_new socket_impl_new)) = socket_impl_new\<lparr>closed := True\<rparr>"
  using device_closes_after_both [of "\<lambda>s. s\<lparr>closed := True\<rparr>" "[Mode_in, Mode_other, Mode_out, Mode_in]" socket_impl_new]
  by simp


section \<open>Empty buffers\<close>

text \<open>
  C16. What a read of 0 bytes does depends on the address of the empty buffer. If it is not null (\<open>data()\<close> of an
  empty \<open>std::string\<close>), then on an open connection with no other read, \<open>read\<close> and \<open>read_string\<close>
  throw \<open>io_error("read failed")\<close> as soon as anything arrives. If it is null (as \<open>data()\<close> of an empty
  \<open>std::vector\<close> may be, in the older form of \<open>read_string\<close>), they return 0 bytes at once, also if nothing ever arrives. Either way the
  connection stays open and nothing that arrived is lost. \<open>read_exactly\<close> and \<open>read_string_exactly\<close> of 0 bytes return at once
  without reading, whatever the address.
\<close>

theorem empty_read:
  assumes "uv_codes_ok uv" and "conn_ok c" and "conn_open c"
  shows "(b \<noteq> 0 \<and> arrivals c \<noteq> [] \<longrightarrow>
      (\<exists>c'. conn_read_at uv b c 0 = Some (Inl (Io_error ''read failed''), c') \<and>
        read_string17 (conn_read_at uv b) c 0 = Some (Inl (Io_error ''read failed''), c') \<and>
        read_string14 (conn_read_at uv b) c 0 = Some (Inl (Io_error ''read failed''), c') \<and>
        conn_open c' \<and> conn_ok c' \<and> arrivals c' = arrivals c)) \<and>
    (\<exists>c'. conn_read_at uv 0 c 0 = Some (Inr [], c') \<and> read_string14 (conn_read_at uv 0) c 0 = Some (Inr [], c') \<and>
      conn_open c' \<and> conn_ok c' \<and> arrivals c' = arrivals c) \<and>
    read_exactly (Suc fuel) (conn_read_at uv b) c buffer pos 0 = Some (Inr (), buffer, c) \<and>
    read_string_exactly (Suc fuel) (conn_read_at uv b) c 0 = Some (Inr [], c)"
proof (intro conjI impI)
  assume "b \<noteq> 0 \<and> arrivals c \<noteq> []"
  then obtain a as where b: "b \<noteq> 0" and a: "arrivals c = a # as" by (cases "arrivals c") auto
  have "UV_ENOBUFS uv < 0" "UV_ENOBUFS uv \<noteq> UV_EOF uv" using assms(1) by (auto simp: uv_codes_ok_def)
  note failed = finish_read_fail [OF assms(1) this] and begins = conn_read_begins [OF assms(2,3) b]
  obtain c' where "conn_read_at uv b c 0 = Some (Inl (Io_error ''read failed''), c')" "conn_open c'" "conn_ok c'"
      "arrivals c' = arrivals c"
    using assms(2,3) a by (simp add: conn_read_at_def begins failed) (simp add: conn_open_def conn_ok_def is_open_def)
  then show "\<exists>c'. conn_read_at uv b c 0 = Some (Inl (Io_error ''read failed''), c') \<and>
      read_string17 (conn_read_at uv b) c 0 = Some (Inl (Io_error ''read failed''), c') \<and>
      read_string14 (conn_read_at uv b) c 0 = Some (Inl (Io_error ''read failed''), c') \<and>
      conn_open c' \<and> conn_ok c' \<and> arrivals c' = arrivals c"
    by (intro exI [of _ c']) (simp add: read_string17_def read_string14_def)
next
  obtain c' where "conn_read_at uv 0 c 0 = Some (Inr [], c')" "conn_open c'" "conn_ok c'" "arrivals c' = arrivals c"
    using assms(2,3) by (simp add: conn_read_at_def read_begin_def wait_for_read_to_finish_def finish_read_def read_after_wait_def
        read_return_def conn_open_def conn_ok_def is_open_def ERROR_EOF_def ERROR_READ_FAILED_def Let_def)
  then show "\<exists>c'. conn_read_at uv 0 c 0 = Some (Inr [], c') \<and> read_string14 (conn_read_at uv 0) c 0 = Some (Inr [], c') \<and>
      conn_open c' \<and> conn_ok c' \<and> arrivals c' = arrivals c"
    by (intro exI [of _ c']) (simp add: read_string14_def)
qed (simp_all add: read_string_exactly_def)

theorem empty_read_witness:
  "(\<exists>c'. conn_read_at linux_uv 7 example_conn 0 = Some (Inl (Io_error ''read failed''), c') \<and>
     arrivals c' = arrivals example_conn) \<and>
   (\<exists>c'. conn_read_at linux_uv 0 example_conn 0 = Some (Inr [], c'))"
proof -
  have "arrivals example_conn \<noteq> []" by (simp add: example_conn_def)
  then show ?thesis using empty_read [OF linux_uv_codes_ok example_conn(1,2), of 7] by fastforce
qed

section \<open>A failing shutdown at the end of the stream\<close>

text \<open>
  C17. When the stream has ended and the \<open>close\<close> that \<open>read\<close> makes there fails, the caller sees the exception of \<open>uv_shutdown\<close>
  instead of the end of the stream: \<open>read\<close>, \<open>read_exactly\<close> and the stream device all throw it and store nothing, the socket is closed from then on, and every
  later read throws \<open>socket_closed_error\<close>. Such an exception is never \<open>socket_closed_error\<close> itself: that one \<open>close\<close> swallows.
\<close>

theorem failing_close_at_end:
  assumes "uv_codes_ok uv" and "conn_ok c" and "conn_open c" and "arrivals c = Eof status cb # as"
    and "close_outcome uv status cb = Inl e" and "0 < n"
  shows "\<exists>c'. conn_read uv c n = Some (Inl e, c') \<and>
    read_exactly (Suc fuel) (conn_read uv) c buffer pos n = Some (Inl e, buffer, c') \<and>
    device_read (Suc fuel) (conn_read uv) conn_open c buffer 0 n = Some (Inl e, buffer, c') \<and>
    \<not> conn_open c' \<and> (\<forall>m. conn_read uv c' m = Some (Inl Socket_closed_error, c')) \<and> e \<noteq> Socket_closed_error"
proof -
  obtain c' where c': "conn_read uv c n = Some (Inl e, c')" "\<not> conn_open c'"
    using conn_read_eof [OF assms(1-3,6,4)] assms(5) by auto
  moreover have "e \<noteq> Socket_closed_error"
    using assms(5) by (auto simp: close_outcome_def split: sum.splits exn.splits)
  ultimately show ?thesis using assms(3,6) conn_read_closed [of c'] by simp
qed

theorem failing_close_at_end_witness:
  "\<exists>c'. conn_read linux_uv (example_conn\<lparr>arrivals := [Eof 0 (- 32)]\<rparr>) 8 = Some (Inl (Uv_error (- 32)), c') \<and> \<not> conn_open c'"
proof -
  let ?c = "example_conn\<lparr>arrivals := [Eof 0 (- 32)]\<rparr>"
  have "conn_ok ?c" "conn_open ?c" using example_conn(1,2) by (simp_all add: conn_ok_def conn_open_def)
  moreover have "close_outcome linux_uv 0 (- 32) = Inl (Uv_error (- 32))"
    by (simp add: close_outcome_def shutdown_outcome_def check_uv_status_def linux_uv_def)
  ultimately show ?thesis
    using failing_close_at_end [OF linux_uv_codes_ok, of ?c 0 "- 32" "[]" "Uv_error (- 32)" 8 0 "[]" 0] by (simp del: read_exactly.simps device_read.simps) blast
qed

end
