(* ===== verification/SocketHandle.thy ===== *)
theory SocketHandle
  imports Socket ServerSocketImpl
begin

text \<open>
  The handle classes of the public interface: \<open>socket\<close> of \<open>src/socket.cpp\<close>, which shares its implementation
  object through a \<open>std::shared_ptr\<close>, and \<open>server_socket\<close> of \<open>src/server_socket.cpp\<close>, which owns its through a
  \<open>std::unique_ptr\<close>. The reference counts are explicit; the result is that an implementation object is
  destroyed, and so its \<open>close\<close> is run, exactly when the last handle to it goes. The argument is made once, in
  the locale \<open>handle_class\<close>, for any class of objects with steps of their own and a destructor.
\<close>

section \<open>Shared pointers\<close>

text \<open>
  A declared variable holds a pointer or, after it was moved from, none. \<open>uses\<close> is the count in the
  control block of an object. \<open>gone\<close> logs the destroyed objects: what the destructor met outside of the object (the statuses libuv reported
  to it, say), and the object before and after it ran.
\<close>

record ('d, 'i) handles =
  ptrs :: "nat \<Rightarrow> nat option option"
  uses :: "nat \<Rightarrow> nat"
  objs :: "nat \<Rightarrow> 'i option"
  fresh :: nat
  gone :: "(nat \<times> 'd \<times> 'i \<times> 'i) list"

definition handles_init :: "('d, 'i) handles" where
  "handles_init = \<lparr>ptrs = (\<lambda>_. None), uses = (\<lambda>_. 0), objs = (\<lambda>_. None), fresh = 0, gone = []\<rparr>"

definition set_ptr :: "nat \<Rightarrow> nat option option \<Rightarrow> ('d, 'i) handles \<Rightarrow> ('d, 'i) handles" where
  "set_ptr v p S = S\<lparr>ptrs := (ptrs S)(v := p)\<rparr>"

definition acquire :: "nat option \<Rightarrow> ('d, 'i) handles \<Rightarrow> ('d, 'i) handles" where
  "acquire p S = (case p of None \<Rightarrow> S | Some a \<Rightarrow> S\<lparr>uses := (uses S)(a := uses S a + 1)\<rparr>)"

definition release :: "('d \<Rightarrow> 'i \<Rightarrow> 'i) \<Rightarrow> 'd \<Rightarrow> nat option \<Rightarrow> ('d, 'i) handles \<Rightarrow> ('d, 'i) handles" where
  "release dtor d p S =
     (case p of
        None \<Rightarrow> S
      | Some a \<Rightarrow>
          let S1 = S\<lparr>uses := (uses S)(a := uses S a - 1)\<rparr> in
          if uses S1 a = 0
          then (case objs S1 a of
                  None \<Rightarrow> S1
                | Some i \<Rightarrow> S1\<lparr>objs := (objs S1)(a := None), gone := gone S1 @ [(a, d, i, dtor d i)]\<rparr>)
          else S1)"

text \<open>
  The special member functions of \<open>socket\<close>. A constructor declares a variable, the others need declared ones;
  \<open>std::shared_ptr\<close> assigns through a temporary, so that assigning a handle to itself is harmless.
\<close>

definition socket_adopt :: "nat \<Rightarrow> 'i \<Rightarrow> ('d, 'i) handles \<Rightarrow> ('d, 'i) handles option" where
  "socket_adopt v i S =
     (if ptrs S v \<noteq> None then None
      else Some (set_ptr v (Some (Some (fresh S)))
        (S\<lparr>objs := (objs S)(fresh S := Some i), uses := (uses S)(fresh S := 1), fresh := Suc (fresh S)\<rparr>)))"

definition socket_copy :: "nat \<Rightarrow> nat \<Rightarrow> ('d, 'i) handles \<Rightarrow> ('d, 'i) handles option" where
  "socket_copy v w S =
     (case ptrs S w of
        None \<Rightarrow> None
      | Some p \<Rightarrow> if ptrs S v \<noteq> None then None else Some (set_ptr v (Some p) (acquire p S)))"

definition socket_move :: "nat \<Rightarrow> nat \<Rightarrow> ('d, 'i) handles \<Rightarrow> ('d, 'i) handles option" where
  "socket_move v w S =
     (case ptrs S w of
        None \<Rightarrow> None
      | Some p \<Rightarrow> if ptrs S v \<noteq> None then None else Some (set_ptr v (Some p) (set_ptr w (Some None) S)))"

definition socket_assign :: "('d \<Rightarrow> 'i \<Rightarrow> 'i) \<Rightarrow> 'd \<Rightarrow> nat \<Rightarrow> nat \<Rightarrow> ('d, 'i) handles \<Rightarrow> ('d, 'i) handles option" where
  "socket_assign dtor d v w S =
     (case (ptrs S v, ptrs S w) of
        (Some p, Some q) \<Rightarrow> Some (release dtor d p (set_ptr v (Some q) (acquire q S)))
      | _ \<Rightarrow> None)"

definition socket_move_assign :: "('d \<Rightarrow> 'i \<Rightarrow> 'i) \<Rightarrow> 'd \<Rightarrow> nat \<Rightarrow> nat \<Rightarrow> ('d, 'i) handles \<Rightarrow> ('d, 'i) handles option" where
  "socket_move_assign dtor d v w S =
     (case ptrs S w of
        None \<Rightarrow> None
      | Some q \<Rightarrow>
          let S1 = set_ptr w (Some None) S in
          case ptrs S1 v of
            None \<Rightarrow> None
          | Some p \<Rightarrow> Some (release dtor d p (set_ptr v (Some q) S1)))"

definition socket_destroy :: "('d \<Rightarrow> 'i \<Rightarrow> 'i) \<Rightarrow> 'd \<Rightarrow> nat \<Rightarrow> ('d, 'i) handles \<Rightarrow> ('d, 'i) handles option" where
  "socket_destroy dtor d v S =
     (case ptrs S v of None \<Rightarrow> None | Some p \<Rightarrow> Some (release dtor d p (set_ptr v None S)))"

text \<open>
  A member function that forwards, \<open>impl_->op()\<close>: a step of the object (\<open>ostep\<close>); through a handle that was moved from it has no
  defined behaviour (\<open>None\<close>).
\<close>

definition socket_call :: "('i \<Rightarrow> 'e \<Rightarrow> 'i option) \<Rightarrow> nat \<Rightarrow> 'e \<Rightarrow> ('d, 'i) handles \<Rightarrow> ('d, 'i) handles option" where
  "socket_call ostep v e S =
     (case ptrs S v of
        Some (Some a) \<Rightarrow>
          (case objs S a of
             None \<Rightarrow> None
           | Some i \<Rightarrow> (case ostep i e of None \<Rightarrow> None | Some j \<Rightarrow> Some (S\<lparr>objs := (objs S)(a := Some j)\<rparr>)))
      | _ \<Rightarrow> None)"

text \<open>
  \<open>New\<close> stands for both constructors that make a handle to a new object: the default constructor and the one that \<open>accept\<close> uses on the
  object it has just made.
\<close>

datatype 'e handle_event =
    New nat
  | Copy nat nat
  | Move nat nat
  | Assign nat nat
  | MoveAssign nat nat
  | Destroy nat
  | Call nat 'e

fun handle_step ::
  "'i \<Rightarrow> ('i \<Rightarrow> 'e \<Rightarrow> 'i option) \<Rightarrow> ('d \<Rightarrow> 'i \<Rightarrow> 'i) \<Rightarrow> ('d, 'i) handles \<Rightarrow> 'd \<times> 'e handle_event \<Rightarrow> ('d, 'i) handles option"
where
  "handle_step mk ostep dtor S (d, New v) = socket_adopt v mk S"
| "handle_step mk ostep dtor S (d, Copy v w) = socket_copy v w S"
| "handle_step mk ostep dtor S (d, Move v w) = socket_move v w S"
| "handle_step mk ostep dtor S (d, Assign v w) = socket_assign dtor d v w S"
| "handle_step mk ostep dtor S (d, MoveAssign v w) = socket_move_assign dtor d v w S"
| "handle_step mk ostep dtor S (d, Destroy v) = socket_destroy dtor d v S"
| "handle_step mk ostep dtor S (d, Call v e) = socket_call ostep v e S"

section \<open>The two classes\<close>

text \<open>
  The destructors call \<open>close\<close> unless the object is closed. Fiber \<open>f\<close> runs it, \<open>status\<close> and \<open>cb\<close> are what \<open>uv_shutdown\<close> and its callback
  report; the pieces of \<open>close\<close> follow each other, since no handle leads to the object any more. If \<open>close\<close> throws, the fiber is left with the exception, which
  leaves a destructor and so ends the program.
\<close>

definition socket_impl_destroy :: "uv_lib \<Rightarrow> nat \<times> int \<times> int \<Rightarrow> sock_sys \<Rightarrow> sock_sys" where
  "socket_impl_destroy uv d S =
     (let (f, status, cb) = d in
      if closed (impl S) then S
      else
        let S1 = close_begin uv f By_user status S;
            S2 = (case fibers S1 f of Shutting c \<Rightarrow> shutdown_result f c (shutdown_callback uv cb) S1 | _ \<Rightarrow> S1)
        in case fibers S2 f of ClosingHandle c \<Rightarrow> close_end f c S2 | _ \<Rightarrow> S2)"

definition server_impl_destroy :: "nat \<Rightarrow> srv_sys \<Rightarrow> srv_sys" where
  "server_impl_destroy f S = (if srv_closed (srv S) then S else srv_close_end f (srv_close_begin f S))"

definition socket_step ::
  "uv_lib \<Rightarrow> (nat \<times> int \<times> int, sock_sys) handles \<Rightarrow> (nat \<times> int \<times> int) \<times> sock_event handle_event \<Rightarrow>
    (nat \<times> int \<times> int, sock_sys) handles option" where
  "socket_step uv = handle_step sock_init (sock_step uv) (socket_impl_destroy uv)"

text \<open>\<open>server_socket\<close> has a constructor, a move constructor, a destructor and forwarding members; it cannot be copied or assigned.\<close>

fun server_step ::
  "uv_lib \<Rightarrow> 16 word \<Rightarrow> (nat, srv_sys) handles \<Rightarrow> nat \<times> srv_event handle_event \<Rightarrow> (nat, srv_sys) handles option"
where
  "server_step uv junk S (f, New v) = socket_adopt v (srv_init junk) S"
| "server_step uv junk S (f, Move v w) = socket_move v w S"
| "server_step uv junk S (f, Destroy v) = socket_destroy server_impl_destroy f v S"
| "server_step uv junk S (f, Call v e) = socket_call (srv_step uv) v e S"
| "server_step uv junk S _ = None"

text \<open>
  What the destructors achieve, for an object \<open>i\<close> that becomes \<open>j\<close>: an object that was closed is left alone; otherwise the flag is set and, if \<open>close\<close>
  returns, the libuv handle is closed and reads from it have stopped, while if it throws, the handle stays open and the fiber has the exception.
\<close>

definition socket_impl_gone :: "uv_lib \<Rightarrow> nat \<times> int \<times> int \<Rightarrow> sock_sys \<Rightarrow> sock_sys \<Rightarrow> bool" where
  "socket_impl_gone uv d i j \<longleftrightarrow> sock_inv i \<and> closed (impl j) \<and>
     (if closed (impl i) then j = i
      else case d of (f, status, cb) \<Rightarrow>
        (case close_outcome uv status cb of
           Inr _ \<Rightarrow> handle j = Closed \<and> \<not> uv_reading j \<and> fibers j f = Finished Ok
         | Inl e \<Rightarrow> handle j = Open \<and> fibers j f = Finished (Threw e)))"

lemma socket_impl_destroy_gone: "sock_inv i \<Longrightarrow> socket_impl_gone uv d i (socket_impl_destroy uv d i)"
proof -
  assume inv: "sock_inv i"
  obtain f status cb where d: "d = (f, status, cb)" by (cases d)
  have sr: "shutdown_result f By_user r S = (case r of Inl Socket_closed_error \<Rightarrow> close_handle_begin f By_user S
      | Inl e \<Rightarrow> set_pc f (Finished (Threw e)) S | Inr _ \<Rightarrow> close_handle_begin f By_user S)" for r S
    by (simp add: shutdown_result_def close_throws_def split: sum.split exn.split)
  show ?thesis
  proof (cases "closed (impl i)")
    case True
    with inv d show ?thesis by (simp add: socket_impl_gone_def socket_impl_destroy_def)
  next
    case False
    with no_closers(4) [OF inv] have "handle i = Open" by simp
    with inv d False show ?thesis
      by (auto simp: socket_impl_gone_def socket_impl_destroy_def close_begin_def sr close_outcome_def shutdown_outcome_def
          close_handle_begin_def close_end_def close_returns_def notify_all_def Let_def split: sum.split exn.split)
  qed
qed

section \<open>Reference counts\<close>

definition holders :: "('d, 'i) handles \<Rightarrow> nat \<Rightarrow> nat set" where
  "holders S a = {v. ptrs S v = Some (Some a)}"

text \<open>
  \<open>counted S extra\<close>: every count is the number of variables that point to the object plus \<open>extra\<close>, the pointers that are
  held by temporaries.
\<close>

definition counted :: "('d, 'i) handles \<Rightarrow> (nat \<Rightarrow> nat) \<Rightarrow> bool" where
  "counted S extra \<longleftrightarrow>
     (\<forall>a. finite (holders S a) \<and> uses S a = card (holders S a) + extra a \<and>
          (objs S a \<noteq> None \<longleftrightarrow> uses S a > 0))"

definition no_extra :: "nat \<Rightarrow> nat" where
  "no_extra a = 0"

definition one_extra :: "nat option \<Rightarrow> nat \<Rightarrow> nat" where
  "one_extra p a = (if p = Some a then 1 else 0)"

text \<open>The log: every address is live, with a good object, or destroyed once, never both.\<close>

definition logged :: "('i \<Rightarrow> bool) \<Rightarrow> ('d \<Rightarrow> 'i \<Rightarrow> 'i \<Rightarrow> bool) \<Rightarrow> ('d, 'i) handles \<Rightarrow> bool" where
  "logged good final S \<longleftrightarrow>
     distinct (map fst (gone S)) \<and> (\<forall>a. a < fresh S \<longleftrightarrow> objs S a \<noteq> None \<or> a \<in> fst ` set (gone S)) \<and>
     (\<forall>a. \<not> (objs S a \<noteq> None \<and> a \<in> fst ` set (gone S))) \<and> 
     (\<forall>(a, d, i, j) \<in> set (gone S). final d i j) \<and> (\<forall>a i. objs S a = Some i \<longrightarrow> good i)"

lemma one_extra_None [simp]: "one_extra None = no_extra"
  by (simp add: one_extra_def no_extra_def fun_eq_iff)

lemma holders_set_ptr:
  "holders (set_ptr v p S) a = (if p = Some (Some a) then insert v (holders S a) else holders S a - {v})"
  by (auto simp: holders_def set_ptr_def)

lemma holders_frame [simp]:
  "holders (S\<lparr>uses := u\<rparr>) = holders S" "holders (S\<lparr>objs := ob\<rparr>) = holders S" "holders (S\<lparr>gone := g\<rparr>) = holders S"
  "holders (S\<lparr>fresh := n\<rparr>) = holders S"
  by (simp_all add: holders_def fun_eq_iff)

lemma handles_simps [simp]:
  "uses (set_ptr v p S) = uses S" "objs (set_ptr v p S) = objs S" "gone (set_ptr v p S) = gone S"
  "fresh (set_ptr v p S) = fresh S" "objs (acquire q S) = objs S" "gone (acquire q S) = gone S"
  "fresh (acquire q S) = fresh S" "ptrs (acquire q S) = ptrs S" "ptrs (set_ptr v p S) = (ptrs S)(v := p)"
  "holders (acquire q S) = holders S" "fresh (release dtor d q S) = fresh S" "ptrs (release dtor d q S) = ptrs S"
  by (auto simp: set_ptr_def acquire_def release_def holders_def Let_def split: option.split)

text \<open>Overwriting a variable turns the pointer it held into a temporary, and a temporary into its new pointer.\<close>

lemma counted_set_ptr:
  assumes "counted S (\<lambda>a. one_extra q a + x a)"
    and "ptrs S v = None \<and> p = None \<or> ptrs S v = Some p"
    and "q' = Some q \<or> q = None \<and> q' = None"
  shows "counted (set_ptr v q' S) (\<lambda>a. one_extra p a + x a)"
proof -
  have old: "v \<in> holders S a \<longleftrightarrow> p = Some a" for a using assms(2) by (auto simp: holders_def)
  have "finite (holders (set_ptr v q' S) a) \<and>
      card (holders (set_ptr v q' S) a) + one_extra p a = card (holders S a) + one_extra q a" for a
  proof -
    have fin: "finite (holders S a)" using assms(1) by (simp add: counted_def)
    then show ?thesis
      using old [of a] assms(3) card_Suc_Diff1 [OF fin, of v]
      by (auto simp: holders_set_ptr one_extra_def card_insert_if)
  qed
  with assms(1) show ?thesis by (simp add: counted_def)
qed

lemma temporaries: "counted S no_extra = counted S (\<lambda>a. one_extra None a + no_extra a)"
  by (simp add: no_extra_def [abs_def])

lemma counted_take_out:
  assumes "counted S no_extra" and "ptrs S v = Some p" and "q' = Some None \<or> q' = None"
  shows "counted (set_ptr v q' S) (\<lambda>a. one_extra p a + no_extra a)"
  by (rule counted_set_ptr [OF assms(1) [unfolded temporaries]]) (use assms in auto)

lemma counted_acquire:
  assumes "counted S x" and "p = None \<or> (\<exists>v. ptrs S v = Some p)"
  shows "counted (acquire p S) (\<lambda>a. one_extra p a + x a)"
proof (cases p)
  case None
  with assms show ?thesis by (simp add: acquire_def no_extra_def)
next
  case (Some b)
  then obtain v where "v \<in> holders S b" using assms(2) by (auto simp: holders_def)
  then have "card (holders S b) > 0" using assms(1) by (auto simp: counted_def card_gt_0_iff)
  with assms(1) Some show ?thesis by (auto simp: counted_def acquire_def one_extra_def holders_def)
qed

lemma counted_release:
  assumes "counted S (\<lambda>a. one_extra p a + x a)"
  shows "counted (release dtor d p S) x"
proof (cases p)
  case None
  with assms show ?thesis by (simp add: release_def no_extra_def)
next
  case (Some b)
  obtain i where "objs S b = Some i"
    using assms Some by (auto simp: counted_def one_extra_def split: if_splits)
  then show ?thesis
    using assms Some by (auto simp: counted_def release_def one_extra_def Let_def)
qed

lemma logged_release:
  assumes "logged good final S" and "\<And>i. good i \<Longrightarrow> final d i (dtor d i)"
  shows "logged good final (release dtor d p S)"
proof (cases "case p of None \<Rightarrow> None | Some b \<Rightarrow> objs S b")
  case None
  with assms(1) show ?thesis by (cases p) (simp_all add: release_def Let_def logged_def)
next
  case (Some i)
  then obtain b where b: "p = Some b" "objs S b = Some i" by (cases p) auto
  then have "b \<notin> fst ` set (gone S)" using assms(1) by (metis logged_def option.distinct(1))
  moreover have "final d i (dtor d i)" using assms b(2) by (simp add: logged_def)
  ultimately show ?thesis
    using assms(1) b unfolding logged_def release_def by (simp add: Let_def)
qed

lemma logged_frame [simp]:
  "logged good final (set_ptr v p S) = logged good final S" "logged good final (acquire q S) = logged good final S"
  by (simp_all add: logged_def)

section \<open>Lifetimes\<close>

locale handle_class =
  fixes mk :: 'i and ostep :: "'i \<Rightarrow> 'e \<Rightarrow> 'i option" and dtor :: "'d \<Rightarrow> 'i \<Rightarrow> 'i"
    and good :: "'i \<Rightarrow> bool" and final :: "'d \<Rightarrow> 'i \<Rightarrow> 'i \<Rightarrow> bool"
  assumes mk_good: "good mk"
    and ostep_good: "good i \<Longrightarrow> ostep i e = Some j \<Longrightarrow> good j"
    and dtor_final: "good i \<Longrightarrow> final d i (dtor d i)"
begin

definition handles_inv :: "('d, 'i) handles \<Rightarrow> bool" where
  "handles_inv S \<longleftrightarrow> counted S no_extra \<and> logged good final S"

lemma inv_init: "handles_inv handles_init"
  by (simp add: handles_inv_def counted_def logged_def handles_init_def holders_def no_extra_def)

lemma adopt_inv:
  assumes "handles_inv S" and "socket_adopt v mk S = Some T"
  shows "handles_inv T"
proof -
  have v: "ptrs S v = None" using assms(2) by (simp add: socket_adopt_def split: if_splits)
  have "objs S (fresh S) = None" using assms(1) by (auto simp: handles_inv_def logged_def)
  then have "finite (holders S (fresh S)) \<and> card (holders S (fresh S)) = 0"
    using assms(1) by (metis add_is_0 counted_def gr0I handles_inv_def)
  then have new: "holders S (fresh S) = {}" by (auto simp: card_eq_0_iff)
  have old: "v \<notin> holders S a" for a using v by (simp add: holders_def)
  let ?S = "S\<lparr>objs := (objs S)(fresh S := Some mk), uses := (uses S)(fresh S := 1), fresh := Suc (fresh S)\<rparr>"
  have "counted ?S (\<lambda>a. one_extra (Some (fresh S)) a + no_extra a)"
    using assms(1) new by (auto simp: handles_inv_def counted_def one_extra_def no_extra_def)
  then have "counted (set_ptr v (Some (Some (fresh S))) ?S) no_extra"
    unfolding temporaries by (rule counted_set_ptr) (simp_all add: v)
  moreover have "logged good final ?S"
    using assms(1) mk_good by (auto simp: handles_inv_def logged_def less_Suc_eq)
  ultimately show ?thesis
    using assms(2) v by (auto simp: handles_inv_def socket_adopt_def)
qed

text \<open>The other members: what a temporary holds in between is counted, too.\<close>

lemma copy_inv:
  assumes "handles_inv S" and "socket_copy v w S = Some T"
  shows "handles_inv T"
proof -
  obtain p where w: "ptrs S w = Some p" and v: "ptrs S v = None" and T: "T = set_ptr v (Some p) (acquire p S)"
    using assms(2) by (auto simp: socket_copy_def split: option.splits if_splits)
  have "counted (acquire p S) (\<lambda>a. one_extra p a + no_extra a)"
    by (rule counted_acquire) (use assms(1) w in \<open>auto simp: handles_inv_def\<close>)
  then have "counted T no_extra" unfolding T temporaries by (rule counted_set_ptr) (simp_all add: v)
  with assms(1) T show ?thesis by (simp add: handles_inv_def)
qed

lemma move_inv:
  assumes "handles_inv S" and "socket_move v w S = Some T"
  shows "handles_inv T"
proof -
  obtain p where w: "ptrs S w = Some p" and v: "ptrs S v = None" and T: "T = set_ptr v (Some p) (set_ptr w (Some None) S)"
    using assms(2) by (auto simp: socket_move_def split: option.splits if_splits)
  have "counted (set_ptr w (Some None) S) (\<lambda>a. one_extra p a + no_extra a)"
    by (rule counted_take_out) (use assms(1) w in \<open>simp_all add: handles_inv_def\<close>)
  then have "counted T no_extra" unfolding T temporaries by (rule counted_set_ptr) (use v w in auto)
  with assms(1) T show ?thesis by (simp add: handles_inv_def)
qed

lemma assign_inv:
  assumes "handles_inv S" and "socket_assign dtor d v w S = Some T"
  shows "handles_inv T"
proof -
  obtain p q where w: "ptrs S w = Some q" and v: "ptrs S v = Some p"
    and T: "T = release dtor d p (set_ptr v (Some q) (acquire q S))"
    using assms(2) by (auto simp: socket_assign_def split: option.splits if_splits)
  have "counted (acquire q S) (\<lambda>a. one_extra q a + no_extra a)"
    by (rule counted_acquire) (use assms(1) w in \<open>auto simp: handles_inv_def\<close>)
  then have "counted (set_ptr v (Some q) (acquire q S)) (\<lambda>a. one_extra p a + no_extra a)"
    by (rule counted_set_ptr) (simp_all add: v)
  then have "counted T no_extra" unfolding T by (rule counted_release)
  with assms(1) T dtor_final show ?thesis by (simp add: handles_inv_def logged_release)
qed

lemma move_assign_inv:
  assumes "handles_inv S" and "socket_move_assign dtor d v w S = Some T"
  shows "handles_inv T"
proof -
  obtain p q where w: "ptrs S w = Some q" and v: "ptrs (set_ptr w (Some None) S) v = Some p"
    and T: "T = release dtor d p (set_ptr v (Some q) (set_ptr w (Some None) S))"
    using assms(2) by (auto simp: socket_move_assign_def Let_def split: option.splits if_splits)
  have "counted (set_ptr w (Some None) S) (\<lambda>a. one_extra q a + no_extra a)"
    by (rule counted_take_out) (use assms(1) w in \<open>simp_all add: handles_inv_def\<close>)
  then have "counted (set_ptr v (Some q) (set_ptr w (Some None) S)) (\<lambda>a. one_extra p a + no_extra a)"
    by (rule counted_set_ptr) (use v in simp_all)
  then have "counted T no_extra" unfolding T by (rule counted_release)
  with assms(1) T dtor_final show ?thesis by (simp add: handles_inv_def logged_release)
qed

lemma destroy_inv:
  assumes "handles_inv S" and "socket_destroy dtor d v S = Some T"
  shows "handles_inv T"
proof -
  obtain p where v: "ptrs S v = Some p" and T: "T = release dtor d p (set_ptr v None S)"
    using assms(2) by (auto simp: socket_destroy_def split: option.splits)
  have "counted (set_ptr v None S) (\<lambda>a. one_extra p a + no_extra a)"
    by (rule counted_take_out) (use assms(1) v in \<open>simp_all add: handles_inv_def\<close>)
  then have "counted T no_extra" unfolding T by (rule counted_release)
  with assms(1) T dtor_final show ?thesis by (simp add: handles_inv_def logged_release)
qed

lemma call_inv:
  assumes "handles_inv S" and "socket_call ostep v e S = Some T"
  shows "handles_inv T"
proof -
  obtain a i j where i: "objs S a = Some i" "ostep i e = Some j" and T: "T = S\<lparr>objs := (objs S)(a := Some j)\<rparr>"
    using assms(2) by (auto simp: socket_call_def split: option.splits)
  have live: "(objs T b \<noteq> None) = (objs S b \<noteq> None)" for b using i T by simp
  have same: "holders T = holders S" "uses T = uses S" "gone T = gone S" "fresh T = fresh S" using T by simp_all
  have "good j" using ostep_good [OF _ i(2)] assms(1) i(1) by (simp add: handles_inv_def logged_def)
  then have "\<forall>b k. objs T b = Some k \<longrightarrow> good k" using T assms(1) by (simp add: handles_inv_def logged_def)
  then show ?thesis
    using assms(1) unfolding handles_inv_def counted_def logged_def live same by blast
qed

lemma step_inv: "handles_inv S \<Longrightarrow> handle_step mk ostep dtor S (d, e) = Some T \<Longrightarrow> handles_inv T"
  by (cases e) (auto intro: adopt_inv copy_inv move_inv assign_inv move_assign_inv destroy_inv call_inv)

text \<open>What the invariant says of lifetimes.\<close>

lemma inv_alive: "handles_inv S \<Longrightarrow> objs S a \<noteq> None \<longleftrightarrow> (\<exists>v. ptrs S v = Some (Some a))"
  by (auto simp: handles_inv_def counted_def no_extra_def holders_def card_gt_0_iff)

lemma inv_gone: "handles_inv S \<Longrightarrow> (a, d, i, j) \<in> set (gone S) \<Longrightarrow> final d i j"
  and inv_once: "handles_inv S \<Longrightarrow> distinct (map fst (gone S))"
  and inv_accounted: "handles_inv S \<Longrightarrow> a < fresh S \<Longrightarrow> objs S a \<noteq> None \<or> a \<in> fst ` set (gone S)"
  by (auto simp: handles_inv_def logged_def)

lemma inv_fresh: "handles_inv S \<Longrightarrow> objs S (fresh S) = None"
  unfolding handles_inv_def logged_def by blast

lemma inv_exclusive: "handles_inv S \<Longrightarrow> objs S a \<noteq> None \<Longrightarrow> a \<notin> fst ` set (gone S)"
  unfolding handles_inv_def logged_def by blast

end

interpretation sock: handle_class sock_init "sock_step uv" "socket_impl_destroy uv" sock_inv "socket_impl_gone uv" for uv
  by unfold_locales (auto intro: sock_inv_init sock_inv_step socket_impl_destroy_gone)

definition server_impl_gone :: "nat \<Rightarrow> srv_sys \<Rightarrow> srv_sys \<Rightarrow> bool" where
  "server_impl_gone f i j \<longleftrightarrow> srv_inv i \<and> srv_closed (srv j) \<and>
     (if srv_closed (srv i) then j = i else srv_handle j = Closed \<and> srv_fibers j f = Srv_finished Srv_ok)"

lemma server_impl_destroy_gone: "srv_inv i \<Longrightarrow> server_impl_gone f i (server_impl_destroy f i)"
  by (simp add: server_impl_gone_def server_impl_destroy_def srv_close_end_def srv_close_begin_def srv_notify_all_def srv_set_pc_def)

interpretation server: handle_class "srv_init junk" "srv_step uv" server_impl_destroy srv_inv server_impl_gone for uv junk
  by unfold_locales (auto intro: srv_inv_init srv_inv_step server_impl_destroy_gone)

interpretation sockets_alive: inductive_invariant "socket_step uv" handles_init "sock.handles_inv uv" for uv
proof
  show "sock.handles_inv uv T" if "sock.handles_inv uv S" "socket_step uv S e = Some T" for S e T
    using that by (cases e) (auto simp: socket_step_def intro: sock.step_inv)
qed (rule sock.inv_init)

text \<open>A server socket has at most one handle.\<close>

definition sole_owner :: "('d, 'i) handles \<Rightarrow> bool" where
  "sole_owner S \<longleftrightarrow> (\<forall>v w a. ptrs S v = Some (Some a) \<longrightarrow> ptrs S w = Some (Some a) \<longrightarrow> v = w)"

lemma release_sole: "sole_owner (release dtor d p S) = sole_owner S"
  by (simp add: sole_owner_def)

lemma adopt_sole:
  assumes "\<And>v. ptrs S v \<noteq> Some (Some (fresh S))" and "sole_owner S"
    and "socket_adopt v i S = Some T"
  shows "sole_owner T"
  using assms by (auto simp: sole_owner_def socket_adopt_def split: if_splits)

lemma move_sole: "sole_owner S \<Longrightarrow> socket_move v w S = Some T \<Longrightarrow> sole_owner T"
  by (auto simp: sole_owner_def socket_move_def split: if_splits option.splits)

lemma destroy_sole: "sole_owner S \<Longrightarrow> socket_destroy dtor d v S = Some T \<Longrightarrow> sole_owner T"
  by (auto simp: sole_owner_def socket_destroy_def split: if_splits option.splits)

lemma call_sole: "sole_owner S \<Longrightarrow> socket_call ostep v e S = Some T \<Longrightarrow> sole_owner T"
  by (auto simp: sole_owner_def socket_call_def split: if_splits option.splits)

lemma server_step_inv:
  assumes "server.handles_inv S \<and> sole_owner S" and "server_step uv junk S e = Some T"
  shows "server.handles_inv T \<and> sole_owner T"
proof -
  have "objs S (fresh S) = None" using assms(1) server.inv_fresh by blast
  then have unused: "ptrs S v \<noteq> Some (Some (fresh S))" for v using assms(1) server.inv_alive by blast
  show ?thesis
    using assms unused
    by (cases "(uv, junk, S, e)" rule: server_step.cases) (auto intro: server.adopt_inv server.move_inv server.destroy_inv server.call_inv
        adopt_sole move_sole destroy_sole call_sole)
qed

interpretation servers_alive: inductive_invariant "server_step uv junk" handles_init
  "\<lambda>S. server.handles_inv S \<and> sole_owner S" for uv junk
proof
  show "server.handles_inv handles_init \<and> sole_owner handles_init"
    using server.inv_init by (simp add: sole_owner_def) (simp add: handles_init_def)
qed (rule server_step_inv)

section \<open>Properties\<close>

text \<open>
  C10. A socket's implementation lives exactly as long as some handle refers to it, and its destructor closes it. After any
  sequence of constructions, copies, moves, assignments (also of a handle to itself), destructions and steps of the members, the objects that exist are those some handle
  points to, and every object made is alive or was destroyed once. The destructor of an object that was not closed ran all of \<open>close\<close>: the flag is set, and if \<open>close\<close> returns the
  libuv handle is closed, libuv reads no more from it, and \<open>f\<close>, the fiber that ran the destructor, goes on; if the shutdown fails otherwise than for lack of a connection, the handle stays open and the exception leaves the
  destructor in \<open>f\<close>. The destructor of an object that was closed does nothing.
\<close>

theorem socket_lifetime:
  assumes "reachable (socket_step uv) handles_init S"
  shows "(objs S a \<noteq> None \<longleftrightarrow> (\<exists>v. ptrs S v = Some (Some a))) \<and>
    (a < fresh S \<longrightarrow> objs S a \<noteq> None \<or> a \<in> fst ` set (gone S)) \<and>
    distinct (map fst (gone S)) \<and>
    ((a, (f, status, cb), i, j) \<in> set (gone S) \<longrightarrow>
       closed (impl j) \<and> (closed (impl i) \<longrightarrow> j = i) \<and>
       (\<not> closed (impl i) \<and> close_outcome uv status cb = Inr () \<longrightarrow>
          handle j = Closed \<and> \<not> uv_reading j \<and> fibers j f = Finished Ok) \<and>
       (\<forall>e. \<not> closed (impl i) \<and> close_outcome uv status cb = Inl e \<longrightarrow> handle j = Open \<and> fibers j f = Finished (Threw e)))"
proof -
  note inv = sockets_alive.reachable_inv [OF assms]
  have "(a, (f, status, cb), i, j) \<in> set (gone S) \<Longrightarrow> socket_impl_gone uv (f, status, cb) i j"
    by (rule sock.inv_gone [OF inv])
  then show ?thesis
    using sock.inv_alive [OF inv] sock.inv_accounted [OF inv] sock.inv_once [OF inv] by (auto simp: socket_impl_gone_def)
qed

definition handle_script :: "((nat \<times> int \<times> int) \<times> sock_event handle_event) list" where
  "handle_script = map (Pair (3, 0, 0))
     [New 1, Copy 2 1, Assign 1 1, Destroy 1, Call 2 (Write 5 0), Call 2 (WriteCb 5 0), Move 3 2, MoveAssign 3 3, Destroy 2, Destroy 3]"

lemma handle_script_runs:
  "\<exists>S i j. run (socket_step linux_uv) handles_init handle_script = Some S \<and> fresh S = 1 \<and> gone S = [(0, (3, 0, 0), i, j)] \<and> \<not> closed (impl i)"
  by (simp add: handle_script_def socket_step_def handles_init_def socket_adopt_def socket_copy_def socket_assign_def
      socket_destroy_def socket_move_def socket_move_assign_def socket_call_def set_ptr_def acquire_def release_def sock_init_def
      socket_impl_new_def can_call_def write_call_def promise_result_def set_pc_def)

theorem socket_lifetime_witness:
  "\<exists>S i j. reachable (socket_step linux_uv) handles_init S \<and> gone S = [(0, (3, 0, 0), i, j)] \<and> \<not> closed (impl i) \<and>
     closed (impl j) \<and> handle j = Closed \<and> fibers j 3 = Finished Ok"
proof -
  obtain S i j where S: "run (socket_step linux_uv) handles_init handle_script = Some S" "gone S = [(0, (3, 0, 0), i, j)]" "\<not> closed (impl i)"
    using handle_script_runs by blast
  have r: "reachable (socket_step linux_uv) handles_init S" by (rule run_reachable) (rule S(1))
  show ?thesis using socket_lifetime [OF r, of 0 3 0 0 i j] r S(2,3) by auto
qed

text \<open>
  A \<open>server_socket\<close> is the only owner of its implementation: after any sequence of constructions, moves, destructions and
  steps of the members no two handles refer to the same object, an object exists exactly if a handle refers to it, and the destructor of an object that was not closed
  has closed its libuv handle.
\<close>

theorem server_socket_unique:
  assumes "reachable (server_step uv junk) handles_init S"
  shows "(ptrs S v = Some (Some a) \<and> ptrs S w = Some (Some a) \<longrightarrow> v = w) \<and>
    (objs S a \<noteq> None \<longleftrightarrow> (\<exists>v. ptrs S v = Some (Some a))) \<and>
    ((a, f, i, j) \<in> set (gone S) \<longrightarrow> srv_closed (srv j) \<and> (srv_closed (srv i) \<longrightarrow> j = i) \<and>
       (\<not> srv_closed (srv i) \<longrightarrow> srv_handle j = Closed \<and> srv_fibers j f = Srv_finished Srv_ok))"
proof -
  have inv: "server.handles_inv S" "sole_owner S" using servers_alive.reachable_inv [OF assms] by blast+
  have "(a, f, i, j) \<in> set (gone S) \<Longrightarrow> server_impl_gone f i j"
    by (rule server.inv_gone [OF inv(1)])
  then show ?thesis
    using server.inv_alive [OF inv(1)] inv(2) by (auto simp: sole_owner_def server_impl_gone_def)
qed

theorem server_socket_unique_witness:
  "\<exists>S. reachable (server_step linux_uv 0) handles_init S \<and> ptrs S 2 = Some (Some 0) \<and> ptrs S 1 = Some None \<and> objs S 0 \<noteq> None"
proof -
  obtain S where S: "run (server_step linux_uv 0) handles_init [(7, New 1), (7, Move 2 1)] = Some S" "ptrs S 2 = Some (Some 0)"
      "ptrs S 1 = Some None"
    by (simp add: handles_init_def socket_adopt_def socket_move_def set_ptr_def)
  have r: "reachable (server_step linux_uv 0) handles_init S" by (rule run_reachable) (rule S(1))
  show ?thesis using server_socket_unique [OF r, of 2 0 2] r S by blast
qed

end
