(* ===== verification/Echo.thy ===== *)
theory Echo
  imports Socket
begin

text \<open>
  The example programs \<open>examples/fiber_echo_server.cpp\<close> and \<open>examples/fiber_echo_client.cpp\<close> on top of the socket model: the
  session loop of the server and the request loop of the client. The result: what is echoed is a prefix of what was received, all of it
  if no write fails, and the session ends with an exception, never by its loop condition.
\<close>

section \<open>Connections in both directions\<close>

text \<open>
  A connection with what was written to it. \<open>writes\<close> gives the statuses of \<open>uv_write\<close> and of its callback for the next writes; when
  the list is used up, writes succeed. \<open>sent\<close> holds the bytes of the writes that completed; what a failed write may have sent is not counted.
\<close>

record duplex =
  dconn :: conn
  sent :: string
  writes :: "(int \<times> int) list"

definition next_status :: "duplex \<Rightarrow> int \<times> int" where
  "next_status d = (case writes d of [] \<Rightarrow> (0, 0) | st # _ \<Rightarrow> st)"

definition conn_write :: "uv_lib \<Rightarrow> duplex \<Rightarrow> string \<Rightarrow> (exn + unit) \<times> duplex" where
  "conn_write uv d bytes =
     (if closed (sock (dconn d)) then (Inl Socket_closed_error, d)
      else
        let (status, cb) = next_status d; d1 = d\<lparr>writes := drop 1 (writes d)\<rparr> in
        case check_uv_status uv status of
          Inl e \<Rightarrow> (Inl e, d1)
        | Inr _ \<Rightarrow>
            (case write_callback uv cb of
               Inl e \<Rightarrow> (Inl e, d1)
             | Inr _ \<Rightarrow> (Inr (), d1\<lparr>sent := sent d1 @ bytes\<rparr>)))"

definition conn_close :: "uv_lib \<Rightarrow> int \<Rightarrow> int \<Rightarrow> duplex \<Rightarrow> (exn + unit) \<times> duplex" where
  "conn_close uv status cb d =
     (if closed (sock (dconn d)) then (Inr (), d)
      else (close_outcome uv status cb, d\<lparr>dconn := (dconn d)\<lparr>sock := (sock (dconn d))\<lparr>closed := True\<rparr>\<rparr>\<rparr>))"

section \<open>The server's session\<close>

text \<open>
  One iteration of the loop: \<open>read\<close> into \<open>buf\<close>, then \<open>write\<close> of as many bytes from it. The third component is the buffer.
\<close>

definition echo_turn :: "uv_lib \<Rightarrow> duplex \<Rightarrow> string \<Rightarrow> ((exn + unit) \<times> duplex \<times> string) option" where
  "echo_turn uv d buffer =
     (case conn_read uv (dconn d) (length buffer) of
        None \<Rightarrow> None
      | Some (Inl e, c) \<Rightarrow> Some (Inl e, d\<lparr>dconn := c\<rparr>, buffer)
      | Some (Inr bytes, c) \<Rightarrow>
          let filled = blit buffer 0 bytes;
              (r, d') = conn_write uv (d\<lparr>dconn := c\<rparr>) (take (length bytes) filled)
          in Some (r, d', filled))"

fun echo_session :: "nat \<Rightarrow> uv_lib \<Rightarrow> duplex \<Rightarrow> string \<Rightarrow> ((exn + unit) \<times> duplex) option" where
  "echo_session 0 uv d buffer = None"
| "echo_session (Suc fuel) uv d buffer =
     (if conn_open (dconn d) then
        (case echo_turn uv d buffer of
           None \<Rightarrow> None
         | Some (Inl e, d', _) \<Rightarrow> Some (Inl e, d')
         | Some (Inr _, d', buffer') \<Rightarrow> echo_session fuel uv d' buffer')
      else Some (Inr (), d))"

section \<open>The client's loop\<close>

text \<open>\<open>st\<close> holds the statuses for the \<open>close\<close> after the loop.\<close>

fun echo_client :: "nat \<Rightarrow> nat \<Rightarrow> uv_lib \<Rightarrow> int \<times> int \<Rightarrow> duplex \<Rightarrow> string \<Rightarrow> ((exn + unit) \<times> duplex \<times> string) option" where
  "echo_client 0 fuel uv st d buf2 = (let (r, d') = conn_close uv (fst st) (snd st) d in Some (r, d', buf2))"
| "echo_client (Suc n) fuel uv st d buf2 =
     (case conn_write uv d ''a'' of
        (Inl e, d') \<Rightarrow> Some (Inl e, d', buf2)
      | (Inr _, d') \<Rightarrow>
          (case read_exactly fuel (conn_read uv) (dconn d') buf2 0 (length buf2) of
             None \<Rightarrow> None
           | Some (Inl e, buf2', c) \<Rightarrow> Some (Inl e, d'\<lparr>dconn := c\<rparr>, buf2')
           | Some (Inr _, buf2', c) \<Rightarrow> echo_client n fuel uv st (d'\<lparr>dconn := c\<rparr>) buf2'))"

section \<open>Facts\<close>

definition writes_ok :: "duplex \<Rightarrow> bool" where
  "writes_ok d \<longleftrightarrow> list_all (\<lambda>(s, t). 0 \<le> s \<and> 0 \<le> t) (writes d)"

lemma conn_write_ok:
  assumes "writes_ok d" and "conn_open (dconn d)"
  shows "conn_write uv d bytes = (Inr (), d\<lparr>sent := sent d @ bytes, writes := drop 1 (writes d)\<rparr>)"
  using assms
  by (cases "writes d") (auto simp: conn_write_def next_status_def writes_ok_def conn_open_def is_open_def
      check_uv_status_def write_callback_def)

lemma conn_write_closed: "\<not> conn_open (dconn d) \<Longrightarrow> conn_write uv d bytes = (Inl Socket_closed_error, d)"
  by (simp add: conn_write_def conn_open_def is_open_def)

lemma writes_ok_drop [simp]: "writes_ok d \<Longrightarrow> writes_ok (d\<lparr>sent := s, writes := drop (Suc 0) (writes d)\<rparr>)"
  by (cases "writes d") (auto simp: writes_ok_def)

lemma writes_ok_dconn [simp]: "writes_ok (d\<lparr>dconn := c\<rparr>) = writes_ok d"
  by (simp add: writes_ok_def)

text \<open>A write is the operation of \<open>SocketImpl\<close>: the call, and the callback of the request if the call started one.\<close>

lemma conn_write_agrees:
  assumes "impl S = sock (dconn d)" and "can_call (fibers S f)" and "next_status d = (st, cb)"
  shows "\<exists>es T. run (sock_step uv) S (Write f st # es) = Some T \<and> set es \<subseteq> {WriteCb f cb} \<and> impl T = impl S \<and>
    fibers T f = Finished (case fst (conn_write uv d bytes) of Inl e \<Rightarrow> Threw e | Inr _ \<Rightarrow> Ok)"
proof (cases "closed (impl S) \<or> (\<exists>e. check_uv_status uv st = Inl e)")
  case True
  with assms have "\<exists>T. run (sock_step uv) S [Write f st] = Some T \<and> impl T = impl S \<and>
      fibers T f = Finished (case fst (conn_write uv d bytes) of Inl e \<Rightarrow> Threw e | Inr _ \<Rightarrow> Ok)"
    by (auto simp: write_call_def conn_write_def set_pc_def Let_def split: sum.splits)
  then show ?thesis by (intro exI [of _ "[]"]) simp
next
  case False
  then have "check_uv_status uv st = Inr ()" by (cases "check_uv_status uv st") auto
  with False assms have "\<exists>T. run (sock_step uv) S [Write f st, WriteCb f cb] = Some T \<and> impl T = impl S \<and>
      fibers T f = Finished (case fst (conn_write uv d bytes) of Inl e \<Rightarrow> Threw e | Inr _ \<Rightarrow> Ok)"
    by (auto simp: write_call_def conn_write_def set_pc_def promise_result_def Let_def split: sum.splits)
  then show ?thesis by (intro exI [of _ "[WriteCb f cb]"]) simp
qed

text \<open>A turn with bytes or the end of the stream to come.\<close>

lemma echo_turn_progress:
  assumes "uv_codes_ok uv" and "conn_ok (dconn d)" and "conn_open (dconn d)" and "buffer \<noteq> []" and "writes_ok d"
    and "payload (arrivals (dconn d)) \<noteq> [] \<or> ends uv (arrivals (dconn d))"
  shows "(\<exists>bytes d' buffer'. echo_turn uv d buffer = Some (Inr (), d', buffer') \<and> length buffer' = length buffer \<and>
      payload (arrivals (dconn d)) = bytes @ payload (arrivals (dconn d')) \<and> sent d' = sent d @ bytes \<and>
      ends uv (arrivals (dconn d')) = ends uv (arrivals (dconn d)) \<and> work (arrivals (dconn d')) < work (arrivals (dconn d)) \<and>
      conn_ok (dconn d') \<and> conn_open (dconn d') \<and> writes_ok d') \<or>
    payload (arrivals (dconn d)) = [] \<and>
    (\<exists>d' buffer'. echo_turn uv d buffer = Some (Inl Socket_closed_error, d', buffer') \<and> sent d' = sent d \<and> \<not> conn_open (dconn d'))"
proof -
  let ?c = "dconn d"
  have "conn_rest ?c \<noteq> [] \<or> conn_ended uv ?c" using assms(3,6) by (auto simp: conn_rest_def conn_ended_def)
  then obtain bytes c' where r: "conn_read uv ?c (length buffer) = Some (Inr bytes, c')" "length bytes \<le> length buffer"
      "conn_rest ?c = bytes @ conn_rest c'" "conn_ended uv c' = conn_ended uv ?c" "work (arrivals c') < work (arrivals ?c)"
      "conn_ok c'" "conn_open c' \<or> conn_rest ?c = []"
    using conn_read_progress [OF assms(1-3), of "length buffer"] assms(4) by auto
  have filled: "take (length bytes) (blit buffer 0 bytes) = bytes" "length (blit buffer 0 bytes) = length buffer"
    using r(2) by (simp_all add: blit_def)
  show ?thesis
  proof (cases "conn_open c'")
    case True
    have "echo_turn uv d buffer = Some (Inr (), d\<lparr>dconn := c', sent := sent d @ bytes, writes := drop 1 (writes d)\<rparr>,
        blit buffer 0 bytes)"
      using r(1) filled conn_write_ok [of "d\<lparr>dconn := c'\<rparr>" uv bytes] True assms(5) by (simp add: echo_turn_def)
    moreover have "payload (arrivals ?c) = bytes @ payload (arrivals c')" "ends uv (arrivals c') = ends uv (arrivals ?c)"
      using r(3,4) True assms(3) by (simp_all add: conn_rest_def conn_ended_def)
    moreover have "writes_ok (d\<lparr>dconn := c', sent := sent d @ bytes, writes := drop 1 (writes d)\<rparr>)"
      using writes_ok_drop [of "d\<lparr>dconn := c'\<rparr>"] assms(5) by simp
    ultimately show ?thesis using r(5,6) True filled(2)
      by (intro disjI1) (rule exI [of _ bytes], rule exI, rule exI [of _ "blit buffer 0 bytes"], auto)
  next
    case False
    then have "conn_rest ?c = []" "bytes = []" using r(3,7) by simp_all
    then show ?thesis
      using r(1) conn_write_closed [of "d\<lparr>dconn := c'\<rparr>" uv] False assms(3)
      by (auto simp: echo_turn_def conn_rest_def)
  qed
qed

lemma echo_session_all:
  assumes "uv_codes_ok uv" and "conn_ok (dconn d)" and "conn_open (dconn d)" and "buffer \<noteq> []" and "writes_ok d"
    and "ends uv (arrivals (dconn d))" and "work (arrivals (dconn d)) < fuel"
  shows "\<exists>d'. echo_session fuel uv d buffer = Some (Inl Socket_closed_error, d') \<and>
    sent d' = sent d @ payload (arrivals (dconn d)) \<and> \<not> conn_open (dconn d')"
  using assms(2-)
proof (induction fuel arbitrary: d buffer)
  case (Suc fuel)
  from echo_turn_progress [OF assms(1) Suc.prems(1-4)] Suc.prems(5) consider
    (more) bytes d' buffer' where "echo_turn uv d buffer = Some (Inr (), d', buffer')" "length buffer' = length buffer"
      "payload (arrivals (dconn d)) = bytes @ payload (arrivals (dconn d'))" "sent d' = sent d @ bytes"
      "ends uv (arrivals (dconn d'))" "work (arrivals (dconn d')) < work (arrivals (dconn d))"
      "conn_ok (dconn d')" "conn_open (dconn d')" "writes_ok d'"
  | (last) d' buffer' where "payload (arrivals (dconn d)) = []"
      "echo_turn uv d buffer = Some (Inl Socket_closed_error, d', buffer')" "sent d' = sent d" "\<not> conn_open (dconn d')"
    by blast
  then show ?case
  proof cases
    case more
    have "buffer' \<noteq> []" using more(2) Suc.prems(3) by auto
    with Suc.IH [of d' buffer'] more Suc.prems show ?thesis by auto
  next
    case last
    with Suc.prems(2) show ?thesis by simp
  qed
qed simp

text \<open>
  The session in general: the arrivals end in the end of the stream or in a read error, and any write and the \<open>close\<close> at the end
  of the stream may fail.
\<close>

fun stops :: "uv_lib \<Rightarrow> arrival list \<Rightarrow> bool" where
  "stops uv (Data bs # as) = stops uv as"
| "stops uv (Eof status cb # as) = True"
| "stops uv (Fail err # as) = (err < 0 \<and> err \<noteq> UV_EOF uv)"
| "stops uv [] = False"

lemma conn_write_cases:
  "conn_open (dconn d) \<Longrightarrow> (\<exists>e. conn_write uv d bytes = (Inl e, d\<lparr>writes := drop 1 (writes d)\<rparr>)) \<or>
    conn_write uv d bytes = (Inr (), d\<lparr>sent := sent d @ bytes, writes := drop 1 (writes d)\<rparr>)"
  by (auto simp: conn_write_def conn_open_def is_open_def Let_def split: prod.split sum.split)

lemma echo_turn_data:
  assumes "conn_ok (dconn d)" and "conn_open (dconn d)" and "buffer \<noteq> []" and "arrivals (dconn d) = Data bs # as"
  shows "(\<exists>e d' buffer'. echo_turn uv d buffer = Some (Inl e, d', buffer') \<and> sent d' = sent d) \<or>
    (\<exists>d' buffer'. echo_turn uv d buffer = Some (Inr (), d', buffer') \<and> length buffer' = length buffer \<and>
      sent d' = sent d @ take (length buffer) bs \<and> conn_ok (dconn d') \<and> conn_open (dconn d') \<and>
      arrivals (dconn d') = (if length buffer < length bs then Data (drop (length buffer) bs) # as else as))"
proof -
  let ?n = "length buffer"
  obtain c' where c': "conn_read uv (dconn d) ?n = Some (Inr (take ?n bs), c')" "conn_open c'" "conn_ok c'"
      "arrivals c' = (if ?n < length bs then Data (drop ?n bs) # as else as)"
    using conn_read_data [OF assms(1,2) _ assms(4), of ?n] assms(3) by auto
  have filled: "take (length (take ?n bs)) (blit buffer 0 (take ?n bs)) = take ?n bs"
    "length (blit buffer 0 (take ?n bs)) = ?n"
    by (simp_all add: blit_def min_def)
  from conn_write_cases [of "d\<lparr>dconn := c'\<rparr>" uv "take ?n bs"] c' show ?thesis
    unfolding echo_turn_def using filled by (auto simp: Let_def)
qed

lemma echo_turn_stops:
  assumes "uv_codes_ok uv" and "conn_ok (dconn d)" and "conn_open (dconn d)" and "buffer \<noteq> []"
    and "stops uv (arrivals (dconn d))" and "\<And>bs as. arrivals (dconn d) \<noteq> Data bs # as"
  shows "\<exists>e d' buffer'. echo_turn uv d buffer = Some (Inl e, d', buffer') \<and> sent d' = sent d"
proof -
  have n: "0 < length buffer" using assms(4) by simp
  consider status cb as where "arrivals (dconn d) = Eof status cb # as"
    | err as where "arrivals (dconn d) = Fail err # as" "err < 0" "err \<noteq> UV_EOF uv"
    using assms(5,6) by (cases "(uv, arrivals (dconn d))" rule: stops.cases) auto
  then show ?thesis
  proof cases
    case 1
    from conn_read_eof [OF assms(1-3) n 1] obtain c' where c': "\<not> conn_open c'"
      "conn_read uv (dconn d) (length buffer) = Some (case close_outcome uv status cb of Inl e \<Rightarrow> Inl e | Inr _ \<Rightarrow> Inr [], c')"
      by blast
    then show ?thesis
      using conn_write_closed [of "d\<lparr>dconn := c'\<rparr>" uv "[]"]
      by (cases "close_outcome uv status cb") (simp_all add: echo_turn_def)
  next
    case 2
    from conn_read_fail [OF assms(1-3) n 2] show ?thesis by (auto simp: echo_turn_def)
  qed
qed

lemma echo_session_throws:
  assumes "uv_codes_ok uv" and "conn_ok (dconn d)" and "conn_open (dconn d)" and "buffer \<noteq> []"
    and "stops uv (arrivals (dconn d))" and "work (arrivals (dconn d)) < fuel"
  shows "\<exists>e d' k. echo_session fuel uv d buffer = Some (Inl e, d') \<and> sent d' = sent d @ take k (payload (arrivals (dconn d)))"
  using assms(2-)
proof (induction fuel arbitrary: d buffer)
  case (Suc fuel)
  consider (data) bs as where "arrivals (dconn d) = Data bs # as" | (other) "\<And>bs as. arrivals (dconn d) \<noteq> Data bs # as" by blast
  then show ?case
  proof cases
    case other
    from echo_turn_stops [OF assms(1) Suc.prems(1-4) other] obtain e d' buffer' where
      "echo_turn uv d buffer = Some (Inl e, d', buffer')" "sent d' = sent d" by blast
    with Suc.prems(2) show ?thesis by (auto intro: exI [of _ 0])
  next
    case data
    from echo_turn_data [OF Suc.prems(1-3) data] consider
      (fails) e d' buffer' where "echo_turn uv d buffer = Some (Inl e, d', buffer')" "sent d' = sent d"
    | (more) d' buffer' where "echo_turn uv d buffer = Some (Inr (), d', buffer')" "length buffer' = length buffer"
        "sent d' = sent d @ take (length buffer) bs" "conn_ok (dconn d')" "conn_open (dconn d')"
        "arrivals (dconn d') = (if length buffer < length bs then Data (drop (length buffer) bs) # as else as)"
      by blast
    then show ?thesis
    proof cases
      case fails
      with Suc.prems(2) show ?thesis by (auto intro: exI [of _ 0])
    next
      case more
      obtain m where "length buffer = Suc m" using Suc.prems(3) by (cases buffer) auto
      then have "buffer' \<noteq> []" "stops uv (arrivals (dconn d'))" "work (arrivals (dconn d')) < fuel"
        using more(2,6) data Suc.prems(4,5) by (auto split: if_splits)
      with Suc.IH [of d' buffer'] more(4,5) obtain e d2 k where
        "echo_session fuel uv d' buffer' = Some (Inl e, d2)" "sent d2 = sent d' @ take k (payload (arrivals (dconn d')))"
        by blast
      moreover have "payload (arrivals (dconn d)) = take (length buffer) bs @ payload (arrivals (dconn d'))"
        using data more(6) by auto
      ultimately show ?thesis using more(1,3) Suc.prems(2)
        by (auto simp: min_def intro!: exI [of _ "length (take (length buffer) bs) + k"])
    qed
  qed
qed simp

lemma ends_stops: "ends uv as \<Longrightarrow> stops uv as"
  by (induction uv as rule: ends.induct) auto

section \<open>Properties\<close>

text \<open>
  C15. The echo server's session on a connection where reads can be started and whose arrivals end, by the end of the stream or by a read error, always
  terminates, whatever the size of its buffer, and always with an exception: the loop's test of \<open>is_open\<close> never ends it. The bytes of the writes that
  completed are a prefix of the bytes received, in order, however these are cut into chunks. If moreover every write succeeds, the
  stream ends without a read error and the \<open>close\<close> at its end returns, then the prefix is everything received, the socket is closed, and the exception is
  \<open>socket_closed_error\<close>: the read that meets the end of the stream closes the socket and returns 0, and the write of these 0 bytes is refused.
\<close>

theorem echo_session_echoes:
  assumes "uv_codes_ok uv" and "conn_ok (dconn d)" and "conn_open (dconn d)" and "buffer \<noteq> []"
    and "stops uv (arrivals (dconn d))" and "work (arrivals (dconn d)) < fuel"
  shows "\<exists>e d' k. echo_session fuel uv d buffer = Some (Inl e, d') \<and>
    sent d' = sent d @ take k (payload (arrivals (dconn d))) \<and>
    (writes_ok d \<and> ends uv (arrivals (dconn d)) \<longrightarrow>
      e = Socket_closed_error \<and> sent d' = sent d @ payload (arrivals (dconn d)) \<and> \<not> conn_open (dconn d'))"
proof -
  obtain e d' k where r: "echo_session fuel uv d buffer = Some (Inl e, d')" "sent d' = sent d @ take k (payload (arrivals (dconn d)))"
    using echo_session_throws [OF assms] by blast
  moreover have "e = Socket_closed_error \<and> sent d' = sent d @ payload (arrivals (dconn d)) \<and> \<not> conn_open (dconn d')"
    if "writes_ok d" "ends uv (arrivals (dconn d))"
    using echo_session_all [OF assms(1-4) that assms(6)] r(1) by auto
  ultimately show ?thesis by blast
qed

definition example_duplex :: duplex where
  "example_duplex = \<lparr>dconn = example_conn, sent = [], writes = []\<rparr>"

theorem echo_session_echoes_witness:
  "\<exists>d'. echo_session 20 linux_uv example_duplex (replicate 4096 CHR 0x00) = Some (Inl Socket_closed_error, d') \<and>
     sent d' = ''test123456''"
proof -
  have "conn_ok (dconn example_duplex)" "conn_open (dconn example_duplex)" "writes_ok example_duplex"
    "ends linux_uv (arrivals (dconn example_duplex))" "work (arrivals (dconn example_duplex)) < 20" "sent example_duplex = []"
    "payload (arrivals (dconn example_duplex)) = ''test123456''"
    using example_conn by (simp_all add: example_duplex_def writes_ok_def conn_ended_def)
  then show ?thesis
    using echo_session_echoes [OF linux_uv_codes_ok, of example_duplex "replicate 4096 CHR 0x00" 20] ends_stops by fastforce
qed

lemma conn_close_closed: "\<not> conn_open (dconn (snd (conn_close uv status cb d)))"
  by (simp add: conn_close_def conn_open_def is_open_def)

text \<open>
  The client: if as many bytes come back as it makes requests, no write fails and the final \<open>close\<close> returns, it finishes without an exception, has sent one byte per request, has
  read one per request, and closes the socket.
\<close>

theorem echo_client_completes:
  assumes "uv_codes_ok uv" and "conn_ok (dconn d)" and "conn_open (dconn d)" and "writes_ok d" and "length buf2 = 1"
    and "n \<le> length (payload (arrivals (dconn d)))" and "work (arrivals (dconn d)) < fuel" and "close_outcome uv (fst st) (snd st) = Inr ()"
  shows "\<exists>d' buf2'. echo_client n fuel uv st d buf2 = Some (Inr (), d', buf2') \<and> sent d' = sent d @ replicate n (CHR ''a'') \<and>
    payload (arrivals (dconn d')) = drop n (payload (arrivals (dconn d))) \<and> \<not> conn_open (dconn d')"
  using assms(2-)
proof (induction n arbitrary: d buf2)
  case 0
  then show ?case by (simp add: conn_close_def conn_open_def is_open_def)
next
  case (Suc n)
  let ?d = "d\<lparr>sent := sent d @ ''a'', writes := drop 1 (writes d)\<rparr>"
  have rest: "conn_rest (dconn d) = payload (arrivals (dconn d))" using Suc.prems(2) by (simp add: conn_rest_def)
  obtain c where c: "read_exactly fuel (conn_read uv) (dconn d) buf2 0 1 =
        Some (Inr (), blit buf2 0 (take 1 (payload (arrivals (dconn d)))), c)"
      "conn_rest c = drop 1 (payload (arrivals (dconn d)))" "conn_open c" "conn_ok c" "work (arrivals c) \<le> work (arrivals (dconn d))"
    using conn_source.read_exactly_enough [of uv "dconn d" 1 fuel 0 buf2] Suc.prems assms(1) rest by auto
  let ?b = "blit buf2 0 (take 1 (payload (arrivals (dconn d))))"
  have pay: "payload (arrivals c) = drop 1 (payload (arrivals (dconn d)))" using c(2,3) by (simp add: conn_rest_def)
  have b: "length ?b = 1" using Suc.prems(4) by (simp add: blit_def)
  have w: "writes_ok (?d\<lparr>dconn := c\<rparr>)" using Suc.prems(3) by simp
  have n: "n \<le> length (payload (arrivals c))" using pay Suc.prems(5) by simp
  obtain d' buf2' where "echo_client n fuel uv st (?d\<lparr>dconn := c\<rparr>) ?b = Some (Inr (), d', buf2')"
      "sent d' = sent d @ ''a'' @ replicate n (CHR ''a'')" "payload (arrivals (dconn d')) = drop n (payload (arrivals c))"
      "\<not> conn_open (dconn d')"
    using Suc.IH [OF _ _ w b] c(3-5) n Suc.prems(6,7) by auto
  then show ?case
    using conn_write_ok [OF Suc.prems(3,2), of uv "''a''"] c(1) Suc.prems(4) pay by simp
qed

end
