(* ===== verification/JsString.thy ===== *)
theory JsString
  imports Prelude
begin

text \<open>
  Strings as the scripts under \<open>docs/html\<close> see them: sequences of UTF-16 code units, with the
  operations of JavaScript's standard library that the scripts call, and \<open>convertToId\<close> of
  \<open>docs/html/search/search.js\<close>, the encoding of symbol names as element ids.

  \<open>toLowerCase\<close> depends on the Unicode database; where the scripts call it, it is an argument
  \<open>lc\<close> of the model, and what a property needs of it is stated as \<open>lowers_ascii\<close>.
\<close>

section \<open>Code units and literals\<close>

type_synonym code_unit = nat
type_synonym jsstring = "code_unit list"

definition js :: "string \<Rightarrow> jsstring" where
  "js s = map of_char s"

definition is_unit :: "code_unit \<Rightarrow> bool" where
  "is_unit c \<longleftrightarrow> c < 65536"

definition is_ascii :: "code_unit \<Rightarrow> bool" where
  "is_ascii c \<longleftrightarrow> c < 128"

definition ascii_lower :: "code_unit \<Rightarrow> code_unit" where
  "ascii_lower c = (if 65 \<le> c \<and> c \<le> 90 then c + 32 else c)"

definition lowers_ascii :: "(jsstring \<Rightarrow> jsstring) \<Rightarrow> bool" where
  "lowers_ascii lc \<longleftrightarrow> (\<forall>s. list_all is_ascii s \<longrightarrow> lc s = map ascii_lower s)"

section \<open>Library functions\<close>

text \<open>\<open>replace(/^ +/, "")\<close>, \<open>replace(/ +$/, "")\<close> and \<open>replace(/ +/g, "")\<close>.\<close>

definition strip_leading :: "jsstring \<Rightarrow> jsstring" where
  "strip_leading s = dropWhile (\<lambda>c. c = 32) s"

definition strip_trailing :: "jsstring \<Rightarrow> jsstring" where
  "strip_trailing s = rev (dropWhile (\<lambda>c. c = 32) (rev s))"

definition remove_spaces :: "jsstring \<Rightarrow> jsstring" where
  "remove_spaces s = filter (\<lambda>c. c \<noteq> 32) s"

text \<open>\<open>Number.prototype.toString\<close> in base 16 and base 10 for the integers the scripts print.\<close>

definition hex_digit :: "nat \<Rightarrow> code_unit" where
  "hex_digit n = (if n < 10 then 48 + n else 87 + n)"

fun to_string16 :: "nat \<Rightarrow> jsstring" where
  "to_string16 n = (if n < 16 then [hex_digit n] else to_string16 (n div 16) @ [hex_digit (n mod 16)])"

declare to_string16.simps [simp del]

fun nat_to_string :: "nat \<Rightarrow> jsstring" where
  "nat_to_string n = (if n < 10 then [48 + n] else nat_to_string (n div 10) @ [48 + n mod 10])"

declare nat_to_string.simps [simp del]

definition int_to_string :: "int \<Rightarrow> jsstring" where
  "int_to_string i = (if i < 0 then 45 # nat_to_string (nat (- i)) else nat_to_string (nat i))"

text \<open>The class \<open>\d\<close> of a regular expression.\<close>

definition is_digit :: "code_unit \<Rightarrow> bool" where
  "is_digit c \<longleftrightarrow> 48 \<le> c \<and> c \<le> 57"

text \<open>\<open>s.indexOf(c)\<close> for a string \<open>c\<close>, \<open>-1\<close> if it does not occur.\<close>

fun index_of_from :: "nat \<Rightarrow> jsstring \<Rightarrow> jsstring \<Rightarrow> int" where
  "index_of_from k s c =
     (if take (length c) s = c then int k else case s of [] \<Rightarrow> - 1 | _ # s' \<Rightarrow> index_of_from (Suc k) s' c)"

definition index_of :: "jsstring \<Rightarrow> jsstring \<Rightarrow> int" where
  "index_of s c = index_of_from 0 s c"

text \<open>The global functions \<open>escape\<close> and \<open>unescape\<close> (ECMA-262, annex B.2.1).\<close>

definition upper_hex_digit :: "nat \<Rightarrow> code_unit" where
  "upper_hex_digit n = (if n < 10 then 48 + n else 55 + n)"

definition escape_safe :: "code_unit \<Rightarrow> bool" where
  "escape_safe c \<longleftrightarrow> 65 \<le> c \<and> c \<le> 90 \<or> 97 \<le> c \<and> c \<le> 122 \<or> 48 \<le> c \<and> c \<le> 57 \<or>
     c \<in> {64, 42, 95, 43, 45, 46, 47}"

definition escape_char :: "code_unit \<Rightarrow> jsstring" where
  "escape_char c =
     (if escape_safe c then [c]
      else if c < 256 then [37, upper_hex_digit (c div 16), upper_hex_digit (c mod 16)]
      else [37, 117, upper_hex_digit (c div 4096), upper_hex_digit (c div 256 mod 16),
            upper_hex_digit (c div 16 mod 16), upper_hex_digit (c mod 16)])"

definition escape :: "jsstring \<Rightarrow> jsstring" where
  "escape s = concat (map escape_char s)"

definition hex_value :: "code_unit \<Rightarrow> nat option" where
  "hex_value c =
     (if 48 \<le> c \<and> c \<le> 57 then Some (c - 48)
      else if 65 \<le> c \<and> c \<le> 70 then Some (c - 55)
      else if 97 \<le> c \<and> c \<le> 102 then Some (c - 87) else None)"

fun hex_number :: "nat \<Rightarrow> jsstring \<Rightarrow> nat option" where
  "hex_number acc [] = Some acc"
| "hex_number acc (c # cs) = (case hex_value c of None \<Rightarrow> None | Some d \<Rightarrow> hex_number (acc * 16 + d) cs)"

definition percent_u :: "jsstring \<Rightarrow> nat option" where
  "percent_u s = (if length s \<ge> 5 \<and> hd s = 117 then hex_number 0 (take 4 (tl s)) else None)"

definition percent_x :: "jsstring \<Rightarrow> nat option" where
  "percent_x s = (if length s \<ge> 2 then hex_number 0 (take 2 s) else None)"

function unescape :: "jsstring \<Rightarrow> jsstring" where
  "unescape [] = []"
| "unescape (c # cs) =
     (if c = 37 then
        (case percent_u cs of
           Some v \<Rightarrow> v # unescape (drop 5 cs)
         | None \<Rightarrow> (case percent_x cs of Some v \<Rightarrow> v # unescape (drop 2 cs) | None \<Rightarrow> c # unescape cs))
      else c # unescape cs)"
  by pat_completeness auto
termination
  by (relation "measure length") auto

section \<open>convertToId\<close>

text \<open>The class of the regular expression \<open>[a-z0-9\u0080-\uFFFF]\<close>.\<close>

definition id_char :: "code_unit \<Rightarrow> bool" where
  "id_char c \<longleftrightarrow> 97 \<le> c \<and> c \<le> 122 \<or> 48 \<le> c \<and> c \<le> 57 \<or> 128 \<le> c \<and> c \<le> 65535"

definition convert_char :: "code_unit \<Rightarrow> jsstring" where
  "convert_char c =
     (if id_char c then [c]
      else if c < 16 then [95, 48] @ to_string16 c
      else [95] @ to_string16 c)"

fun convert_loop :: "jsstring \<Rightarrow> jsstring \<Rightarrow> jsstring" where
  "convert_loop result [] = result"
| "convert_loop result (c # cs) = convert_loop (result @ convert_char c) cs"

definition convertToId :: "jsstring \<Rightarrow> jsstring" where
  "convertToId s = convert_loop [] s"

section \<open>Facts\<close>

lemma convert_loop_eq: "convert_loop result s = result @ concat (map convert_char s)"
  by (induction s arbitrary: result) auto

lemma convertToId_eq: "convertToId s = concat (map convert_char s)"
  by (simp add: convertToId_def convert_loop_eq)

text \<open>A unit outside the class becomes an underscore and exactly two hexadecimal digits.\<close>

lemma convert_char_code:
  assumes "is_unit c" and "\<not> id_char c"
  shows "convert_char c = [95, hex_digit (c div 16), hex_digit (c mod 16)]"
proof -
  have "c < 128" using assms by (auto simp: is_unit_def id_char_def)
  then have "c div 16 < 16" by simp
  then show ?thesis
    using assms(2) by (simp add: convert_char_def to_string16.simps [of c]
        to_string16.simps [of "c div 16"] hex_digit_def)
qed

lemma hex_digit_inj: "hex_digit m = hex_digit n \<Longrightarrow> m < 16 \<Longrightarrow> n < 16 \<Longrightarrow> m = n"
  by (auto simp: hex_digit_def split: if_splits)

lemma id_char_not_underscore: "\<not> id_char 95"
  by (simp add: id_char_def)

lemma convert_char_prefix_free:
  assumes "is_unit a" and "is_unit b" and "prefix (convert_char a) (convert_char b)"
  shows "a = b"
proof (cases "id_char a"; cases "id_char b")
  assume "id_char a" "id_char b"
  then show ?thesis using assms(3) by (simp add: convert_char_def)
next
  assume "id_char a" "\<not> id_char b"
  then show ?thesis
    using assms convert_char_code [of b] id_char_not_underscore by (auto simp: convert_char_def)
next
  assume "\<not> id_char a" "id_char b"
  then show ?thesis
    using assms convert_char_code [of a] id_char_not_underscore by (auto simp: convert_char_def)
next
  assume n: "\<not> id_char a" "\<not> id_char b"
  then have lt: "a < 128" "b < 128" using assms(1,2) by (auto simp: is_unit_def id_char_def)
  from n assms convert_char_code have
    "hex_digit (a div 16) = hex_digit (b div 16)" "hex_digit (a mod 16) = hex_digit (b mod 16)"
    by auto
  with lt have "a div 16 = b div 16" "a mod 16 = b mod 16"
    by (auto dest: hex_digit_inj)
  then show ?thesis by (metis div_mult_mod_eq)
qed

interpretation id_code: prefix_code convert_char is_unit
proof
  show "convert_char a \<noteq> []" for a
    by (simp add: convert_char_def)
qed (rule convert_char_prefix_free)

lemma upper_hex_value: "n < 16 \<Longrightarrow> hex_value (upper_hex_digit n) = Some n"
  by (auto simp: hex_value_def upper_hex_digit_def)

lemma upper_hex_not_u: "n < 16 \<Longrightarrow> upper_hex_digit n \<noteq> 117"
  by (auto simp: upper_hex_digit_def)

lemma upper_hex_safe: "n < 16 \<Longrightarrow> escape_safe (upper_hex_digit n)"
  by (auto simp: upper_hex_digit_def escape_safe_def)

lemma hex_number_two:
  "m < 16 \<Longrightarrow> n < 16 \<Longrightarrow> hex_number 0 [upper_hex_digit m, upper_hex_digit n] = Some (m * 16 + n)"
  by (simp add: upper_hex_value)

lemma hex_number_four:
  "k < 16 \<Longrightarrow> l < 16 \<Longrightarrow> m < 16 \<Longrightarrow> n < 16 \<Longrightarrow>
   hex_number 0 [upper_hex_digit k, upper_hex_digit l, upper_hex_digit m, upper_hex_digit n] =
     Some (((k * 16 + l) * 16 + m) * 16 + n)"
  by (simp add: upper_hex_value)

lemma unescape_two:
  assumes "m < 16" and "n < 16"
  shows "unescape (37 # upper_hex_digit m # upper_hex_digit n # rest) = (m * 16 + n) # unescape rest"
proof -
  have "percent_u (upper_hex_digit m # upper_hex_digit n # rest) = None"
    using upper_hex_not_u [OF assms(1)] by (simp add: percent_u_def)
  moreover have "percent_x (upper_hex_digit m # upper_hex_digit n # rest) = Some (m * 16 + n)"
    using hex_number_two [OF assms] by (simp add: percent_x_def numeral_2_eq_2 del: hex_number.simps)
  ultimately show ?thesis by simp
qed

lemma unescape_four:
  assumes "k < 16" and "l < 16" and "m < 16" and "n < 16"
  shows "unescape (37 # 117 # upper_hex_digit k # upper_hex_digit l # upper_hex_digit m #
      upper_hex_digit n # rest) = (((k * 16 + l) * 16 + m) * 16 + n) # unescape rest"
proof -
  have "take 4 (w # x # y # z # rest) = [w, x, y, z]" "drop 5 (v # w # x # y # z # rest) = rest"
    for v w x y z
    by (simp_all add: eval_nat_numeral)
  then have "percent_u (117 # upper_hex_digit k # upper_hex_digit l # upper_hex_digit m #
      upper_hex_digit n # rest) = Some (((k * 16 + l) * 16 + m) * 16 + n)"
    using hex_number_four [OF assms] by (simp add: percent_u_def del: hex_number.simps)
  then show ?thesis by simp
qed

lemma unescape_escape_char:
  assumes "is_unit c"
  shows "unescape (escape_char c @ rest) = c # unescape rest"
proof -
  have d: "c div 4096 < 16" "c div 256 mod 16 < 16" "c div 16 mod 16 < 16" "c mod 16 < 16"
    using assms by (auto simp: is_unit_def)
  consider (safe) "escape_safe c" | (two) "\<not> escape_safe c" "c < 256" | (four) "\<not> escape_safe c" "256 \<le> c"
    by linarith
  then show ?thesis
  proof cases
    case safe
    then have "c \<noteq> 37" by (auto simp: escape_safe_def)
    with safe show ?thesis by (simp add: escape_char_def)
  next
    case two
    then have "escape_char c @ rest = 37 # upper_hex_digit (c div 16) # upper_hex_digit (c mod 16) # rest"
      by (simp add: escape_char_def)
    moreover have "c div 16 < 16" using two by simp
    ultimately show ?thesis using unescape_two [OF _ d(4)] by simp
  next
    case four
    then have "escape_char c @ rest = 37 # 117 # upper_hex_digit (c div 4096) #
        upper_hex_digit (c div 256 mod 16) # upper_hex_digit (c div 16 mod 16) # upper_hex_digit (c mod 16) # rest"
      by (simp add: escape_char_def)
    moreover have "c div 4096 * 16 + c div 256 mod 16 = c div 256"
      "c div 256 * 16 + c div 16 mod 16 = c div 16" "c div 16 * 16 + c mod 16 = c"
      using div_mult2_eq [of c 256 16] div_mult2_eq [of c 16 16]
        div_mult_mod_eq [of "c div 256" 16] div_mult_mod_eq [of "c div 16" 16] div_mult_mod_eq [of c 16]
      by simp_all
    ultimately show ?thesis using unescape_four [OF d] by (simp del: unescape.simps)
  qed
qed

lemma escape_char_safe:
  assumes "c \<in> set (escape_char d)" and "is_unit d"
  shows "c = 37 \<or> escape_safe c"
proof -
  have "d div 4096 < 16" using assms(2) by (auto simp: is_unit_def)
  moreover have "escape_safe 117" by (simp add: escape_safe_def)
  moreover have "d < 256 \<Longrightarrow> d div 16 < 16" by simp
  ultimately show ?thesis
    using assms(1) by (auto simp: escape_char_def upper_hex_safe split: if_splits)
qed

lemma unescape_escape_units: "list_all is_unit s \<Longrightarrow> unescape (escape s) = s"
  unfolding escape_def by (induction s) (simp_all add: unescape_escape_char)

lemma convertToId_prefix: "list_all is_unit s \<Longrightarrow> list_all is_unit t \<Longrightarrow>
    prefix (convertToId s) (convertToId t) \<longleftrightarrow> prefix s t"
  by (simp add: convertToId_eq id_code.prefix_concat_iff)

text \<open>The id of an ASCII name in lower case is again ASCII in lower case.\<close>

lemma ascii_lower_bounds: "is_ascii c \<Longrightarrow> is_ascii (ascii_lower c)" "ascii_lower (ascii_lower c) = ascii_lower c"
  by (auto simp: is_ascii_def ascii_lower_def)

lemma convertToId_lower:
  assumes "list_all is_ascii s"
  shows "list_all (\<lambda>c. is_ascii c \<and> ascii_lower c = c) (convertToId (map ascii_lower s))"
proof -
  have hex: "is_ascii (hex_digit n) \<and> ascii_lower (hex_digit n) = hex_digit n" if "n < 16" for n
    using that by (auto simp: hex_digit_def is_ascii_def ascii_lower_def)
  have char: "list_all (\<lambda>c. is_ascii c \<and> ascii_lower c = c) (convert_char c)" if c: "is_ascii c" "ascii_lower c = c" for c
  proof (cases "id_char c")
    case True
    then show ?thesis using c by (simp add: convert_char_def)
  next
    case False
    moreover have "is_unit c" "c div 16 < 16" using c(1) by (auto simp: is_unit_def is_ascii_def)
    moreover have "is_ascii 95" "ascii_lower 95 = 95" by (simp_all add: is_ascii_def ascii_lower_def)
    ultimately show ?thesis using hex [of "c div 16"] hex [of "c mod 16"]
      by (simp add: convert_char_code)
  qed
  have "list_all (\<lambda>c. is_ascii c \<and> ascii_lower c = c) (convert_char (ascii_lower c))" if "c \<in> set s" for c
  proof (rule char)
    show "is_ascii (ascii_lower c)" using that assms ascii_lower_bounds(1) by (auto simp: list_all_iff)
  qed (rule ascii_lower_bounds)
  then show ?thesis unfolding convertToId_eq list_all_iff by auto
qed

section \<open>Properties\<close>

text \<open>
  C19. \<open>convertToId\<close> is injective and comparing encoded names by prefix is comparing the names by
  prefix: for any two strings, the id of the one is a prefix of the id of the other exactly if the
  one is a prefix of the other. The search compares ids only and relies on this.
\<close>

theorem convertToId_prefix_iff:
  assumes "list_all is_unit s" and "list_all is_unit t"
  shows "(prefix (convertToId s) (convertToId t) \<longleftrightarrow> prefix s t) \<and>
    (convertToId s = convertToId t \<longleftrightarrow> s = t)"
  using id_code.prefix_concat_iff [OF assms] id_code.concat_inj [OF assms]
  by (auto simp: convertToId_eq)

theorem convertToId_prefix_iff_witness:
  "convertToId (js ''fiberio.hpp'') = js ''fiberio_2ehpp'' \<and>
   prefix (convertToId (js ''fiberio.'')) (js ''fiberio_2ehpp'')"
proof -
  have h: "list_all is_unit (js ''fiberio.'')" "list_all is_unit (js ''fiberio.hpp'')"
    by (simp_all add: js_def is_unit_def)
  have "convertToId (js ''fiberio.hpp'') = js ''fiberio_2ehpp''"
    by (simp add: js_def convertToId_def convert_char_def id_char_def to_string16.simps hex_digit_def)
  moreover have "prefix (js ''fiberio.'') (js ''fiberio.hpp'')"
    by (simp add: js_def)
  ultimately show ?thesis using convertToId_prefix_iff [OF h] by simp
qed

section \<open>Round trip of a query\<close>

lemma escape_query_safe:
  assumes "list_all is_unit s"
  shows "set (escape s) \<inter> set (js ''?#& '') = {}"
proof -
  have "c = 37 \<or> escape_safe c" if "c \<in> set (escape s)" for c
    using that assms unfolding escape_def by (auto simp: list_all_iff dest!: escape_char_safe)
  moreover have "\<not> escape_safe 63" "\<not> escape_safe 35" "\<not> escape_safe 38" "\<not> escape_safe 32"
    by (simp_all add: escape_safe_def)
  moreover have "set (js ''?#& '') = {63, 35, 38, 32}"
    by (simp add: js_def)
  ultimately show ?thesis by fastforce
qed

section \<open>Decimal numbers\<close>

definition read_decimal :: "jsstring \<Rightarrow> nat" where
  "read_decimal s = foldl (\<lambda>a c. a * 10 + (c - 48)) 0 s"

lemma read_decimal_nat_to_string: "read_decimal (nat_to_string n) = n"
  by (induction n rule: nat_to_string.induct)
    (simp add: nat_to_string.simps [of n for n] read_decimal_def)

lemma nat_to_string_digits: "c \<in> set (nat_to_string n) \<Longrightarrow> is_digit c"
proof (induction n rule: nat_to_string.induct)
  case (1 n)
  then show ?case
    using nat_to_string.simps [of n] by (auto simp: is_digit_def split: if_splits)
qed

lemma nat_to_string_not_Nil [simp]: "nat_to_string n \<noteq> []"
  using nat_to_string.simps [of n] by simp

lemma nat_to_string_inj: "nat_to_string n = nat_to_string m \<longleftrightarrow> n = m"
  using read_decimal_nat_to_string by metis

end
