(* ===== verification/Dom.thy ===== *)
theory Dom
  imports JsString "HOL-Library.AList"
begin

text \<open>
  The part of the document object model that the scripts under \<open>docs/html\<close> use: a tree of
  nodes, node references as paths from the document node (so that \<open>==\<close> on references is equality
  of paths), \<open>getElementById\<close>, \<open>getElementsByTagName\<close>, the navigation properties
  \<open>firstChild\<close>, \<open>nextSibling\<close> and \<open>parentNode\<close>, and the updates the scripts make. A property
  read on \<open>null\<close> or \<open>undefined\<close> raises a \<open>TypeError\<close>.

  The lemmas reduce every update to two observations, the element at a path (\<open>elem_at\<close>) and the
  shape of the tree (\<open>paths\<close>, \<open>child_count\<close>): updating an element changes the first at one path
  and leaves the second alone.
\<close>

section \<open>Results of scripts\<close>

text \<open>
  A call returns a value or raises a \<open>TypeError\<close>. \<open>Spin\<close> is the result of a loop that the model
  cut off after a number of iterations; the properties show that it does not occur.
\<close>

datatype 'a res = Ret 'a | TypeError | Spin

fun and_then :: "'a res \<Rightarrow> ('a \<Rightarrow> 'b res) \<Rightarrow> 'b res" where
  "and_then (Ret x) f = f x"
| "and_then TypeError f = TypeError"
| "and_then Spin f = Spin"

fun non_null :: "'a option \<Rightarrow> 'a res" where
  "non_null None = TypeError"
| "non_null (Some x) = Ret x"

section \<open>Nodes and references\<close>

record elem =
  nodeName :: jsstring
  ident :: jsstring
  className :: jsstring
  display :: jsstring
  attributes :: "(jsstring \<times> jsstring) list"
  innerHTML :: jsstring

datatype node = Node elem "node list"

type_synonym path = "nat list"

text \<open>In an HTML document a tag name is upper case, however it was written.\<close>

definition ascii_upper :: "code_unit \<Rightarrow> code_unit" where
  "ascii_upper c = (if 97 \<le> c \<and> c \<le> 122 then c - 32 else c)"

definition createElement :: "jsstring \<Rightarrow> elem" where
  "createElement t =
     \<lparr>nodeName = map ascii_upper t, ident = [], className = [], display = [], attributes = [], innerHTML = []\<rparr>"

definition setAttribute :: "jsstring \<Rightarrow> jsstring \<Rightarrow> elem \<Rightarrow> elem" where
  "setAttribute a v e =
     (if a = js ''id'' then e\<lparr>ident := v\<rparr>
      else if a = js ''class'' then e\<lparr>className := v\<rparr>
      else e\<lparr>attributes := AList.update a v (attributes e)\<rparr>)"

definition set_display :: "jsstring \<Rightarrow> elem \<Rightarrow> elem" where
  "set_display v e = e\<lparr>display := v\<rparr>"

definition set_html :: "jsstring \<Rightarrow> elem \<Rightarrow> elem" where
  "set_html v e = e\<lparr>innerHTML := v\<rparr>"

fun node_elem :: "node \<Rightarrow> elem" where
  "node_elem (Node e ns) = e"

fun childNodes :: "node \<Rightarrow> node list" where
  "childNodes (Node e ns) = ns"

fun node_at :: "node \<Rightarrow> path \<Rightarrow> node option" where
  "node_at n [] = Some n"
| "node_at (Node e ns) (i # p) = (if i < length ns then node_at (ns ! i) p else None)"

definition elem_at :: "node \<Rightarrow> path \<Rightarrow> elem option" where
  "elem_at n p = map_option node_elem (node_at n p)"

definition child_count :: "node \<Rightarrow> path \<Rightarrow> nat" where
  "child_count n p = (case node_at n p of None \<Rightarrow> 0 | Some m \<Rightarrow> length (childNodes m))"

fun upd :: "path \<Rightarrow> (elem \<Rightarrow> elem) \<Rightarrow> node \<Rightarrow> node" where
  "upd [] f (Node e ns) = Node (f e) ns"
| "upd (i # p) f (Node e ns) = Node e (if i < length ns then ns[i := upd p f (ns ! i)] else ns)"

fun appendChild :: "path \<Rightarrow> node \<Rightarrow> node \<Rightarrow> node" where
  "appendChild [] c (Node e ns) = Node e (ns @ [c])"
| "appendChild (i # p) c (Node e ns) =
     Node e (if i < length ns then ns[i := appendChild p c (ns ! i)] else ns)"

section \<open>Tree order\<close>

fun paths :: "node \<Rightarrow> path list"
  and forest_paths :: "nat \<Rightarrow> node list \<Rightarrow> path list" where
  "paths (Node e ns) = [] # forest_paths 0 ns"
| "forest_paths i [] = []"
| "forest_paths i (n # ns) = map ((#) i) (paths n) @ forest_paths (Suc i) ns"

definition has_elem :: "(elem \<Rightarrow> bool) \<Rightarrow> node \<Rightarrow> path \<Rightarrow> bool" where
  "has_elem P n p = (case elem_at n p of None \<Rightarrow> False | Some e \<Rightarrow> P e)"

definition getElementById :: "node \<Rightarrow> jsstring \<Rightarrow> path option" where
  "getElementById n i = (if i = [] then None else List.find (has_elem (\<lambda>e. ident e = i) n) (paths n))"

definition getElementsByTagName :: "node \<Rightarrow> jsstring \<Rightarrow> path list" where
  "getElementsByTagName n t = filter (has_elem (\<lambda>e. nodeName e = map ascii_upper t) n) (paths n)"

section \<open>Navigation\<close>

definition firstChild :: "node \<Rightarrow> path \<Rightarrow> path option" where
  "firstChild n p = (if child_count n p = 0 then None else Some (p @ [0]))"

definition nextSibling :: "node \<Rightarrow> path \<Rightarrow> path option" where
  "nextSibling n p =
     (if p = [] then None
      else if Suc (last p) < child_count n (butlast p) then Some (butlast p @ [Suc (last p)]) else None)"

definition parentNode :: "path \<Rightarrow> path option" where
  "parentNode p = (if p = [] then None else Some (butlast p))"

section \<open>Facts\<close>

lemma js_eq_iff [simp]: "js s = js t \<longleftrightarrow> s = t"
  unfolding js_def using inj_of_char inj_map_eq_map by blast

lemma js_Nil [simp]: "js [] = []" "js s = [] \<longleftrightarrow> s = []" "[] = js s \<longleftrightarrow> s = []"
  by (auto simp: js_def)

lemma get_append: "node_at n (p @ q) = Option.bind (node_at n p) (\<lambda>m. node_at m q)"
  by (induction n p rule: node_at.induct) auto

lemma elem_at_Nil [simp]: "elem_at (Node e ns) [] = Some e"
  by (simp add: elem_at_def)

lemma elem_at_Cons [simp]:
  "elem_at (Node e ns) (i # p) = (if i < length ns then elem_at (ns ! i) p else None)"
  by (simp add: elem_at_def)

lemma child_count_Nil [simp]: "child_count (Node e ns) [] = length ns"
  by (simp add: child_count_def)

lemma child_count_Cons [simp]:
  "child_count (Node e ns) (i # p) = (if i < length ns then child_count (ns ! i) p else 0)"
  by (simp add: child_count_def)

lemma elem_at_upd: "elem_at (upd p f n) q = (if q = p then map_option f (elem_at n q) else elem_at n q)"
proof (induction p f n arbitrary: q rule: upd.induct)
  case (1 f e ns)
  then show ?case by (cases q) auto
next
  case (2 i p f e ns)
  then show ?case by (cases q) (auto simp: nth_list_update)
qed

lemma child_count_upd [simp]: "child_count (upd p f n) q = child_count n q"
proof (induction p f n arbitrary: q rule: upd.induct)
  case (1 f e ns)
  then show ?case by (cases q) auto
next
  case (2 i p f e ns)
  then show ?case by (cases q) (auto simp: nth_list_update)
qed

lemma forest_paths_update:
  "j < length ns \<Longrightarrow> paths m = paths (ns ! j) \<Longrightarrow> forest_paths i (ns[j := m]) = forest_paths i ns"
  by (induction ns arbitrary: i j) (auto split: nat.splits)

lemma paths_upd [simp]: "paths (upd p f n) = paths n"
  by (induction p f n rule: upd.induct) (auto intro: forest_paths_update)

lemma set_forest_paths:
  "set (forest_paths i ns) = {(i + j) # p | j p. j < length ns \<and> p \<in> set (paths (ns ! j))}"
proof (induction ns arbitrary: i)
  case Nil
  then show ?case by simp
next
  case (Cons n ns)
  show ?case
    by (auto simp: Cons.IH less_Suc_eq_0_disj intro: exI [of _ 0])
qed

lemma get_some_iff: "node_at n p \<noteq> None \<longleftrightarrow> p \<in> set (paths n)"
proof (induction n p rule: node_at.induct)
  case (1 n)
  then show ?case by (cases n) simp
next
  case (2 e ns i p)
  then show ?case by (auto simp: set_forest_paths)
qed

lemma elem_at_some_iff: "elem_at n p \<noteq> None \<longleftrightarrow> p \<in> set (paths n)"
  using get_some_iff [of n p] by (simp add: elem_at_def)

lemma distinct_forest_paths:
  assumes "\<And>n. n \<in> set ns \<Longrightarrow> distinct (paths n)"
  shows "distinct (forest_paths i ns)"
  using assms
  by (induction ns arbitrary: i) (auto simp: set_forest_paths distinct_map inj_on_def)

lemma distinct_paths [simp]: "distinct (paths n)"
proof (induction n)
  case (Node e ns)
  then show ?case by (auto simp: set_forest_paths intro: distinct_forest_paths)
qed

lemma find_Some_in: "List.find P xs = Some x \<Longrightarrow> x \<in> set xs \<and> P x"
  by (auto simp: find_Some_iff)

lemma getElementById_Some:
  assumes "getElementById n i = Some p"
  shows "p \<in> set (paths n)" and "has_elem (\<lambda>e. ident e = i) n p" and "i \<noteq> []"
  using assms by (auto simp: getElementById_def dest: find_Some_in split: if_splits)

lemma find_unique:
  assumes "x \<in> set xs" and "P x" and "\<And>y. y \<in> set xs \<Longrightarrow> P y \<Longrightarrow> y = x"
  shows "List.find P xs = Some x"
proof (cases "List.find P xs")
  case None
  then show ?thesis using assms(1,2) by (auto simp: find_None_iff)
next
  case (Some y)
  then show ?thesis using assms(3) find_Some_in by metis
qed

text \<open>Updates that keep the ids keep the lookups.\<close>

lemma has_elem_upd:
  assumes "\<And>e. P (f e) = P e"
  shows "has_elem P (upd p f n) q = has_elem P n q"
  using assms by (auto simp: has_elem_def elem_at_upd split: option.splits)

lemma getElementById_upd:
  assumes "\<And>e. ident (f e) = ident e"
  shows "getElementById (upd p f n) i = getElementById n i"
proof -
  have "has_elem (\<lambda>e. ident e = i) (upd p f n) = has_elem (\<lambda>e. ident e = i) n"
    using assms by (auto intro!: has_elem_upd)
  then show ?thesis by (simp add: getElementById_def)
qed

lemma getElementsByTagName_upd:
  assumes "\<And>e. nodeName (f e) = nodeName e"
  shows "getElementsByTagName (upd p f n) t = getElementsByTagName n t"
proof -
  have "has_elem (\<lambda>e. nodeName e = map ascii_upper t) (upd p f n) =
      has_elem (\<lambda>e. nodeName e = map ascii_upper t) n"
    using assms by (auto intro!: has_elem_upd)
  then show ?thesis by (simp add: getElementsByTagName_def)
qed

lemma set_display_simps [simp]:
  "nodeName (set_display v e) = nodeName e" "ident (set_display v e) = ident e"
  "className (set_display v e) = className e" "display (set_display v e) = v"
  by (simp_all add: set_display_def)

section \<open>Numbered elements\<close>

text \<open>
  What a loop over numbered elements relies on: an element has at most one number, and there are
  only as many elements as the tree has nodes. Then, whichever way it counts, it reaches a number
  that no element has.
\<close>

locale numbered_elements =
  fixes element :: "int \<Rightarrow> 'p option" and cells :: "'p list"
  assumes element_cell: "element i = Some p \<Longrightarrow> p \<in> set cells"
    and element_inj: "element i = Some p \<Longrightarrow> element j = Some p \<Longrightarrow> i = j"
begin

lemma runs_out:
  assumes "s \<noteq> 0"
  shows "\<exists>n\<le>length cells. element (i + s * int n) = None"
proof (rule ccontr)
  assume none: "\<not> (\<exists>n\<le>length cells. element (i + s * int n) = None)"
  have found: "element (i + s * int n) \<noteq> None" if "n \<le> length cells" for n
    using none that by simp
  let ?f = "\<lambda>n. the (element (i + s * int n))"
  have "?f ` {..length cells} \<subseteq> set cells"
    using found by (fastforce intro: element_cell)
  then have "card (?f ` {..length cells}) \<le> length cells"
    by (meson card_length card_mono finite_set order_trans)
  moreover have "inj_on ?f {..length cells}"
  proof (rule inj_onI)
    fix m n assume mn: "m \<in> {..length cells}" "n \<in> {..length cells}" and eq: "?f m = ?f n"
    obtain a b where ab: "element (i + s * int m) = Some a" "element (i + s * int n) = Some b"
      using found mn by (metis atMost_iff not_None_eq)
    then have "a = b" using eq by simp
    then have "i + s * int m = i + s * int n" using ab element_inj by blast
    then show "m = n" using assms by simp
  qed
  ultimately show False by (simp add: card_image)
qed

end

text \<open>Ids made from a number by an injective function give such elements.\<close>

lemma getElementById_inj:
  "getElementById n i = Some p \<Longrightarrow> getElementById n j = Some p \<Longrightarrow> i = j"
  by (auto dest!: getElementById_Some(2) simp: has_elem_def split: option.splits)

section \<open>The tree without its displays\<close>

text \<open>
  Scripts that only change \<open>style.display\<close> keep the erased tree, and with it every lookup.
\<close>

fun erase :: "node \<Rightarrow> node" where
  "erase (Node e ns) = Node (set_display [] e) (map erase ns)"

lemma set_display_idem [simp]: "set_display v (set_display u e) = set_display v e"
  by (simp add: set_display_def)

lemma get_erase: "node_at (erase n) p = map_option erase (node_at n p)"
  by (induction n p rule: node_at.induct) auto

lemma elem_at_erase: "elem_at (erase n) p = map_option (set_display []) (elem_at n p)"
proof -
  have "node_elem (erase m) = set_display [] (node_elem m)" for m by (cases m) simp
  then show ?thesis by (cases "node_at n p") (simp_all add: elem_at_def get_erase)
qed

lemma child_count_erase [simp]: "child_count (erase n) p = child_count n p"
proof -
  have "length (childNodes (erase m)) = length (childNodes m)" for m by (cases m) simp
  then show ?thesis by (cases "node_at n p") (simp_all add: child_count_def get_erase)
qed

lemma paths_erase_forest:
  "paths (erase n) = paths n" "forest_paths i (map erase ns) = forest_paths i ns"
  by (induction n and i ns rule: paths_forest_paths.induct) auto

lemmas paths_erase [simp] = paths_erase_forest(1)

lemma has_elem_erase:
  assumes "\<And>e. P (set_display [] e) = P e"
  shows "has_elem P (erase n) p = has_elem P n p"
  using assms by (auto simp: has_elem_def elem_at_erase split: option.splits)

lemma getElementById_erase [simp]: "getElementById (erase n) i = getElementById n i"
proof -
  have "has_elem (\<lambda>e. ident e = i) (erase n) = has_elem (\<lambda>e. ident e = i) n"
    by (auto intro!: has_elem_erase)
  then show ?thesis by (simp add: getElementById_def)
qed

lemma erase_upd: "erase (upd p (set_display v) n) = erase n"
proof (induction p "set_display v" n rule: upd.induct)
  case (1 e ns)
  then show ?case by simp
next
  case (2 i p e ns)
  then show ?case by (auto simp: map_update list_update_same_conv)
qed

lemma erase_getElementById: "erase m = erase n \<Longrightarrow> getElementById m i = getElementById n i"
  by (metis getElementById_erase)

end
