(* ===== verification/JQuery.thy ===== *)
theory JQuery
  imports Dom
begin

text \<open>
  The jQuery methods that the scripts of the documentation pages call, from the copy of jQuery
  1.7.1 in \<open>docs/html/jquery.js\<close>: \<open>addClass\<close>, \<open>removeClass\<close> and \<open>hasClass\<close>, which work on the text of
  an element's class attribute, and \<open>show\<close> and \<open>hide\<close>, which work on its inline style and remember
  the display they replaced. The class methods are shown to implement operations on sets of words, and
  that contract (locale \<open>class_attribute\<close>) is all the clients use.
\<close>

section \<open>White space\<close>

definition is_space :: "code_unit \<Rightarrow> bool" where
  "is_space c \<longleftrightarrow> 9 \<le> c \<and> c \<le> 13 \<or> c = 32 \<or> c \<in> {160, 5760, 8232, 8233, 8239, 8287, 12288, 65279} \<or>
     8192 \<le> c \<and> c \<le> 8202"

definition js_trim :: "jsstring \<Rightarrow> jsstring" where
  "js_trim s = rev (dropWhile is_space (rev (dropWhile is_space s)))"

text \<open>\<open>split(/\s+/)\<close>.\<close>

function split_ws :: "jsstring \<Rightarrow> jsstring list" where
  "split_ws s =
     takeWhile (\<lambda>c. \<not> is_space c) s #
       (case dropWhile (\<lambda>c. \<not> is_space c) s of
          [] \<Rightarrow> []
        | c # r \<Rightarrow> split_ws (dropWhile is_space r))"
  by pat_completeness auto
termination
proof (relation "measure length")
  fix s :: jsstring and c r
  assume "dropWhile (\<lambda>c. \<not> is_space c) s = c # r"
  then have "length (c # r) \<le> length s" by (metis length_dropWhile_le)
  moreover have "length (dropWhile is_space r) \<le> length r" by (rule length_dropWhile_le)
  ultimately show "(dropWhile is_space r, s) \<in> measure length" by simp
qed simp

declare split_ws.simps [simp del]

text \<open>\<open>replace\<close> with a string as pattern replaces its first occurrence.\<close>

fun replace_first :: "jsstring \<Rightarrow> jsstring \<Rightarrow> jsstring \<Rightarrow> jsstring" where
  "replace_first pat rep s =
     (if take (length pat) s = pat then rep @ drop (length pat) s
      else (case s of [] \<Rightarrow> [] | c # r \<Rightarrow> c # replace_first pat rep r))"

declare replace_first.simps [simp del]

section \<open>Classes\<close>

definition spaced :: "jsstring \<Rightarrow> jsstring" where
  "spaced s = [32] @ s @ [32]"

text \<open>\<open>replace(/[\n\t\r]/g, " ")\<close>.\<close>

definition blank_lines :: "jsstring \<Rightarrow> jsstring" where
  "blank_lines s = map (\<lambda>c. if c \<in> {9, 10, 13} then 32 else c) s"

definition add_one :: "jsstring \<Rightarrow> jsstring \<Rightarrow> jsstring" where
  "add_one z c = (if index_of z (spaced c) = - 1 then z @ c @ [32] else z)"

definition addClass :: "jsstring \<Rightarrow> jsstring \<Rightarrow> jsstring" where
  "addClass v cls =
     (if v = [] then cls
      else if cls = [] \<and> length (split_ws v) = 1 then v
      else js_trim (foldl add_one (spaced cls) (split_ws v)))"

definition remove_one :: "jsstring \<Rightarrow> jsstring \<Rightarrow> jsstring" where
  "remove_one x c = replace_first (spaced c) [32] x"

definition removeClass :: "jsstring \<Rightarrow> jsstring \<Rightarrow> jsstring" where
  "removeClass v cls =
     (if v = [] \<or> cls = [] then cls
      else js_trim (foldl remove_one (blank_lines (spaced cls)) (split_ws v)))"

definition hasClass :: "jsstring \<Rightarrow> jsstring \<Rightarrow> bool" where
  "hasClass c cls \<longleftrightarrow> index_of (blank_lines (spaced cls)) (spaced c) \<noteq> - 1"

section \<open>Elements and their display\<close>

text \<open>
  An element as the scripts see it: id, class, inline \<open>style.display\<close>, the \<open>olddisplay\<close> datum (empty
  if there is none), the display that the style sheet gives it, the default display of its tag, and the \<open>src\<close> and
  content that some scripts change.
\<close>

record jel =
  jid :: jsstring
  jclass :: jsstring
  jstyle :: jsstring
  jold :: jsstring
  jsheet :: jsstring
  jtag :: jsstring
  jsrc :: jsstring
  jhtml :: jsstring

definition computed :: "jel \<Rightarrow> jsstring" where
  "computed e = (if jstyle e = [] then jsheet e else jstyle e)"

text \<open>\<open>:visible\<close>, for an element whose ancestors are displayed.\<close>

definition is_visible :: "jel \<Rightarrow> bool" where
  "is_visible e \<longleftrightarrow> computed e \<noteq> js ''none''"

definition jshow :: "jel \<Rightarrow> jel" where
  "jshow e =
     (let e1 = (if jold e = [] \<and> jstyle e = js ''none'' then e\<lparr>jstyle := []\<rparr> else e);
          e2 = (if jstyle e1 = [] \<and> computed e1 = js ''none'' then e1\<lparr>jold := jtag e1\<rparr> else e1)
      in if jstyle e2 = [] \<or> jstyle e2 = js ''none'' then e2\<lparr>jstyle := jold e2\<rparr> else e2)"

definition jhide :: "jel \<Rightarrow> jel" where
  "jhide e =
     (let e1 = (if computed e \<noteq> js ''none'' \<and> jold e = [] then e\<lparr>jold := computed e\<rparr> else e)
      in e1\<lparr>jstyle := js ''none''\<rparr>)"

definition add_class :: "string \<Rightarrow> jel \<Rightarrow> jel" where
  "add_class v e = e\<lparr>jclass := addClass (js v) (jclass e)\<rparr>"

definition remove_class :: "string \<Rightarrow> jel \<Rightarrow> jel" where
  "remove_class v e = e\<lparr>jclass := removeClass (js v) (jclass e)\<rparr>"

section \<open>Class attributes as sets of words\<close>

text \<open>Words have no white space; a class attribute is well formed if it lists distinct words.\<close>

definition word :: "jsstring \<Rightarrow> bool" where
  "word w \<longleftrightarrow> w \<noteq> [] \<and> list_all (\<lambda>c. \<not> is_space c) w"

fun join :: "jsstring list \<Rightarrow> jsstring" where
  "join [] = []"
| "join [w] = w"
| "join (w # v # ws) = w @ [32] @ join (v # ws)"

definition padded :: "jsstring list \<Rightarrow> jsstring" where
  "padded ws = 32 # concat (map (\<lambda>w. w @ [32]) ws)"

lemma padded_Cons: "padded (w # ws) = 32 # w @ padded ws"
  by (simp add: padded_def)

lemma padded_Nil: "padded [] = [32]"
  by (simp add: padded_def)

lemma padded_snoc: "padded (ws @ [c]) = padded ws @ c @ [32]"
  by (simp add: padded_def)

lemma spaced_join: "ws \<noteq> [] \<Longrightarrow> spaced (join ws) = padded ws"
  by (induction ws rule: join.induct) (auto simp: spaced_def padded_def)

lemma space_is_space [simp]: "is_space 32"
  by (simp add: is_space_def)

lemma word_no_space: "word w \<Longrightarrow> 32 \<notin> set w"
  by (auto simp: word_def list_all_iff)

text \<open>Where a spaced word begins in a padded list, and where it does not.\<close>

lemma spaced_prefix:
  assumes "word c" and "word w"
  shows "take (length (spaced c)) (32 # w @ 32 # r) = spaced c \<longleftrightarrow> c = w"
proof
  assume "take (length (spaced c)) (32 # w @ 32 # r) = spaced c"
  then have "take (Suc (length c)) (w @ 32 # r) = c @ [32]"
    by (simp add: spaced_def)
  then obtain t where t: "w @ 32 # r = c @ 32 # t"
    by (metis append.assoc append_Cons append_Nil append_take_drop_id)
  have stop: "takeWhile (\<lambda>x. x \<noteq> 32) (v @ 32 # u) = v" if "32 \<notin> set v" for v u :: jsstring
    using that by (induction v) auto
  have "takeWhile (\<lambda>x. x \<noteq> 32) (w @ 32 # r) = w" "takeWhile (\<lambda>x. x \<noteq> 32) (c @ 32 # t) = c"
    using stop word_no_space [OF assms(1)] word_no_space [OF assms(2)] by blast+
  then show "c = w" using t by metis
qed (simp add: spaced_def)

lemma spaced_step:
  assumes "a \<noteq> 32"
  shows "replace_first (spaced c) rep (a # s) = a # replace_first (spaced c) rep s"
    and "index_of_from k (a # s) (spaced c) = index_of_from (Suc k) s (spaced c)"
  using assms by (simp_all add: replace_first.simps [of _ _ "a # s"] spaced_def)

declare index_of_from.simps [simp del]

lemma spaced_skips:
  assumes "32 \<notin> set w"
  shows "replace_first (spaced c) rep (w @ r) = w @ replace_first (spaced c) rep r"
    and "index_of_from k (w @ r) (spaced c) = index_of_from (k + length w) r (spaced c)"
  using assms by (induction w arbitrary: k) (simp_all add: spaced_step)

lemma spaced_word_ends: "word c \<Longrightarrow> take (length (spaced c)) [32] \<noteq> spaced c"
  by (auto simp: spaced_def word_def)

lemma remove_one_padded:
  assumes "word c" and "list_all word ws"
  shows "remove_one (padded ws) c = padded (remove1 c ws)"
  using assms(2)
proof (induction ws)
  case Nil
  then show ?case
    using spaced_word_ends [OF assms(1)]
    by (simp add: remove_one_def padded_Nil replace_first.simps [of _ _ "[32]"] replace_first.simps [of _ _ "[]"])
      (simp add: spaced_def)
next
  case (Cons w ws)
  obtain r where r: "padded ws = 32 # r" by (simp add: padded_def)
  have w: "word w" "32 \<notin> set w" using Cons.prems word_no_space by auto
  have p: "take (length (spaced c)) (padded (w # ws)) = spaced c \<longleftrightarrow> c = w"
    using spaced_prefix [OF assms(1) w(1)] by (simp add: padded_Cons r)
  show ?case
  proof (cases "c = w")
    case True
    then have "drop (length (spaced c)) (padded (w # ws)) = r"
      by (simp add: padded_Cons r spaced_def)
    moreover have "take (length (spaced c)) (padded (w # ws)) = spaced c" using True p by blast
    ultimately have "replace_first (spaced c) [32] (padded (w # ws)) = 32 # r"
      by (subst replace_first.simps) simp
    then show ?thesis using True by (simp add: remove_one_def r)
  next
    case False
    then have "replace_first (spaced c) [32] (padded (w # ws)) = 32 # w @ replace_first (spaced c) [32] (padded ws)"
      using p w(2) by (simp add: replace_first.simps [of "spaced c" "[32]" "padded (w # ws)"]) (simp add: padded_Cons spaced_skips)
    with False Cons show ?thesis by (simp add: remove_one_def padded_Cons)
  qed
qed

lemma index_of_from_start: "index_of_from k s c = - 1 \<longleftrightarrow> index_of_from m s c = - 1"
proof (induction s arbitrary: k m)
  case (Cons a s)
  show ?case
    using Cons [of "Suc k" "Suc m"] by (simp add: index_of_from.simps [of _ "a # s"])
qed (simp add: index_of_from.simps)

lemma index_of_padded:
  assumes "word c" and "list_all word ws"
  shows "index_of_from k (padded ws) (spaced c) \<noteq> - 1 \<longleftrightarrow> c \<in> set ws"
  using assms(2)
proof (induction ws arbitrary: k)
  case Nil
  then show ?case
    using spaced_word_ends [OF assms(1)]
    by (simp add: padded_Nil index_of_from.simps [of _ "[32]"] index_of_from.simps [of _ "[]"]) (simp add: spaced_def)
next
  case (Cons w ws)
  obtain r where r: "padded ws = 32 # r" by (simp add: padded_def)
  have w: "word w" "32 \<notin> set w" using Cons.prems word_no_space by auto
  have p: "take (length (spaced c)) (padded (w # ws)) = spaced c \<longleftrightarrow> c = w"
    using spaced_prefix [OF assms(1) w(1)] by (simp add: padded_Cons r)
  show ?case
  proof (cases "c = w")
    case True
    then show ?thesis using p by (simp add: index_of_from.simps [of _ "padded (w # ws)"])
  next
    case False
    then have "index_of_from k (padded (w # ws)) (spaced c) = index_of_from (Suc k + length w) (padded ws) (spaced c)"
      using p w(2) by (simp add: index_of_from.simps [of _ "padded (w # ws)"]) (simp add: padded_Cons spaced_skips)
    with False Cons show ?thesis by simp
  qed
qed

lemma add_one_padded:
  assumes "word c" and "list_all word ws"
  shows "add_one (padded ws) c = padded (if c \<in> set ws then ws else ws @ [c])"
  using index_of_padded [OF assms, of 0] by (auto simp: add_one_def index_of_def padded_snoc)

text \<open>From padded lists back to class attributes.\<close>

lemma dropWhile_space_word: "word w \<Longrightarrow> dropWhile is_space (w @ r) = w @ r"
  by (cases w) (auto simp: word_def)

lemma join_snoc: "ws \<noteq> [] \<Longrightarrow> join (ws @ [w]) = join ws @ 32 # w"
  by (induction ws rule: join.induct) auto

lemma padded_join: "ws \<noteq> [] \<Longrightarrow> padded ws = 32 # join ws @ [32]"
  using spaced_join [of ws] by (simp add: spaced_def)

lemma join_first_word:
  assumes "list_all word ws" and "ws \<noteq> []"
  shows "dropWhile is_space (join ws @ r) = join ws @ r"
  using assms by (induction ws rule: join.induct) (auto simp: dropWhile_space_word)

lemma join_last_word:
  assumes "list_all word ws" and "ws \<noteq> []"
  shows "dropWhile is_space (rev (join ws)) = rev (join ws)"
proof -
  obtain us w where us: "ws = us @ [w]" using assms(2) by (metis append_butlast_last_id)
  have w: "word (rev w)" using assms(1) us by (simp add: word_def list_all_iff)
  show ?thesis
    by (cases "us = []") (use us dropWhile_space_word [OF w] dropWhile_space_word [OF w, of "[]"] in \<open>simp_all add: join_snoc\<close>)
qed

lemma js_trim_padded:
  assumes "list_all word ws"
  shows "js_trim (padded ws) = join ws"
proof (cases "ws = []")
  case True
  then show ?thesis by (simp add: padded_Nil js_trim_def)
next
  case False
  then show ?thesis
    using join_first_word [OF assms False, of "[32]"] join_last_word [OF assms False]
    by (simp add: padded_join js_trim_def)
qed

lemma word_chars: "word w \<Longrightarrow> c \<in> set w \<Longrightarrow> \<not> is_space c"
  by (simp add: word_def list_all_iff)

lemma line_is_space: "c \<in> {9, 10, 13} \<Longrightarrow> is_space c"
  by (auto simp: is_space_def)

lemma word_fixed: "word w \<Longrightarrow> blank_lines w = w"
  unfolding blank_lines_def by (rule map_idI) (use line_is_space word_chars in auto)

lemma blank_lines_padded: "list_all word ws \<Longrightarrow> blank_lines (padded ws) = padded ws"
proof (induction ws)
  case Nil
  then show ?case by (simp add: padded_Nil blank_lines_def)
next
  case (Cons w ws)
  then have "blank_lines w = w" "blank_lines (padded ws) = padded ws" by (simp_all add: word_fixed)
  then show ?case by (simp add: padded_Cons) (simp add: blank_lines_def)
qed

lemma takeWhile_word: "word w \<Longrightarrow> takeWhile (\<lambda>c. \<not> is_space c) (w @ 32 # r) = w"
  by (subst takeWhile_append2) (simp_all add: word_chars)

lemma dropWhile_word: "word w \<Longrightarrow> dropWhile (\<lambda>c. \<not> is_space c) (w @ 32 # r) = 32 # r"
  by (subst dropWhile_append2) (simp_all add: word_chars)

lemma takeWhile_word_end: "word w \<Longrightarrow> takeWhile (\<lambda>c. \<not> is_space c) w = w"
  by (simp add: takeWhile_eq_all_conv word_chars)

lemma dropWhile_word_end: "word w \<Longrightarrow> dropWhile (\<lambda>c. \<not> is_space c) w = []"
  by (simp add: dropWhile_eq_Nil_conv word_chars)

lemma split_ws_join:
  assumes "list_all word ws" and "ws \<noteq> []"
  shows "split_ws (join ws) = ws"
  using assms
proof (induction ws rule: join.induct)
  case (2 w)
  then show ?case by (simp add: split_ws.simps [of w] takeWhile_word_end dropWhile_word_end)
next
  case (3 w v ws)
  have "dropWhile is_space (join (v # ws)) = join (v # ws)"
    using join_first_word [of "v # ws" "[]"] 3 by simp
  then show ?case
    using 3 by (simp add: split_ws.simps [of "w @ 32 # join (v # ws)"] takeWhile_word dropWhile_word)
qed simp

section \<open>The class methods on lists of words\<close>

definition add_word :: "jsstring list \<Rightarrow> jsstring \<Rightarrow> jsstring list" where
  "add_word ws c = (if c \<in> set ws then ws else ws @ [c])"

definition remove_word :: "jsstring list \<Rightarrow> jsstring \<Rightarrow> jsstring list" where
  "remove_word ws c = remove1 c ws"

definition class_words :: "jsstring list \<Rightarrow> bool" where
  "class_words ws \<longleftrightarrow> list_all word ws \<and> distinct ws"

lemma add_word_words: "class_words ws \<Longrightarrow> word c \<Longrightarrow> class_words (add_word ws c)"
  by (simp add: class_words_def add_word_def)

lemma remove_word_words: "class_words ws \<Longrightarrow> class_words (remove_word ws c)"
  by (auto simp: class_words_def remove_word_def list_all_iff dest: notin_set_remove1 set_remove1_subset [THEN subsetD])

lemma remove_word_fold: "class_words ws \<Longrightarrow> class_words (foldl remove_word ws cs)"
  by (induction cs arbitrary: ws) (simp_all add: remove_word_words)

lemma add_word_fold: "class_words ws \<Longrightarrow> list_all word cs \<Longrightarrow> class_words (foldl add_word ws cs)"
  by (induction cs arbitrary: ws) (simp_all add: add_word_words)

lemma set_add_word_fold: "set (foldl add_word ws cs) = set ws \<union> set cs"
  by (induction cs arbitrary: ws) (auto simp: add_word_def)

lemma set_remove_word_fold: "class_words ws \<Longrightarrow> set (foldl remove_word ws cs) = set ws - set cs"
proof (induction cs arbitrary: ws)
  case (Cons c cs)
  then have "set (remove_word ws c) = set ws - {c}"
    by (simp add: remove_word_def class_words_def set_remove1_eq)
  with Cons show ?case by (simp add: remove_word_words) blast
qed simp

lemma add_one_fold:
  "class_words ws \<Longrightarrow> list_all word cs \<Longrightarrow> foldl add_one (padded ws) cs = padded (foldl add_word ws cs)"
proof (induction cs arbitrary: ws)
  case (Cons c cs)
  then have "add_one (padded ws) c = padded (add_word ws c)"
    by (simp add: add_one_padded class_words_def add_word_def)
  with Cons show ?case by (simp add: add_word_words)
qed simp

lemma remove_one_fold:
  "class_words ws \<Longrightarrow> list_all word cs \<Longrightarrow> foldl remove_one (padded ws) cs = padded (foldl remove_word ws cs)"
proof (induction cs arbitrary: ws)
  case (Cons c cs)
  then have "remove_one (padded ws) c = padded (remove_word ws c)"
    by (simp add: remove_one_padded class_words_def remove_word_def)
  with Cons show ?case by (simp add: remove_word_words)
qed simp

lemma join_Nil_iff: "list_all word ws \<Longrightarrow> join ws = [] \<longleftrightarrow> ws = []"
  by (induction ws rule: join.induct) (auto simp: word_def)

text \<open>An empty class attribute, spaced, is two blanks; the second one never starts a match.\<close>

lemma add_one_blank:
  assumes "word c"
  shows "add_one (32 # padded ws) c = 32 # add_one (padded ws) c"
proof -
  obtain r where r: "padded ws = 32 # r" by (simp add: padded_def)
  have "take (length (spaced c)) (32 # padded ws) \<noteq> spaced c"
    using assms by (cases c) (auto simp: spaced_def r word_def)
  then have "index_of_from 0 (32 # padded ws) (spaced c) = index_of_from (Suc 0) (padded ws) (spaced c)"
    by (simp add: index_of_from.simps [of 0 "32 # padded ws"])
  then show ?thesis using index_of_from_start [of "Suc 0" _ _ 0] by (simp add: add_one_def index_of_def)
qed

lemma add_one_blank_fold:
  "class_words ws \<Longrightarrow> list_all word cs \<Longrightarrow> foldl add_one (32 # padded ws) cs = 32 # padded (foldl add_word ws cs)"
proof (induction cs arbitrary: ws)
  case (Cons c cs)
  then have "add_one (32 # padded ws) c = 32 # padded (add_word ws c)"
    by (simp add: add_one_blank add_one_padded class_words_def add_word_def)
  with Cons show ?case by (simp add: add_word_words)
qed simp

lemma js_trim_blank: "js_trim (32 # s) = js_trim s"
  by (simp add: js_trim_def)

lemma addClass_join:
  assumes "class_words ws" and "list_all word cs" and "cs \<noteq> []"
  shows "addClass (join cs) (join ws) = join (foldl add_word ws cs)"
proof -
  have cs: "split_ws (join cs) = cs" "join cs \<noteq> []"
    using assms split_ws_join join_Nil_iff by blast+
  have out: "list_all word (foldl add_word ws cs)"
    using add_word_fold [OF assms(1,2)] by (simp add: class_words_def)
  show ?thesis
  proof (cases "ws = []")
    case True
    have blank: "spaced [] = 32 # padded []" by (simp add: spaced_def padded_Nil)
    have one: "join cs = join (foldl add_word [] cs)" if "length cs = 1"
      using that by (cases cs) (auto simp: add_word_def)
    show ?thesis
      using add_one_blank_fold [OF assms(1,2)] out one cs True
      by (simp add: addClass_def blank js_trim_blank js_trim_padded)
  next
    case False
    then have "spaced (join ws) = padded ws" "join ws \<noteq> []"
      using spaced_join join_Nil_iff assms(1) by (auto simp: class_words_def)
    then show ?thesis
      using add_one_fold [OF assms(1,2)] out cs by (simp add: addClass_def js_trim_padded)
  qed
qed

lemma removeClass_join:
  assumes "class_words ws" and "list_all word cs" and "cs \<noteq> []"
  shows "removeClass (join cs) (join ws) = join (foldl remove_word ws cs)"
proof (cases "ws = []")
  case True
  have "foldl remove_word [] cs = []" by (induction cs) (simp_all add: remove_word_def)
  with True show ?thesis by (simp add: removeClass_def)
next
  case False
  have cs: "split_ws (join cs) = cs" "join cs \<noteq> []"
    using assms split_ws_join join_Nil_iff by blast+
  have out: "list_all word (foldl remove_word ws cs)"
    using remove_word_fold [OF assms(1)] by (simp add: class_words_def)
  have "spaced (join ws) = padded ws" "join ws \<noteq> []" "blank_lines (padded ws) = padded ws"
    using spaced_join join_Nil_iff assms(1) False blank_lines_padded by (auto simp: class_words_def)
  then show ?thesis
    using remove_one_fold [OF assms(1,2)] out cs by (simp add: removeClass_def js_trim_padded)
qed

lemma hasClass_join:
  assumes "class_words ws" and "word c"
  shows "hasClass c (join ws) \<longleftrightarrow> c \<in> set ws"
proof (cases "ws = []")
  case True
  have "take (length (spaced c)) (32 # r) \<noteq> spaced c" if "r = [] \<or> r = [32]" for r
    using that assms(2) by (cases c) (auto simp: spaced_def word_def)
  then have "index_of_from 0 [32, 32] (spaced c) = - 1"
    by (simp add: index_of_from.simps [of _ "[32, 32]"] index_of_from.simps [of _ "[32]"] index_of_from.simps [of _ "[]"])
      (simp add: spaced_def)
  with True show ?thesis by (simp add: hasClass_def index_of_def blank_lines_def) (simp add: spaced_def)
next
  case False
  then show ?thesis
    using index_of_padded [OF assms(2), of ws 0] spaced_join [of ws] blank_lines_padded [of ws] assms(1)
    by (simp add: hasClass_def index_of_def class_words_def)
qed

section \<open>The contract of class attributes\<close>

definition classes :: "jsstring \<Rightarrow> jsstring set" where
  "classes cls = (if cls = [] then {} else set (split_ws cls))"

definition class_ok :: "jsstring \<Rightarrow> bool" where
  "class_ok cls \<longleftrightarrow> cls = [] \<or> class_words (split_ws cls) \<and> join (split_ws cls) = cls"

lemma class_ok_join: "class_ok cls \<longleftrightarrow> (\<exists>ws. class_words ws \<and> cls = join ws)"
proof
  assume "class_ok cls"
  then show "\<exists>ws. class_words ws \<and> cls = join ws"
    by (cases "cls = []") (auto simp: class_ok_def intro: exI [of _ "[]"] simp: class_words_def)
next
  assume "\<exists>ws. class_words ws \<and> cls = join ws"
  then obtain ws where "class_words ws" "cls = join ws" by blast
  then show "class_ok cls"
    using split_ws_join [of ws] by (cases "ws = []") (auto simp: class_ok_def class_words_def)
qed

lemma classes_join: "class_words ws \<Longrightarrow> classes (join ws) = set ws"
  using split_ws_join [of ws] join_Nil_iff [of ws] by (cases "ws = []") (auto simp: classes_def class_words_def)

locale class_attribute =
  fixes ok :: "'c \<Rightarrow> bool"
    and toks :: "'c \<Rightarrow> 'w set"
    and vok :: "'v \<Rightarrow> bool"
    and vtoks :: "'v \<Rightarrow> 'w set"
    and add :: "'v \<Rightarrow> 'c \<Rightarrow> 'c"
    and remove :: "'v \<Rightarrow> 'c \<Rightarrow> 'c"
  assumes ok_add: "ok c \<Longrightarrow> vok v \<Longrightarrow> ok (add v c)"
    and toks_add: "ok c \<Longrightarrow> vok v \<Longrightarrow> toks (add v c) = toks c \<union> vtoks v"
    and ok_remove: "ok c \<Longrightarrow> vok v \<Longrightarrow> ok (remove v c)"
    and toks_remove: "ok c \<Longrightarrow> vok v \<Longrightarrow> toks (remove v c) = toks c - vtoks v"
begin

lemma swap:
  assumes "ok c" and "vok u" and "vok v"
  shows "ok (add v (remove u c))" and "toks (add v (remove u c)) = toks c - vtoks u \<union> vtoks v"
  using assms by (simp_all add: ok_add ok_remove toks_add toks_remove)

lemma swap_back:
  assumes "ok c" and "vok u" and "vok v" and "vtoks u \<inter> vtoks v = {}"
  shows "ok (remove u (add v c))" and "toks (remove u (add v c)) = toks c - vtoks u \<union> vtoks v"
  using assms by (auto simp: ok_add ok_remove toks_add toks_remove)

lemma swap_twice:
  assumes "ok c" and "vok u" and "vok v" and "vtoks u \<inter> toks c = vtoks u" and "vtoks v \<inter> toks c = {}"
  shows "toks (add u (remove v (add v (remove u c)))) = toks c"
  using assms by (auto simp: ok_add ok_remove toks_add toks_remove)

end

definition class_arg :: "jsstring \<Rightarrow> bool" where
  "class_arg v \<longleftrightarrow> v \<noteq> [] \<and> list_all word (split_ws v) \<and> join (split_ws v) = v"

lemma class_arg_join: "class_arg v \<Longrightarrow> \<exists>cs. list_all word cs \<and> cs \<noteq> [] \<and> v = join cs \<and> classes v = set cs"
  unfolding class_arg_def classes_def by (metis join.simps(1))

lemmas class_eval = split_ws.simps is_space_def word_def js_def class_ok_def class_words_def class_arg_def
  hasClass_def index_of_def index_of_from.simps spaced_def blank_lines_def

interpretation jq: class_attribute class_ok classes class_arg classes addClass removeClass
proof
  fix c v :: jsstring
  assume "class_ok c" and "class_arg v"
  then obtain ws cs where ws: "class_words ws" "c = join ws"
    and cs: "list_all word cs" "cs \<noteq> []" "v = join cs" "classes v = set cs"
    using class_ok_join class_arg_join by blast
  show "class_ok (addClass v c)" "classes (addClass v c) = classes c \<union> classes v"
    using addClass_join [OF ws(1) cs(1,2)] add_word_fold [OF ws(1) cs(1)] ws cs
    by (auto simp: class_ok_join classes_join set_add_word_fold)
  show "class_ok (removeClass v c)" "classes (removeClass v c) = classes c - classes v"
    using removeClass_join [OF ws(1) cs(1,2)] remove_word_fold [OF ws(1), of cs] ws cs
    by (auto simp: class_ok_join classes_join set_remove_word_fold)
qed

lemma hasClass_classes:
  assumes "class_ok cls" and "word c"
  shows "hasClass c cls \<longleftrightarrow> c \<in> classes cls"
  using assms hasClass_join classes_join by (auto simp: class_ok_join)

text \<open>
  C25. jQuery's class methods implement sets of words: on every class attribute that lists distinct words
  separated by single blanks, and for every argument of one or more words, \<open>addClass\<close> adds the words of
  its argument, \<open>removeClass\<close> removes them, \<open>hasClass\<close> tests membership, and both updates leave a class
  attribute of the same form, whatever the words have in common as texts.
\<close>

theorem class_methods_refine_sets:
  assumes "class_ok cls" and "class_arg v" and "word c"
  shows "classes (addClass v cls) = classes cls \<union> classes v \<and> classes (removeClass v cls) = classes cls - classes v \<and>
    (hasClass c cls \<longleftrightarrow> c \<in> classes cls) \<and> class_ok (addClass v cls) \<and> class_ok (removeClass v cls)"
  using assms by (simp add: jq.toks_add jq.toks_remove jq.ok_add jq.ok_remove hasClass_classes)

theorem class_methods_refine_sets_witness:
  "class_ok (js ''arrow iconfopen'') \<and> classes (removeClass (js ''iconfopen iconf'') (js ''arrow iconfopen'')) =
     classes (js ''arrow iconfopen'') - classes (js ''iconfopen iconf'') \<and> \<not> hasClass (js ''iconf'') (js ''arrow iconfopen'')"
proof -
  have "class_ok (js ''arrow iconfopen'')" "class_arg (js ''iconfopen iconf'')" "word (js ''iconf'')"
    by (simp_all add: class_eval)
  note class_methods_refine_sets [OF this]
  moreover have "\<not> hasClass (js ''iconf'') (js ''arrow iconfopen'')" by (simp add: class_eval)
  ultimately show ?thesis using \<open>class_ok (js ''arrow iconfopen'')\<close> by blast
qed

section \<open>Display\<close>

definition display_ok :: "jel \<Rightarrow> bool" where
  "display_ok e \<longleftrightarrow> jold e \<noteq> js ''none'' \<and> jtag e \<noteq> [] \<and> jtag e \<noteq> js ''none''"

lemma none_not_empty [simp]: "js ''none'' \<noteq> []" "[] \<noteq> js ''none''"
  by (simp_all add: js_def)

lemma jshow_visible: "display_ok e \<Longrightarrow> is_visible (jshow e)"
  by (auto simp: display_ok_def is_visible_def jshow_def computed_def Let_def)

lemma jhide_hidden: "\<not> is_visible (jhide e)"
  by (simp add: is_visible_def jhide_def computed_def Let_def)

lemma jshow_ok: "display_ok e \<Longrightarrow> display_ok (jshow e)"
  by (auto simp: display_ok_def jshow_def computed_def Let_def)

lemma jhide_ok: "display_ok e \<Longrightarrow> display_ok (jhide e)"
  by (auto simp: display_ok_def jhide_def computed_def Let_def)

lemma jshow_frame: "jid (jshow e) = jid e" "jclass (jshow e) = jclass e" "jsrc (jshow e) = jsrc e"
    "jhtml (jshow e) = jhtml e" "jtag (jshow e) = jtag e" "jsheet (jshow e) = jsheet e"
  by (simp_all add: jshow_def Let_def)

lemma jhide_frame: "jid (jhide e) = jid e" "jclass (jhide e) = jclass e" "jsrc (jhide e) = jsrc e"
    "jhtml (jhide e) = jhtml e" "jtag (jhide e) = jtag e" "jsheet (jhide e) = jsheet e"
  by (simp_all add: jhide_def Let_def)

lemma class_frame:
  "jid (add_class v e) = jid e" "jid (remove_class v e) = jid e"
  "is_visible (add_class v e) = is_visible e" "is_visible (remove_class v e) = is_visible e"
  "display_ok (add_class v e) = display_ok e" "display_ok (remove_class v e) = display_ok e"
  "jsrc (add_class v e) = jsrc e" "jsrc (remove_class v e) = jsrc e"
  "jhtml (add_class v e) = jhtml e" "jhtml (remove_class v e) = jhtml e"
  by (simp_all add: add_class_def remove_class_def is_visible_def computed_def display_ok_def)

lemmas jframe = jshow_frame jhide_frame class_frame

text \<open>Showing what was hidden gives back the display it had.\<close>

lemma show_hide_restores:
  assumes "display_ok e" and "is_visible e" and "jold e = [] \<or> jold e = computed e"
  shows "computed (jshow (jhide e)) = computed e"
proof -
  have hidden: "jstyle (jhide e) = js ''none''" and old: "jold (jhide e) = computed e"
    using assms(2,3) by (auto simp: jhide_def is_visible_def Let_def)
  show ?thesis
  proof (cases "computed e = []")
    case True
    then have "jsheet e = []" by (simp add: computed_def split: if_splits)
    then show ?thesis using hidden old True by (simp add: jshow_def Let_def computed_def jhide_frame)
  next
    case False
    have "jshow (jhide e) = (jhide e)\<lparr>jstyle := computed e\<rparr>"
      using hidden old False by (simp add: jshow_def Let_def)
    then show ?thesis using False by (simp add: computed_def [of "jhide e\<lparr>jstyle := computed e\<rparr>"])
  qed
qed

text \<open>
  C29. \<open>show\<close> and \<open>hide\<close> keep an element's remembered display usable: whatever the inline style and the style sheet say, if
  no \<open>none\<close> is remembered then none is afterwards, \<open>show\<close> makes the element visible (a single call is enough, also against a
  style sheet that hides it), and \<open>hide\<close> makes it invisible. If the element is visible and either remembers no display or remembers the one it has, \<open>show\<close>
  after \<open>hide\<close> gives it back the display it had.
\<close>

theorem display_methods:
  assumes "display_ok e"
  shows "display_ok (jshow e) \<and> display_ok (jhide e) \<and> is_visible (jshow e) \<and> \<not> is_visible (jhide e) \<and>
    (is_visible e \<and> (jold e = [] \<or> jold e = computed e) \<longrightarrow> computed (jshow (jhide e)) = computed e)"
  using assms show_hide_restores [OF assms] by (simp add: jshow_ok jhide_ok jshow_visible jhide_hidden)

definition inline_block :: jel where
  "inline_block = \<lparr>jid = [], jclass = [], jstyle = js ''inline-block'', jold = [], jsheet = js ''none'', jtag = js ''block'',
     jsrc = [], jhtml = []\<rparr>"

theorem display_methods_witness:
  "display_ok inline_block \<and> is_visible inline_block \<and> computed (jshow (jhide inline_block)) = js ''inline-block'' \<and>
   is_visible (jshow inline_block)"
proof -
  have ok: "display_ok inline_block" by (simp add: display_ok_def inline_block_def)
  have "is_visible inline_block" "jold inline_block = []" "computed inline_block = js ''inline-block''"
    by (simp_all add: is_visible_def computed_def inline_block_def)
  with display_methods [OF ok] ok show ?thesis by simp
qed

lemma classes_of_methods:
  assumes "class_ok (jclass e)" and "class_arg (js v)"
  shows "classes (jclass (add_class v e)) = classes (jclass e) \<union> classes (js v)"
    and "classes (jclass (remove_class v e)) = classes (jclass e) - classes (js v)"
    and "class_ok (jclass (add_class v e))" and "class_ok (jclass (remove_class v e))"
  using assms by (simp_all add: add_class_def remove_class_def jq.toks_add jq.toks_remove jq.ok_add jq.ok_remove)

end
