(* ===== verification/DynSections.thy ===== *)
theory DynSections
  imports JQuery
begin

text \<open>
  Folding of sections, directory tables and inherited members, and the ids of the tool tips:
  \<open>docs/html/dynsections.js\<close>. The scripts act through the jQuery methods of \<open>JQuery\<close>. The main results:
  a directory table always shows a set of rows closed under parents, a level shows exactly the rows
  down to that depth, folding hides exactly the subtree, and stripes alternate over the visible rows.
\<close>

section \<open>Sections\<close>

text \<open>
  A document is the list of its elements. \<open>$('#i')\<close> selects the first element with id \<open>i\<close>, or
  nothing. \<open>attr('src')\<close> is \<open>undefined\<close> on an empty selection and on an element without the attribute
  (an empty \<open>jsrc\<close>).
\<close>

definition has_id :: "jsstring \<Rightarrow> jel \<Rightarrow> bool" where
  "has_id i e \<longleftrightarrow> jid e = i"

definition by_id :: "jsstring \<Rightarrow> jel list \<Rightarrow> jel option" where
  "by_id i d = List.find (has_id i) d"

fun on_id :: "jsstring \<Rightarrow> (jel \<Rightarrow> jel) \<Rightarrow> jel list \<Rightarrow> jel list" where
  "on_id i f [] = []"
| "on_id i f (e # d) = (if has_id i e then f e # d else e # on_id i f d)"

definition attr_src :: "jel option \<Rightarrow> jsstring option" where
  "attr_src oe = (case oe of None \<Rightarrow> None | Some e \<Rightarrow> if jsrc e = [] then None else Some (jsrc e))"

definition set_src :: "jsstring \<Rightarrow> jel \<Rightarrow> jel" where
  "set_src v e = e\<lparr>jsrc := v\<rparr>"

definition selection_visible :: "jel option \<Rightarrow> bool" where
  "selection_visible oe = (case oe of None \<Rightarrow> False | Some e \<Rightarrow> is_visible e)"

text \<open>\<open>src.substring(0, src.length - n) + new\<close>: a negative bound counts as 0.\<close>

definition replace_end :: "nat \<Rightarrow> string \<Rightarrow> jsstring \<Rightarrow> jsstring" where
  "replace_end n new src = take (length src - n) src @ js new"

text \<open>
  \<open>toggleVisibility\<close> on the link at position \<open>n\<close> of the document; the flag is false if the call ends
  with a \<open>TypeError\<close>, after the updates it has made by then.
\<close>

definition toggleVisibility :: "nat \<Rightarrow> jel list \<Rightarrow> jel list \<times> bool" where
  "toggleVisibility n d =
     (let base = jid (d ! n);
          summary = base @ js ''-summary'';
          content = base @ js ''-content'';
          trigger = base @ js ''-trigger'';
          src = attr_src (by_id trigger d)
      in if selection_visible (by_id content d)
         then let d1 = on_id content jhide d;
                  d2 = on_id summary jshow d1;
                  d3 = d2[n := remove_class ''opened'' (add_class ''closed'' (d2 ! n))]
              in case src of
                   None \<Rightarrow> (d3, False)
                 | Some s \<Rightarrow> (on_id trigger (set_src (replace_end 8 ''closed.png'' s)) d3, True)
         else let d1 = on_id content jshow d;
                  d2 = on_id summary jhide d1;
                  d3 = d2[n := add_class ''opened'' (remove_class ''closed'' (d2 ! n))]
              in case src of
                   None \<Rightarrow> (d3, False)
                 | Some s \<Rightarrow> (on_id trigger (set_src (replace_end 10 ''open.png'' s)) d3, True))"

section \<open>Directory tables\<close>

text \<open>
  A row of a table with the elements inside it that the scripts select: the spans of a row of a
  directory table, the images of a row of a member table.
\<close>

record row =
  tr :: jel
  inner :: "jel list"

abbreviation row_visible :: "row \<Rightarrow> bool" where
  "row_visible r \<equiv> is_visible (tr r)"

definition on_tr :: "(jel \<Rightarrow> jel) \<Rightarrow> row \<Rightarrow> row" where
  "on_tr f r = r\<lparr>tr := f (tr r)\<rparr>"

definition on_inner :: "(jel \<Rightarrow> jel) \<Rightarrow> row \<Rightarrow> row" where
  "on_inner f r = r\<lparr>inner := map f (inner r)\<rparr>"

text \<open>\<open>filter(':visible:even').addClass('even')\<close>: positions count among the visible rows.\<close>

fun add_even :: "bool \<Rightarrow> row list \<Rightarrow> row list" where
  "add_even b [] = []"
| "add_even b (r # rs) =
     (if row_visible r then (if b then on_tr (add_class ''even'') r else r) # add_even (\<not> b) rs
      else r # add_even b rs)"

definition updateStripes :: "row list \<Rightarrow> row list" where
  "updateStripes rs = add_even True (map (on_tr (remove_class ''even'')) rs)"

text \<open>\<open>split('_')\<close>.\<close>

fun split_on :: "code_unit \<Rightarrow> jsstring \<Rightarrow> jsstring list" where
  "split_on c [] = [[]]"
| "split_on c (x # s) =
     (if x = c then [] # split_on c s
      else case split_on c s of [] \<Rightarrow> [[x]] | w # ws \<Rightarrow> (x # w) # ws)"

text \<open>\<open>$('#i')\<close> for the elements inside the rows.\<close>

fun on_span :: "jsstring \<Rightarrow> (jel \<Rightarrow> jel) \<Rightarrow> row list \<Rightarrow> row list" where
  "on_span i f [] = []"
| "on_span i f (r # rs) =
     (if list_ex (has_id i) (inner r) then r\<lparr>inner := on_id i f (inner r)\<rparr> # rs else r # on_span i f rs)"

definition set_jhtml :: "string \<Rightarrow> jel \<Rightarrow> jel" where
  "set_jhtml v e = e\<lparr>jhtml := js v\<rparr>"

definition level_of :: "jsstring \<Rightarrow> nat" where
  "level_of i = length (split_on 95 i) - 1"

definition toggle_level_row :: "nat \<Rightarrow> row list \<Rightarrow> nat \<Rightarrow> row list" where
  "toggle_level_row level rs k =
     (let i = jid (tr (rs ! k));
          l = level_of i;
          img = js ''img'' @ drop 3 i;
          arr = js ''arr'' @ drop 3 i
      in if l < level + 1
         then let rs1 = on_span img (\<lambda>e. add_class ''iconfopen'' (remove_class ''iconfopen iconfclosed'' e)) rs;
                  rs2 = on_span arr (set_jhtml ''&#9660;'') rs1
              in rs2[k := on_tr jshow (rs2 ! k)]
         else if l = level + 1
         then let rs1 = on_span img (\<lambda>e. add_class ''iconfclosed'' (remove_class ''iconfclosed iconfopen'' e)) rs;
                  rs2 = on_span arr (set_jhtml ''&#9654;'') rs1
              in rs2[k := on_tr jshow (rs2 ! k)]
         else rs[k := on_tr jhide (rs ! k)])"

definition toggleLevel :: "nat \<Rightarrow> row list \<Rightarrow> row list" where
  "toggleLevel level rs = updateStripes (foldl (toggle_level_row level) rs [0..<length rs])"

text \<open>
  The regular expression \<open>^row_ID\d+_$\<close> with flag \<open>i\<close>, for an \<open>ID\<close> of digits and underscores, which
  stands for itself in a regular expression.
\<close>

definition one_sub :: "jsstring \<Rightarrow> jsstring \<Rightarrow> bool" where
  "one_sub i s \<longleftrightarrow>
     (let p = js ''row_'' @ i; r = drop (length p) s
      in map ascii_lower (take (length p) s) = map ascii_lower p \<and>
         takeWhile is_digit r \<noteq> [] \<and> dropWhile is_digit r = [95])"

definition swap_class :: "string \<Rightarrow> string \<Rightarrow> jel \<Rightarrow> jel" where
  "swap_class a b e = (if hasClass (js a) (jclass e) then add_class b (remove_class a e) else e)"

definition set_arrow :: "string \<Rightarrow> jel \<Rightarrow> jel" where
  "set_arrow v e = (if hasClass (js ''arrow'') (jclass e) then set_jhtml v e else e)"

definition fold_icons :: "row \<Rightarrow> row" where
  "fold_icons r = on_inner (set_arrow ''&#9654;'') (on_inner (swap_class ''iconfopen'' ''iconfclosed'') r)"

definition unfold_icons :: "row \<Rightarrow> row" where
  "unfold_icons r = on_inner (set_arrow ''&#9660;'') (on_inner (swap_class ''iconfclosed'' ''iconfopen'') r)"

text \<open>The current row is the first with the id; its following siblings are the rest of the table.\<close>

fun split_row :: "jsstring \<Rightarrow> row list \<Rightarrow> (row list \<times> row \<times> row list) option" where
  "split_row i [] = None"
| "split_row i (r # rs) =
     (if has_id i (tr r) then Some ([], r, rs)
      else case split_row i rs of None \<Rightarrow> None | Some (before, cur, rest) \<Rightarrow> Some (r # before, cur, rest))"

definition is_child :: "jsstring \<Rightarrow> row \<Rightarrow> bool" where
  "is_child i r \<longleftrightarrow> one_sub i (jid (tr r))"

definition has_prefix :: "jsstring \<Rightarrow> row \<Rightarrow> bool" where
  "has_prefix p r \<longleftrightarrow> take (length p) (jid (tr r)) = p"

definition first_visible :: "row list \<Rightarrow> bool" where
  "first_visible rs \<longleftrightarrow> rs \<noteq> [] \<and> row_visible (hd rs)"

definition on_some :: "(row \<Rightarrow> bool) \<Rightarrow> (row \<Rightarrow> row) \<Rightarrow> row list \<Rightarrow> row list" where
  "on_some P f rs = map (\<lambda>r. if P r then f r else r) rs"

definition toggleFolder :: "jsstring \<Rightarrow> row list \<Rightarrow> row list" where
  "toggleFolder i rs =
     updateStripes
       (case split_row (js ''row_'' @ i) rs of
          None \<Rightarrow> rs
        | Some (before, cur, rest) \<Rightarrow>
            if first_visible (filter (is_child i) rest)
            then before @ fold_icons cur # on_some (has_prefix (js ''row_'' @ i)) (on_tr jhide) rest
            else before @ unfold_icons cur #
                   on_some (is_child i) (on_tr jshow) (on_some (is_child i) fold_icons rest))"

section \<open>Inherited members\<close>

definition set_css_display :: "string \<Rightarrow> jel \<Rightarrow> jel" where
  "set_css_display v e = e\<lparr>jstyle := js v\<rparr>"

definition inherited :: "string \<Rightarrow> jsstring \<Rightarrow> row \<Rightarrow> bool" where
  "inherited c i r \<longleftrightarrow> hasClass (js c) (jclass (tr r)) \<and> hasClass i (jclass (tr r))"

definition toggleInherit :: "jsstring \<Rightarrow> row list \<Rightarrow> row list \<times> bool" where
  "toggleInherit i rs =
     (let imgs = concat (map inner (filter (inherited ''inherit_header'' i) rs));
          src = attr_src (case imgs of [] \<Rightarrow> None | e # _ \<Rightarrow> Some e)
      in if first_visible (filter (inherited ''inherit'' i) rs)
         then let rs1 = on_some (inherited ''inherit'' i) (on_tr (set_css_display ''none'')) rs
              in case src of
                   None \<Rightarrow> (rs1, False)
                 | Some s \<Rightarrow> (on_some (inherited ''inherit_header'' i)
                     (on_inner (set_src (replace_end 8 ''closed.png'' s))) rs1, True)
         else let rs1 = on_some (inherited ''inherit'' i) (on_tr (set_css_display ''table-row'')) rs
              in case src of
                   None \<Rightarrow> (rs1, False)
                 | Some s \<Rightarrow> (on_some (inherited ''inherit_header'' i)
                     (on_inner (set_src (replace_end 10 ''open.png'' s))) rs1, True))"

section \<open>Tool tips\<close>

text \<open>
  \<open>replace(/.*\//, '')\<close> deletes up to the last slash of the first line that has one, where a line ends at
  the terminators that \<open>.\<close> does not match; then every other character than letters, digits and \<open>_\<close>
  becomes \<open>_\<close>.
\<close>

definition line_end :: "code_unit \<Rightarrow> bool" where
  "line_end c \<longleftrightarrow> c \<in> {10, 13, 8232, 8233}"

definition after_last_slash :: "jsstring \<Rightarrow> jsstring" where
  "after_last_slash s = rev (takeWhile (\<lambda>c. c \<noteq> 47) (rev s))"

function strip_path :: "jsstring \<Rightarrow> jsstring" where
  "strip_path s =
     (let l = takeWhile (\<lambda>c. \<not> line_end c) s; r = dropWhile (\<lambda>c. \<not> line_end c) s
      in if 47 \<in> set l then after_last_slash l @ r
         else case r of [] \<Rightarrow> l | c # r' \<Rightarrow> l @ c # strip_path r')"
  by pat_completeness auto
termination
proof (relation "measure length")
  fix s l r :: jsstring and c r'
  assume "r = dropWhile (\<lambda>c. \<not> line_end c) s" "r = c # r'"
  then have "length (c # r') \<le> length s" by (metis length_dropWhile_le)
  then show "(r', s) \<in> measure length" by simp
qed simp

declare strip_path.simps [simp del]

definition is_id_char :: "code_unit \<Rightarrow> bool" where
  "is_id_char c \<longleftrightarrow> 97 \<le> c \<and> c \<le> 122 \<or> c = 95 \<or> 65 \<le> c \<and> c \<le> 90 \<or> 48 \<le> c \<and> c \<le> 57"

definition powertip_id :: "jsstring \<Rightarrow> jsstring" where
  "powertip_id href = map (\<lambda>c. if is_id_char c then c else 95) (strip_path href)"

text \<open>The \<open>powertip\<close> datum of a link: the content of the element with that id, or \<open>null\<close>.\<close>

definition powertip :: "jel list \<Rightarrow> jsstring \<Rightarrow> jsstring option" where
  "powertip d href = map_option jhtml (by_id (powertip_id href) d)"

section \<open>Toggling a section\<close>

lemma by_id_Some: "by_id i d = Some e \<Longrightarrow> jid e = i"
  by (auto simp: by_id_def find_Some_iff has_id_def)

lemma by_id_on_id:
  assumes "\<And>e. jid (f e) = jid e"
  shows "by_id i (on_id j f d) = (if i = j then map_option f (by_id i d) else by_id i d)"
  using assms by (induction d) (auto simp: by_id_def has_id_def)

lemma by_id_update:
  assumes "n < length d" and "jid x = jid (d ! n)" and "jid (d ! n) \<noteq> i"
  shows "by_id i (d[n := x]) = by_id i d"
  using assms
proof (induction d arbitrary: n)
  case (Cons a d)
  then show ?case by (cases n) (simp_all add: by_id_def has_id_def)
qed simp

lemma on_id_length [simp]: "length (on_id i f d) = length d"
  by (induction d) auto

lemma on_id_nth: "n < length d \<Longrightarrow> jid (d ! n) \<noteq> i \<Longrightarrow> on_id i f d ! n = d ! n"
proof (induction d arbitrary: n)
  case (Cons a d)
  then show ?case by (cases n) (auto simp: has_id_def)
qed simp

lemma set_src_frame [simp]:
  "jid (set_src v e) = jid e" "jsrc (set_src v e) = v" "is_visible (set_src v e) = is_visible e"
  "display_ok (set_src v e) = display_ok e" "jclass (set_src v e) = jclass e"
  by (simp_all add: set_src_def is_visible_def computed_def display_ok_def)

lemma replace_icon:
  "replace_end 8 ''closed.png'' (pre @ js ''open.png'') = pre @ js ''closed.png''"
  "replace_end 10 ''open.png'' (pre @ js ''closed.png'') = pre @ js ''open.png''"
  by (simp_all add: replace_end_def js_def)

lemma append_js_ne [simp]: "pre @ js s = pre \<longleftrightarrow> s = []" "pre = pre @ js s \<longleftrightarrow> s = []"
  by (auto simp: js_def)

lemmas by_id_simps = by_id_on_id by_id_update on_id_nth jframe

lemma class_arg_words:
  "class_arg (js ''opened'')" "class_arg (js ''closed'')" "class_arg (js ''even'')"
  "class_arg (js ''iconfopen'')" "class_arg (js ''iconfclosed'')"
  "class_arg (js ''iconfopen iconfclosed'')" "class_arg (js ''iconfclosed iconfopen'')"
  by (simp_all add: class_eval)

lemma classes_words:
  "classes (js ''opened'') = {js ''opened''}" "classes (js ''closed'') = {js ''closed''}"
  "classes (js ''even'') = {js ''even''}"
  "classes (js ''iconfopen'') = {js ''iconfopen''}" "classes (js ''iconfclosed'') = {js ''iconfclosed''}"
  "classes (js ''iconfopen iconfclosed'') = {js ''iconfopen'', js ''iconfclosed''}"
  "classes (js ''iconfclosed iconfopen'') = {js ''iconfclosed'', js ''iconfopen''}"
  by (simp_all add: classes_def class_eval)

definition link_ok :: "bool \<Rightarrow> jel \<Rightarrow> bool" where
  "link_ok v e \<longleftrightarrow> class_ok (jclass e) \<and> (js ''opened'' \<in> classes (jclass e) \<longleftrightarrow> v) \<and>
     (js ''closed'' \<in> classes (jclass e) \<longleftrightarrow> \<not> v)"

definition shown :: "bool \<Rightarrow> jel option \<Rightarrow> bool" where
  "shown v oe = (case oe of None \<Rightarrow> False | Some e \<Rightarrow> display_ok e \<and> is_visible e = v)"

text \<open>A section whose link, summary, content and icon agree on whether it is open.\<close>

definition section_state :: "nat \<Rightarrow> jsstring \<Rightarrow> bool \<Rightarrow> jel list \<Rightarrow> bool" where
  "section_state n pre v d \<longleftrightarrow>
     n < length d \<and> link_ok v (d ! n) \<and>
     shown v (by_id (jid (d ! n) @ js ''-content'') d) \<and> shown (\<not> v) (by_id (jid (d ! n) @ js ''-summary'') d) \<and>
     map_option jsrc (by_id (jid (d ! n) @ js ''-trigger'') d) =
       Some (pre @ js (if v then ''open.png'' else ''closed.png''))"

lemma link_ok_swap:
  assumes "link_ok v e"
  shows "link_ok False (remove_class ''opened'' (add_class ''closed'' e))"
    and "link_ok True (add_class ''opened'' (remove_class ''closed'' e))"
  using assms by (auto simp: link_ok_def classes_of_methods class_arg_words classes_words)

lemma shown_jshow: "shown v oe \<Longrightarrow> shown True (map_option jshow oe)"
  and shown_jhide: "shown v oe \<Longrightarrow> shown False (map_option jhide oe)"
  and shown_visible: "shown v oe \<Longrightarrow> selection_visible oe = v"
  by (auto simp: shown_def selection_visible_def jshow_visible jhide_hidden jshow_ok jhide_ok split: option.splits)

lemma attr_src_Some: "map_option jsrc oe = Some s \<Longrightarrow> s \<noteq> [] \<Longrightarrow> attr_src oe = Some s"
  by (auto simp: attr_src_def)

text \<open>
  C26. A section of a page stays consistent under \<open>toggleVisibility\<close>: if the link, the summary, the content
  and the icon of a section agree on whether it is open, the call returns normally, afterwards they
  agree on the opposite, and the directory part of the icon's path is the same; so calling it twice gives the
  first state back.
\<close>

theorem toggleVisibility_flips:
  assumes "section_state n pre v d"
  shows "snd (toggleVisibility n d) \<and> section_state n pre (\<not> v) (fst (toggleVisibility n d))"
proof -
  define base where "base = jid (d ! n)"
  have n: "n < length d" and link: "link_ok v (d ! n)"
    and content: "shown v (by_id (base @ js ''-content'') d)"
    and summary: "shown (\<not> v) (by_id (base @ js ''-summary'') d)"
    and trigger: "map_option jsrc (by_id (base @ js ''-trigger'') d) =
       Some (pre @ js (if v then ''open.png'' else ''closed.png''))"
    using assms by (simp_all add: section_state_def base_def)
  note src = attr_src_Some [OF trigger]
  obtain t where t: "by_id (base @ js ''-trigger'') d = Some t" using trigger by auto
  note parts = link_ok_swap [OF link] shown_jshow [OF content] shown_jhide [OF content]
    shown_jshow [OF summary] shown_jhide [OF summary] shown_visible [OF content]
  show ?thesis
    by (cases v) (use n parts src t in \<open>simp_all add: toggleVisibility_def Let_def section_state_def by_id_simps
      base_def [symmetric] replace_icon option.map_comp comp_def\<close>)
qed

definition plain_el :: "string \<Rightarrow> string \<Rightarrow> string \<Rightarrow> string \<Rightarrow> jel" where
  "plain_el i c st tag = \<lparr>jid = js i, jclass = js c, jstyle = js st, jold = [], jsheet = js tag, jtag = js tag,
     jsrc = [], jhtml = []\<rparr>"

definition open_section :: "jel list" where
  "open_section =
     [plain_el ''dynsection-0'' ''dynheader opened'' [] ''block'', plain_el ''dynsection-0-summary'' [] ''none'' ''block'',
      set_src (js ''img/open.png'') (plain_el ''dynsection-0-trigger'' [] [] ''inline''),
      plain_el ''dynsection-0-content'' [] [] ''block'']"

lemma open_section_state: "section_state 0 (js ''img/'') True open_section"
  by (simp add: section_state_def open_section_def plain_el_def set_src_def by_id_def has_id_def shown_def display_ok_def
      is_visible_def computed_def link_ok_def classes_def class_eval)

theorem toggleVisibility_flips_witness:
  "section_state 0 (js ''img/'') True open_section \<and> snd (toggleVisibility 0 open_section) \<and>
   section_state 0 (js ''img/'') False (fst (toggleVisibility 0 open_section))"
  using toggleVisibility_flips [OF open_section_state] open_section_state by simp

section \<open>Stripes\<close>

lemma on_tr_simps [simp]: "tr (on_tr f r) = f (tr r)" "inner (on_tr f r) = inner r"
    "tr (on_inner g r) = tr r" "inner (on_inner g r) = map g (inner r)"
  by (simp_all add: on_tr_def on_inner_def)

lemma add_even_map:
  assumes "\<And>r. f (on_tr (add_class ''even'') r) = f r"
  shows "map f (add_even b rs) = map f rs"
  by (induction b rs rule: add_even.induct) (simp_all add: assms)

lemma updateStripes_map:
  assumes "\<And>r. f (on_tr (add_class ''even'') r) = f r" and "\<And>r. f (on_tr (remove_class ''even'') r) = f r"
  shows "map f (updateStripes rs) = map f rs"
proof -
  have "map f (add_even True rs') = map f rs'" for rs' by (rule add_even_map) (rule assms(1))
  then show ?thesis by (simp add: updateStripes_def assms(2))
qed

definition is_even :: "row \<Rightarrow> bool" where
  "is_even r \<longleftrightarrow> js ''even'' \<in> classes (jclass (tr r))"

fun alternating :: "bool \<Rightarrow> nat \<Rightarrow> bool list" where
  "alternating b 0 = []"
| "alternating b (Suc n) = b # alternating (\<not> b) n"

lemma add_even_alternates:
  assumes "list_all (\<lambda>r. class_ok (jclass (tr r)) \<and> \<not> is_even r) rs"
  shows "map is_even (filter row_visible (add_even b rs)) = alternating b (length (filter row_visible rs)) \<and>
    list_all (\<lambda>r. \<not> row_visible r \<longrightarrow> \<not> is_even r) (add_even b rs)"
  using assms
  by (induction b rs rule: add_even.induct)
    (auto simp: is_even_def class_frame classes_of_methods class_arg_words classes_words)

lemma stripes_alternate:
  assumes "list_all (\<lambda>r. class_ok (jclass (tr r))) rs"
  shows "map is_even (filter row_visible (updateStripes rs)) = alternating True (length (filter row_visible rs)) \<and>
    list_all (\<lambda>r. \<not> row_visible r \<longrightarrow> \<not> is_even r) (updateStripes rs)"
proof -
  have "list_all (\<lambda>r. class_ok (jclass (tr r)) \<and> \<not> is_even r) (map (on_tr (remove_class ''even'')) rs)"
    using assms by (auto simp: list_all_iff is_even_def classes_of_methods class_arg_words classes_words)
  moreover have "filter row_visible (map (on_tr (remove_class ''even'')) rs) =
      map (on_tr (remove_class ''even'')) (filter row_visible rs)"
    by (simp add: filter_map comp_def class_frame)
  ultimately show ?thesis using add_even_alternates by (simp add: updateStripes_def)
qed

section \<open>Row ids\<close>

definition path_id :: "nat list \<Rightarrow> jsstring" where
  "path_id p = concat (map (\<lambda>n. nat_to_string n @ [95]) p)"

definition row_id :: "nat list \<Rightarrow> jsstring" where
  "row_id p = js ''row_'' @ path_id p"

lemma path_id_Nil [simp]: "path_id [] = []"
  and path_id_Cons: "path_id (n # p) = nat_to_string n @ 95 # path_id p"
  and path_id_append: "path_id (p @ q) = path_id p @ path_id q"
  by (simp_all add: path_id_def)

lemma digit_not_bar: "\<not> is_digit 95" "is_digit c \<Longrightarrow> c \<noteq> 95"
  by (auto simp: is_digit_def)

lemma number_takeWhile: "takeWhile is_digit (nat_to_string n @ 95 # r) = nat_to_string n"
  by (subst takeWhile_append2) (simp_all add: nat_to_string_digits digit_not_bar)

lemma number_dropWhile: "dropWhile is_digit (nat_to_string n @ 95 # r) = 95 # r"
  by (subst dropWhile_append2) (simp_all add: nat_to_string_digits digit_not_bar)

lemma number_cancel: "nat_to_string n @ 95 # r = nat_to_string m @ 95 # s \<longleftrightarrow> n = m \<and> r = s"
  by (metis append_same_eq list.inject nat_to_string_inj number_dropWhile number_takeWhile)

text \<open>The id of a row starts with the id of another exactly if its path does.\<close>

lemma path_id_prefix: "(\<exists>r. path_id q = path_id p @ r) \<longleftrightarrow> prefix p q"
proof (induction p arbitrary: q)
  case (Cons n p)
  show ?case
  proof (cases q)
    case Nil
    then show ?thesis by (simp add: path_id_Cons)
  next
    case (Cons m q')
    then have "(\<exists>r. path_id q = path_id (n # p) @ r) \<longleftrightarrow> n = m \<and> (\<exists>r. path_id q' = path_id p @ r)"
      by (auto simp: path_id_Cons number_cancel)
    then show ?thesis using Cons.IH Cons by simp
  qed
qed simp

lemma take_prefix: "take (length p) s = p \<longleftrightarrow> (\<exists>r. s = p @ r)"
  by (metis append_eq_conv_conj append_take_drop_id)

lemma row_id_prefix: "take (length (row_id p)) (row_id q) = row_id p \<longleftrightarrow> prefix p q"
  unfolding take_prefix using path_id_prefix by (auto simp: row_id_def)

lemma row_id_inj: "row_id p = row_id q \<longleftrightarrow> p = q"
  by (metis prefix_order.antisym prefix_order.refl row_id_prefix take_all order_refl)

lemma row_id_lower: "map ascii_lower (row_id p) = row_id p"
proof -
  have "map ascii_lower (path_id p) = path_id p"
  proof (rule map_idI)
    fix c
    assume "c \<in> set (path_id p)"
    then have "is_digit c \<or> c = 95" using nat_to_string_digits by (auto simp: path_id_def split: if_splits)
    then show "ascii_lower c = c" by (auto simp: ascii_lower_def is_digit_def)
  qed
  then show ?thesis by (simp add: row_id_def) (simp add: js_def ascii_lower_def)
qed

lemma one_sub_row: "one_sub (path_id p) (row_id q) \<longleftrightarrow> (\<exists>m. q = p @ [m])"
proof -
  have "one_sub (path_id p) (row_id q) \<longleftrightarrow> prefix p q \<and>
      (let r = drop (length (row_id p)) (row_id q) in takeWhile is_digit r \<noteq> [] \<and> dropWhile is_digit r = [95])"
    unfolding one_sub_def row_id_def [symmetric] Let_def row_id_prefix [symmetric] row_id_lower take_map [symmetric] by simp
  also have "\<dots> \<longleftrightarrow> (\<exists>t. q = p @ t \<and> takeWhile is_digit (path_id t) \<noteq> [] \<and> dropWhile is_digit (path_id t) = [95])"
    by (auto simp: prefix_def row_id_def path_id_append Let_def)
  also have "\<dots> \<longleftrightarrow> (\<exists>m. q = p @ [m])"
  proof -
    have "takeWhile is_digit (path_id t) \<noteq> [] \<and> dropWhile is_digit (path_id t) = [95] \<longleftrightarrow> (\<exists>m. t = [m])" for t
    proof (cases t)
      case (Cons m t')
      then show ?thesis by (cases t') (simp_all add: path_id_Cons number_takeWhile number_dropWhile)
    qed simp
    then show ?thesis by auto
  qed
  finally show ?thesis .
qed

lemma split_on_length: "length (split_on c s) = Suc (count_list s c)"
  by (induction s) (auto split: list.splits)

lemma level_of_row: "level_of (row_id p) = Suc (length p)"
proof -
  have digits: "count_list (nat_to_string n) 95 = 0" for n
    using nat_to_string_digits digit_not_bar(2) by (metis count_notin)
  have "count_list (path_id p) 95 = length p"
    by (induction p) (simp_all add: path_id_Cons digits)
  moreover have "count_list (js ''row_'') 95 = 1" by (simp add: js_def)
  ultimately show ?thesis by (simp add: level_of_def split_on_length row_id_def)
qed

section \<open>Directory tables\<close>

text \<open>
  A directory table lists the rows of a forest, an ancestor before its descendants; \<open>ps\<close> are the
  paths of the rows.
\<close>

definition table_ok :: "nat list list \<Rightarrow> row list \<Rightarrow> bool" where
  "table_ok ps rs \<longleftrightarrow>
     map (\<lambda>r. jid (tr r)) rs = map row_id ps \<and>
     list_all (\<lambda>r. display_ok (tr r) \<and> class_ok (jclass (tr r))) rs \<and>
     distinct ps \<and> sorted_wrt (\<lambda>p q. \<not> strict_prefix q p) ps"

definition shown_paths :: "nat list list \<Rightarrow> row list \<Rightarrow> nat list set" where
  "shown_paths ps rs = {p \<in> set ps. list_ex (\<lambda>r. jid (tr r) = row_id p \<and> row_visible r) rs}"

definition ancestors_shown :: "nat list list \<Rightarrow> row list \<Rightarrow> bool" where
  "ancestors_shown ps rs \<longleftrightarrow>
     (\<forall>q \<in> shown_paths ps rs. \<forall>p \<in> set ps. strict_prefix p q \<longrightarrow> p \<in> shown_paths ps rs)"

definition striped :: "row list \<Rightarrow> bool" where
  "striped rs \<longleftrightarrow> map is_even (filter row_visible rs) = alternating True (length (filter row_visible rs)) \<and>
     list_all (\<lambda>r. \<not> row_visible r \<longrightarrow> \<not> is_even r) rs"

lemma shown_paths_iff:
  "p \<in> shown_paths ps rs \<longleftrightarrow> p \<in> set ps \<and> (\<exists>r \<in> set rs. jid (tr r) = row_id p \<and> row_visible r)"
  by (simp add: shown_paths_def list_ex_iff)

lemma ids_in_table: "table_ok ps rs \<Longrightarrow> r \<in> set rs \<Longrightarrow> \<exists>q \<in> set ps. jid (tr r) = row_id q"
  by (metis (no_types, lifting) image_iff list.set_map table_ok_def)

text \<open>Restriping changes neither ids nor display.\<close>

lemma updateStripes_sig:
  "map (\<lambda>r. (jid (tr r), row_visible r)) (updateStripes rs) = map (\<lambda>r. (jid (tr r), row_visible r)) rs"
  by (rule updateStripes_map) (simp_all add: jframe)

lemma shown_paths_sig:
  assumes "map (\<lambda>r. (jid (tr r), row_visible r)) rs = map (\<lambda>r. (jid (tr r), row_visible r)) rs'"
  shows "shown_paths ps rs = shown_paths ps rs'"
proof -
  have sig: "(\<exists>r \<in> set rs. jid (tr r) = i \<and> row_visible r) \<longleftrightarrow>
      (i, True) \<in> set (map (\<lambda>r. (jid (tr r), row_visible r)) rs)" for i rs
    by auto
  show ?thesis unfolding set_eq_iff shown_paths_iff sig assms by simp
qed

lemma shown_paths_stripes: "shown_paths ps (updateStripes rs) = shown_paths ps rs"
  by (rule shown_paths_sig) (rule updateStripes_sig)

lemma updateStripes_rows:
  assumes "list_all (\<lambda>r. display_ok (tr r) \<and> class_ok (jclass (tr r))) rs"
  shows "list_all (\<lambda>r. display_ok (tr r) \<and> class_ok (jclass (tr r))) (updateStripes rs)"
proof -
  let ?ok = "\<lambda>r. display_ok (tr r) \<and> class_ok (jclass (tr r))"
  have "list_all ?ok (add_even b xs)" if "list_all ?ok xs" for b xs
    using that by (induction b xs rule: add_even.induct) (simp_all add: jframe classes_of_methods class_arg_words)
  moreover have "list_all ?ok (map (on_tr (remove_class ''even'')) rs)"
    using assms by (simp add: list_all_iff jframe classes_of_methods class_arg_words)
  ultimately show ?thesis by (simp add: updateStripes_def)
qed

lemma updateStripes_ids: "map (\<lambda>r. jid (tr r)) (updateStripes rs) = map (\<lambda>r. jid (tr r)) rs"
  by (rule updateStripes_map) (simp_all add: jframe)

lemma table_ok_stripes: "table_ok ps rs \<Longrightarrow> table_ok ps (updateStripes rs)"
  by (simp add: table_ok_def updateStripes_ids updateStripes_rows)

lemma striped_stripes: "table_ok ps rs \<Longrightarrow> striped (updateStripes rs)"
proof -
  assume "table_ok ps rs"
  then have "list_all (\<lambda>r. class_ok (jclass (tr r))) rs" by (simp add: table_ok_def list_all_iff)
  moreover have "length (filter row_visible (updateStripes rs)) = length (filter row_visible rs)"
  proof -
    have "map row_visible (updateStripes rs) = map row_visible rs"
      by (rule updateStripes_map) (simp_all add: jframe)
    then show ?thesis by (metis (no_types) comp_def length_map filter_map id_apply filter_cong)
  qed
  ultimately show ?thesis using stripes_alternate by (simp add: striped_def)
qed

subsection \<open>Levels\<close>

definition level_tr :: "nat \<Rightarrow> jel \<Rightarrow> jel" where
  "level_tr level e = (if level_of (jid e) \<le> level + 1 then jshow e else jhide e)"

lemma on_span_tr: "map tr (on_span i f rs) = map tr rs"
  by (induction rs) auto

lemma toggle_level_row_tr:
  assumes "k < length rs"
  shows "map tr (toggle_level_row level rs k) = (map tr rs)[k := level_tr level (map tr rs ! k)]"
proof -
  have nth: "tr (on_span i f xs ! k) = tr (xs ! k)" if "length xs = length rs" for i f xs
    using on_span_tr [of i f xs] that assms by (metis length_map nth_map)
  have len: "length (on_span i f xs) = length xs" for i f xs
    using on_span_tr [of i f xs] by (metis length_map)
  show ?thesis
    using assms by (simp add: toggle_level_row_def Let_def map_update on_span_tr level_tr_def nth len)
qed

lemma foldl_update:
  assumes "m \<le> length xs"
  shows "foldl (\<lambda>ys k. ys[k := g (ys ! k)]) xs [0..<m] = map g (take m xs) @ drop m xs"
  using assms
proof (induction m)
  case (Suc m)
  then have "drop m xs = xs ! m # drop (Suc m) xs" by (simp add: Cons_nth_drop_Suc)
  with Suc show ?case by (simp add: nth_append list_update_append take_Suc_conv_app_nth)
qed simp

lemma foldl_toggle_level_tr:
  "set ks \<subseteq> {..<length rs} \<Longrightarrow>
   map tr (foldl (toggle_level_row level) rs ks) =
     foldl (\<lambda>es k. es[k := level_tr level (es ! k)]) (map tr rs) ks"
proof (induction ks arbitrary: rs)
  case (Cons k ks)
  then have "map tr (toggle_level_row level rs k) = (map tr rs)[k := level_tr level (map tr rs ! k)]"
    by (simp add: toggle_level_row_tr)
  moreover from this have "length (toggle_level_row level rs k) = length rs" by (metis length_list_update length_map)
  ultimately show ?case using Cons by simp
qed simp

lemma toggle_level_rows:
  "map tr (foldl (toggle_level_row level) rs [0..<length rs]) = map (level_tr level) (map tr rs)"
  using foldl_toggle_level_tr [of "[0..<length rs]" rs level] foldl_update [of "length rs" "map tr rs" "level_tr level"]
  by (simp add: atLeast_upt)


lemma map_tr: "map (\<lambda>r. f (tr r)) rs = map f (map tr rs)"
  by simp

lemma level_tr_ok:
  "jid (level_tr level e) = jid e" "jclass (level_tr level e) = jclass e"
  "display_ok e \<Longrightarrow> display_ok (level_tr level e)"
  "display_ok e \<Longrightarrow> is_visible (level_tr level e) \<longleftrightarrow> level_of (jid e) \<le> level + 1"
  by (simp_all add: level_tr_def jframe jshow_ok jhide_ok jshow_visible jhide_hidden)

text \<open>Well-formedness depends only on the rows' elements.\<close>

definition same_row :: "jel \<Rightarrow> jel \<Rightarrow> bool" where
  "same_row e e' \<longleftrightarrow> jid e' = jid e \<and> jclass e' = jclass e \<and> (display_ok e \<longrightarrow> display_ok e')"

lemma table_ok_cong:
  assumes "table_ok ps rs" and "list_all2 same_row (map tr rs) (map tr rs')"
  shows "table_ok ps rs'"
proof -
  have rows: "length rs' = length rs" "\<And>k. k < length rs \<Longrightarrow> same_row (tr (rs ! k)) (tr (rs' ! k))"
    using assms(2) by (auto simp: list_all2_conv_all_nth)
  then have "map (\<lambda>r. jid (tr r)) rs' = map (\<lambda>r. jid (tr r)) rs"
    by (intro nth_equalityI) (simp_all add: same_row_def)
  then show ?thesis
    using assms(1) rows by (auto simp: table_ok_def list_all_length same_row_def)
qed

lemma same_row_map: "(\<And>e. same_row e (g e)) \<Longrightarrow> list_all2 same_row es (map g es)"
  by (simp add: list_all2_conv_all_nth)

lemma level_tr_same: "same_row e (level_tr level e)"
  by (simp add: same_row_def level_tr_ok)

lemma table_ok_level:
  "table_ok ps rs \<Longrightarrow> table_ok ps (foldl (toggle_level_row level) rs [0..<length rs])"
  by (erule table_ok_cong) (unfold toggle_level_rows, rule same_row_map, rule level_tr_same)

lemma level_depth:
  assumes "table_ok ps rs"
  shows "map row_visible (toggleLevel level rs) = map (\<lambda>p. length p \<le> level) ps \<and>
    striped (toggleLevel level rs) \<and> table_ok ps (toggleLevel level rs)"
proof -
  let ?rs = "foldl (toggle_level_row level) rs [0..<length rs]"
  have "map row_visible (toggleLevel level rs) = map row_visible ?rs"
    unfolding toggleLevel_def by (rule updateStripes_map) (simp_all add: jframe)
  also have "\<dots> = map (\<lambda>e. is_visible (level_tr level e)) (map tr rs)"
    unfolding map_tr toggle_level_rows by simp
  also have "\<dots> = map (\<lambda>e. level_of (jid e) \<le> level + 1) (map tr rs)"
    using assms by (simp add: table_ok_def list_all_iff level_tr_ok)
  also have "\<dots> = map (\<lambda>i. level_of i \<le> level + 1) (map (\<lambda>r. jid (tr r)) rs)" by simp
  also have "\<dots> = map (\<lambda>p. length p \<le> level) ps"
    using assms by (simp add: table_ok_def level_of_row)
  finally show ?thesis
    using table_ok_level [OF assms] striped_stripes table_ok_stripes unfolding toggleLevel_def by blast
qed

text \<open>
  \<open>toggleLevel\<close> shows exactly the rows of a directory table that are at most \<open>level\<close> deep, whatever was
  visible before; afterwards the classes of the visible rows alternate, beginning with \<open>even\<close>, no hidden row is \<open>even\<close>,
  and the table is still well formed.
\<close>

theorem toggleLevel_shows_depth:
  assumes "table_ok ps rs"
  shows "map row_visible (toggleLevel level rs) = map (\<lambda>p. length p \<le> level) ps \<and>
    striped (toggleLevel level rs) \<and> table_ok ps (toggleLevel level rs)"
  by (rule level_depth) (rule assms)

subsection \<open>Folders\<close>

lemma split_row_Some:
  "split_row i rs = Some (before, cur, rest) \<Longrightarrow> rs = before @ cur # rest \<and> jid (tr cur) = i"
  by (induction rs arbitrary: before) (auto simp: has_id_def split: if_splits option.splits)

lemma split_row_None: "split_row i rs = None \<longleftrightarrow> (\<forall>r \<in> set rs. jid (tr r) \<noteq> i)"
  by (induction rs) (auto simp: has_id_def split: option.splits)

text \<open>Around the row of a path: no row before it is below it, and no row after it is the row itself.\<close>

lemma table_split:
  assumes "table_ok ps (before @ cur # rest)" and "jid (tr cur) = row_id p"
  shows "\<exists>ps1 ps2. ps = ps1 @ p # ps2 \<and> map (\<lambda>r. jid (tr r)) before = map row_id ps1 \<and>
    map (\<lambda>r. jid (tr r)) rest = map row_id ps2 \<and> p \<notin> set ps2 \<and> (\<forall>q \<in> set ps1. \<not> strict_prefix p q)"
proof -
  have "map row_id ps = map (\<lambda>r. jid (tr r)) before @ row_id p # map (\<lambda>r. jid (tr r)) rest"
    using assms by (simp add: table_ok_def)
  then obtain ps1 p' ps2 where ps: "ps = ps1 @ p' # ps2" "row_id p' = row_id p"
    "map row_id ps1 = map (\<lambda>r. jid (tr r)) before" "map row_id ps2 = map (\<lambda>r. jid (tr r)) rest"
    by (auto simp: map_eq_append_conv map_eq_Cons_conv)
  have p: "p' = p" using ps(2) row_id_inj by simp
  show ?thesis
    by (rule exI [of _ ps1], rule exI [of _ ps2])
      (use assms(1) ps p in \<open>auto simp: table_ok_def sorted_wrt_append\<close>)
qed

lemma icons_tr [simp]: "tr (fold_icons r) = tr r" "tr (unfold_icons r) = tr r"
  by (simp_all add: fold_icons_def unfold_icons_def)

lemma bex_on_some: "(\<exists>y \<in> set (on_some P f ys). Q y) \<longleftrightarrow> (\<exists>y \<in> set ys. Q (if P y then f y else y))"
  unfolding on_some_def set_map by (rule bex_simps(7))

lemma ball_on_some: "(\<forall>y \<in> set (on_some P f ys). Q y) \<longleftrightarrow> (\<forall>y \<in> set ys. Q (if P y then f y else y))"
  unfolding on_some_def set_map by (rule ball_simps(9))

definition folder_open :: "nat list \<Rightarrow> row list \<Rightarrow> bool" where
  "folder_open p rs =
     (case split_row (row_id p) rs of
        None \<Rightarrow> False
      | Some (before, cur, rest) \<Rightarrow> first_visible (filter (is_child (path_id p)) rest))"

lemma is_child_row: "jid (tr r) = row_id q \<Longrightarrow> is_child (path_id p) r \<longleftrightarrow> (\<exists>m. q = p @ [m])"
  by (simp add: is_child_def one_sub_row)

lemma has_prefix_row: "jid (tr r) = row_id q \<Longrightarrow> has_prefix (row_id p) r \<longleftrightarrow> prefix p q"
  by (simp add: has_prefix_def row_id_prefix)

lemma shown_paths_append:
  "shown_paths ps (xs @ r # ys) = {q \<in> set ps. (\<exists>x \<in> set xs. jid (tr x) = row_id q \<and> row_visible x) \<or>
     jid (tr r) = row_id q \<and> row_visible r \<or> (\<exists>y \<in> set ys. jid (tr y) = row_id q \<and> row_visible y)}"
  by (auto simp: shown_paths_iff)

lemma hidden_rows:
  "(\<exists>y \<in> set (on_some P (on_tr jhide) ys). jid (tr y) = i \<and> row_visible y) \<longleftrightarrow>
   (\<exists>y \<in> set ys. jid (tr y) = i \<and> row_visible y \<and> \<not> P y)"
  unfolding bex_on_some by (rule bex_cong) (auto simp: jhide_hidden jframe)

lemma shown_rows:
  assumes "list_all (\<lambda>r. display_ok (tr r)) ys" and "\<And>r. P (fold_icons r) = P r"
  shows "(\<exists>y \<in> set (on_some P (on_tr jshow) (on_some P fold_icons ys)). jid (tr y) = i \<and> row_visible y) \<longleftrightarrow>
   (\<exists>y \<in> set ys. jid (tr y) = i \<and> (row_visible y \<or> P y))"
  unfolding bex_on_some
  by (rule bex_cong) (use assms in \<open>auto simp: list_all_iff jframe jshow_visible\<close>)

lemma toggleFolder_split:
  assumes "split_row (row_id p) rs = Some (before, cur, rest)"
  shows "shown_paths ps (toggleFolder (path_id p) rs) = shown_paths ps
    (if first_visible (filter (is_child (path_id p)) rest)
     then before @ fold_icons cur # on_some (has_prefix (row_id p)) (on_tr jhide) rest
     else before @ unfold_icons cur # on_some (is_child (path_id p)) (on_tr jshow) (on_some (is_child (path_id p)) fold_icons rest))"
  unfolding toggleFolder_def row_id_def [symmetric] assms by (simp add: shown_paths_stripes)

lemma table_split_row:
  assumes "table_ok ps rs" and "p \<in> set ps"
  shows "\<exists>before cur rest. split_row (row_id p) rs = Some (before, cur, rest)"
proof -
  have "row_id p \<in> set (map (\<lambda>r. jid (tr r)) rs)" using assms by (simp add: table_ok_def)
  then have "split_row (row_id p) rs \<noteq> None" using split_row_None by fastforce
  then show ?thesis by auto
qed

lemma row_in: "map (\<lambda>r. jid (tr r)) xs = map row_id qs \<Longrightarrow> (\<exists>x \<in> set xs. jid (tr x) = row_id q) \<longleftrightarrow> q \<in> set qs"
proof -
  assume "map (\<lambda>r. jid (tr r)) xs = map row_id qs"
  then have "(\<lambda>r. jid (tr r)) ` set xs = row_id ` set qs" by (metis set_map)
  moreover have "row_id q \<in> row_id ` set qs \<longleftrightarrow> q \<in> set qs" using row_id_inj by auto
  ultimately show ?thesis by (metis (no_types, lifting) image_iff)
qed

text \<open>Closing a folder hides its proper descendants, opening it shows its children.\<close>

lemma folder_closes:
  assumes ok: "table_ok ps rs" and p: "p \<in> set ps" and "folder_open p rs"
  shows "shown_paths ps (toggleFolder (path_id p) rs) = shown_paths ps rs - {q. strict_prefix p q}"
proof -
  obtain before cur rest where s: "split_row (row_id p) rs = Some (before, cur, rest)"
    using table_split_row [OF ok p] by blast
  note rs = split_row_Some [OF s]
  obtain ps1 ps2 where ps: "ps = ps1 @ p # ps2" "map (\<lambda>r. jid (tr r)) before = map row_id ps1"
    "map (\<lambda>r. jid (tr r)) rest = map row_id ps2" "p \<notin> set ps2" "\<forall>q \<in> set ps1. \<not> strict_prefix p q"
    using table_split ok rs by metis
  have open_: "first_visible (filter (is_child (path_id p)) rest)"
    using assms(3) s by (simp add: folder_open_def)
  have tail: "jid (tr y) = row_id q \<Longrightarrow> y \<in> set rest \<Longrightarrow> has_prefix (row_id p) y \<longleftrightarrow> strict_prefix p q" for y q
    using has_prefix_row [of y q p] row_in [OF ps(3), of q] ps(4) by (auto simp: strict_prefix_def)
  have front: "jid (tr y) = row_id q \<Longrightarrow> y \<in> set before \<Longrightarrow> \<not> strict_prefix p q" for y q
    using row_in [OF ps(2), of q] ps(5) by blast
  have cur: "jid (tr cur) = row_id q \<Longrightarrow> \<not> strict_prefix p q" for q
    using rs row_id_inj by auto
  show ?thesis
    unfolding toggleFolder_split [OF s]
    using open_ tail front cur rs by (simp add: shown_paths_append hidden_rows) blast
qed

lemma folder_opens:
  assumes ok: "table_ok ps rs" and p: "p \<in> set ps" and "\<not> folder_open p rs"
  shows "shown_paths ps (toggleFolder (path_id p) rs) = shown_paths ps rs \<union> {q \<in> set ps. \<exists>m. q = p @ [m]}"
proof -
  obtain before cur rest where s: "split_row (row_id p) rs = Some (before, cur, rest)"
    using table_split_row [OF ok p] by blast
  note rs = split_row_Some [OF s]
  obtain ps1 ps2 where ps: "ps = ps1 @ p # ps2" "map (\<lambda>r. jid (tr r)) before = map row_id ps1"
    "map (\<lambda>r. jid (tr r)) rest = map row_id ps2" "p \<notin> set ps2" "\<forall>q \<in> set ps1. \<not> strict_prefix p q"
    using table_split ok rs by metis
  have closed_: "\<not> first_visible (filter (is_child (path_id p)) rest)"
    using assms(3) s by (simp add: folder_open_def)
  have rest: "list_all (\<lambda>r. display_ok (tr r)) rest"
    using ok rs by (simp add: table_ok_def list_all_iff)
  have icons: "is_child (path_id p) (fold_icons r) = is_child (path_id p) r" for r
    by (simp add: is_child_def)
  have child: "(\<exists>y \<in> set rest. jid (tr y) = row_id q \<and> (row_visible y \<or> is_child (path_id p) y)) \<longleftrightarrow>
      (\<exists>y \<in> set rest. jid (tr y) = row_id q \<and> row_visible y) \<or> q \<in> set ps \<and> (\<exists>m. q = p @ [m])"
    if "q \<in> set ps" for q
  proof -
    have "q \<in> set ps2" if "q = p @ [m]" for m
      using that \<open>q \<in> set ps\<close> ps(1,5) by (auto simp: strict_prefix_def)
    then show ?thesis using row_in [OF ps(3), of q] is_child_row [of _ q p] \<open>q \<in> set ps\<close> by blast
  qed
  show ?thesis
    unfolding toggleFolder_split [OF s]
    using closed_ child rs by (simp add: shown_paths_append shown_rows [OF rest, of "is_child (path_id p)"] icons) blast
qed

lemma same_row_refl: "list_all2 same_row es es"
  by (simp add: list_all2_conv_all_nth same_row_def)

lemma same_row_on_some:
  "(\<And>r. same_row (tr r) (tr (f r))) \<Longrightarrow> list_all2 same_row (map tr rs) (map tr (on_some P f rs))"
  by (simp add: list_all2_conv_all_nth on_some_def same_row_def)

lemma same_row_children:
  "list_all2 same_row (map tr rs) (map tr (on_some P (on_tr jshow) (on_some P fold_icons rs)))"
  by (simp add: list_all2_conv_all_nth on_some_def same_row_def jframe jshow_ok)

lemma table_ok_folder:
  assumes "table_ok ps rs"
  shows "table_ok ps (toggleFolder i rs) \<and> striped (toggleFolder i rs)"
proof -
  have hide: "list_all2 same_row (map tr xs) (map tr (on_some P (on_tr jhide) xs))" for P xs
    by (rule same_row_on_some) (simp add: same_row_def jframe jhide_ok)
  have cur: "same_row e e" for e by (simp add: same_row_def)
  have "table_ok ps
       (case split_row (js ''row_'' @ i) rs of
          None \<Rightarrow> rs
        | Some (before, cur, rest) \<Rightarrow>
            if first_visible (filter (is_child i) rest)
            then before @ fold_icons cur # on_some (has_prefix (js ''row_'' @ i)) (on_tr jhide) rest
            else before @ unfold_icons cur #
                   on_some (is_child i) (on_tr jshow) (on_some (is_child i) fold_icons rest))"
  proof (cases "split_row (js ''row_'' @ i) rs")
    case None
    with assms show ?thesis by simp
  next
    case (Some s)
    then obtain before cur rest where s: "split_row (js ''row_'' @ i) rs = Some (before, cur, rest)" by (cases s) auto
    with split_row_Some [OF s] assms show ?thesis
      by (auto intro!: table_ok_cong [OF assms] list_all2_appendI simp: same_row_refl cur hide same_row_children)
  qed
  then show ?thesis unfolding toggleFolder_def using table_ok_stripes striped_stripes by blast
qed

text \<open>
  C24. \<open>toggleFolder\<close> on a row of a directory table: if the folder is open (the first of its child rows is visible),
  exactly the rows properly below it disappear, at every depth; otherwise exactly its direct children appear. Ids are
  compared as texts, yet no other folder is touched: \<open>row_1_\<close> is no prefix of \<open>row_10_\<close>.
\<close>

theorem toggleFolder_subtree:
  assumes "table_ok ps rs" and "p \<in> set ps"
  shows "shown_paths ps (toggleFolder (path_id p) rs) =
    (if folder_open p rs then shown_paths ps rs - {q. strict_prefix p q}
     else shown_paths ps rs \<union> {q \<in> set ps. \<exists>m. q = p @ [m]})"
  using assms by (simp add: folder_closes folder_opens)

subsection \<open>Clicks\<close>

text \<open>
  What a user can do with a directory table: the page starts with every row displayed; then come clicks on a level and
  on the icon of a visible row.
\<close>

inductive table_reachable :: "nat list list \<Rightarrow> row list \<Rightarrow> bool" for ps where
  loaded: "table_ok ps rs \<Longrightarrow> list_all row_visible rs \<Longrightarrow> striped rs \<Longrightarrow> table_reachable ps rs"
| level: "table_reachable ps rs \<Longrightarrow> table_reachable ps (toggleLevel level rs)"
| folder: "table_reachable ps rs \<Longrightarrow> p \<in> shown_paths ps rs \<Longrightarrow> table_reachable ps (toggleFolder (path_id p) rs)"

lemma shown_paths_rows:
  assumes "table_ok ps rs"
  shows "shown_paths ps rs = {p. \<exists>k < length ps. p = ps ! k \<and> map row_visible rs ! k}"
proof -
  have len: "length rs = length ps" using assms unfolding table_ok_def by (metis length_map)
  have nth: "jid (tr (rs ! k)) = row_id (ps ! k)" if "k < length ps" for k
    using assms that len unfolding table_ok_def by (metis (no_types, lifting) nth_map)
  show ?thesis
  proof (intro set_eqI iffI)
    fix p
    assume "p \<in> shown_paths ps rs"
    then obtain k where "k < length rs" "jid (tr (rs ! k)) = row_id p" "row_visible (rs ! k)"
      by (auto simp: shown_paths_iff in_set_conv_nth)
    then show "p \<in> {p. \<exists>k < length ps. p = ps ! k \<and> map row_visible rs ! k}"
      using len nth [of k] by (auto simp: row_id_inj)
  next
    fix p
    assume "p \<in> {p. \<exists>k < length ps. p = ps ! k \<and> map row_visible rs ! k}"
    then obtain k where "k < length ps" "p = ps ! k" "row_visible (rs ! k)" using len by auto
    then show "p \<in> shown_paths ps rs" using len nth [of k] by (auto simp: shown_paths_iff intro: bexI [of _ "rs ! k"])
  qed
qed

lemma level_shown:
  assumes "table_ok ps rs" and "map row_visible rs = map (\<lambda>p. length p \<le> level) ps"
  shows "shown_paths ps rs = {p \<in> set ps. length p \<le> level}"
  unfolding shown_paths_rows [OF assms(1)] assms(2) by (auto simp: in_set_conv_nth)

lemma ancestors_level: "shown_paths ps rs = {p \<in> set ps. length p \<le> level} \<Longrightarrow> ancestors_shown ps rs"
proof -
  assume shown: "shown_paths ps rs = {p \<in> set ps. length p \<le> level}"
  have "length p \<le> level" if "strict_prefix p q" "length q \<le> level" for p q :: "nat list"
    using prefix_length_less [OF that(1)] that(2) by linarith
  then show ?thesis unfolding ancestors_shown_def shown by blast
qed

lemma ancestors_folder:
  assumes "ancestors_shown ps rs" and "p \<in> shown_paths ps rs" and "table_ok ps rs"
  shows "ancestors_shown ps (toggleFolder (path_id p) rs)"
proof -
  have p: "p \<in> set ps" using assms(2) by (simp add: shown_paths_iff)
  have up: "q \<in> shown_paths ps rs" if "strict_prefix q r" "q \<in> set ps" "r \<in> shown_paths ps rs" for q r
    using that assms(1) by (simp add: ancestors_shown_def)
  have child: "q \<in> shown_paths ps rs" if "strict_prefix q (p @ [m])" "q \<in> set ps" for q m
  proof -
    have "q = p \<or> strict_prefix q p" using that(1) by (auto simp: strict_prefix_def)
    then show ?thesis using up [OF _ that(2) assms(2)] assms(2) by blast
  qed
  have below: "\<not> strict_prefix p q" if "\<not> strict_prefix p r" "strict_prefix q r" for q r
    using that prefix_order.less_trans by blast
  show ?thesis
    unfolding ancestors_shown_def
  proof (intro ballI impI)
    fix r q
    assume r: "r \<in> shown_paths ps (toggleFolder (path_id p) rs)" and q: "q \<in> set ps" "strict_prefix q r"
    show "q \<in> shown_paths ps (toggleFolder (path_id p) rs)"
    proof (cases "folder_open p rs")
      case True
      with r q up [of q r] below [of r q] show ?thesis by (simp add: folder_closes [OF assms(3) p])
    next
      case False
      with r q up [of q r] child [of q] show ?thesis by (auto simp: folder_opens [OF assms(3) p])
    qed
  qed
qed

text \<open>
  C23. Whatever levels and folders the user clicks, a directory table never shows a row without the rows above it: in
  every reachable state of the table each ancestor of a visible row is visible, the stripes alternate over the visible
  rows, and the table is well formed.
\<close>

theorem reachable_tables:
  assumes "table_reachable ps rs"
  shows "ancestors_shown ps rs \<and> striped rs \<and> table_ok ps rs"
  using assms
proof induction
  case (loaded rs)
  then have "shown_paths ps rs = set ps"
    using row_in [of rs ps] by (auto simp: shown_paths_iff table_ok_def list_all_iff)
  then show ?case using loaded by (simp add: ancestors_shown_def)
next
  case (level rs l)
  then have "table_ok ps rs" by blast
  note shows_depth = level_depth [OF this, of l]
  then show ?case using ancestors_level level_shown by blast
next
  case (folder rs p)
  then show ?case using ancestors_folder table_ok_folder by blast
qed

definition dir_row :: "string \<Rightarrow> string \<Rightarrow> row" where
  "dir_row p c =
     \<lparr>tr = plain_el (''row_'' @ p) c [] ''table-row'',
      inner = [plain_el (''arr_'' @ p) ''arrow'' [] ''inline'', plain_el (''img_'' @ p) ''iconfopen'' [] ''inline'']\<rparr>"

definition dir_paths :: "nat list list" where
  "dir_paths = [[0], [0, 0], [0, 1], [1]]"

definition dir_table :: "row list" where
  "dir_table = [dir_row ''0_'' ''even'', dir_row ''0_0_'' [], dir_row ''0_1_'' ''even'', dir_row ''1_'' []]"

lemmas dir_defs = dir_table_def dir_row_def plain_el_def dir_paths_def

lemma dir_visible: "list_all row_visible dir_table"
  by (simp add: dir_defs is_visible_def computed_def)

lemma dir_class: "class_ok (js ''even'')" "class_ok []" "js ''even'' \<in> classes (js ''even'')" "classes [] = {}"
  by (simp_all add: class_eval classes_def)

lemma dir_digits: "nat_to_string 0 = [48]" "nat_to_string (Suc 0) = [49]"
  by (simp_all add: nat_to_string.simps)

lemma dir_ids: "map (\<lambda>r. jid (tr r)) dir_table = map row_id dir_paths"
  by (simp add: dir_defs row_id_def path_id_def dir_digits) (simp add: js_def)

lemma dir_ok: "table_ok dir_paths dir_table"
proof -
  have "list_all (\<lambda>r. display_ok (tr r) \<and> class_ok (jclass (tr r))) dir_table"
    by (simp add: dir_defs display_ok_def dir_class)
  moreover have "distinct dir_paths \<and> sorted_wrt (\<lambda>p q. \<not> strict_prefix q p) dir_paths"
    by (simp add: dir_paths_def)
  ultimately show ?thesis using dir_ids by (simp add: table_ok_def)
qed

lemma dir_striped: "striped dir_table"
proof -
  have "filter row_visible dir_table = dir_table" using dir_visible by (simp add: list_all_iff)
  moreover have "map is_even dir_table = [True, False, True, False]"
    by (simp add: dir_defs is_even_def dir_class)
  moreover have "length dir_table = 4" by (simp add: dir_table_def)
  ultimately show ?thesis using dir_visible by (simp add: striped_def list_all_iff numeral_eq_Suc)
qed

lemma dir_reachable: "table_reachable dir_paths dir_table"
  by (rule loaded) (rule dir_ok dir_visible dir_striped)+

lemma dir_shown: "p \<in> set dir_paths \<Longrightarrow> p \<in> shown_paths dir_paths dir_table"
  using row_in [of dir_table dir_paths p] dir_ok dir_visible
  by (auto simp: shown_paths_iff table_ok_def list_all_iff)

theorem toggleLevel_shows_depth_witness:
  "table_ok dir_paths dir_table \<and> map row_visible (toggleLevel 1 dir_table) = [True, False, False, True]"
  using toggleLevel_shows_depth [OF dir_ok, of 1] dir_ok by (simp add: dir_paths_def)

theorem toggleFolder_subtree_witness:
  "table_ok dir_paths dir_table \<and> [0, 1] \<in> shown_paths dir_paths dir_table \<and>
   [0, 1] \<notin> shown_paths dir_paths (toggleFolder (path_id [0]) dir_table)"
proof -
  have p: "[0] \<in> set dir_paths" by (simp add: dir_paths_def)
  have ids: "jid (tr (dir_row ''0_'' ''even'')) = row_id [0]" "jid (tr (dir_row ''0_0_'' [])) = row_id [0, 0]"
    using dir_ids by (simp_all add: dir_table_def dir_paths_def)
  have "is_child (path_id [0]) (dir_row ''0_0_'' [])"
    using is_child_row [OF ids(2)] by simp
  moreover have "row_visible (dir_row ''0_0_'' [])" using dir_visible by (simp add: dir_table_def)
  ultimately have "folder_open [0] dir_table"
    by (simp add: folder_open_def dir_table_def has_id_def ids(1) first_visible_def)
  then have "shown_paths dir_paths (toggleFolder (path_id [0]) dir_table) =
      shown_paths dir_paths dir_table - {q. strict_prefix [0] q}"
    using toggleFolder_subtree [OF dir_ok p] by (simp only: if_True)
  then show ?thesis using dir_ok dir_shown [of "[0, 1]"] by (simp add: dir_paths_def)
qed

theorem reachable_tables_witness:
  "table_reachable dir_paths (toggleFolder (path_id [0]) dir_table) \<and>
   ancestors_shown dir_paths (toggleFolder (path_id [0]) dir_table)"
  using reachable_tables [OF folder [OF dir_reachable dir_shown [of "[0]"]]] folder [OF dir_reachable dir_shown [of "[0]"]]
  by (simp add: dir_paths_def)

section \<open>Icons\<close>

text \<open>The icon of a row that is folded or unfolded: \<open>iconfopen\<close> and \<open>iconfclosed\<close> change places, other classes stay.\<close>

lemma word_names: "word (js ''iconfopen'')" "word (js ''iconfclosed'')" "word (js ''arrow'')" "word (js ''inherit'')"
    "word (js ''inherit_header'')"
  by (simp_all add: class_eval)

lemma set_arrow_class [simp]: "jclass (set_arrow v e) = jclass e"
  by (simp add: set_arrow_def set_jhtml_def)

lemma fold_icon_classes:
  assumes "class_ok (jclass e)"
  shows "classes (jclass (swap_class ''iconfopen'' ''iconfclosed'' e)) =
      (if js ''iconfopen'' \<in> classes (jclass e) then classes (jclass e) - {js ''iconfopen''} \<union> {js ''iconfclosed''}
       else classes (jclass e))"
    and "classes (jclass (swap_class ''iconfclosed'' ''iconfopen'' e)) =
      (if js ''iconfclosed'' \<in> classes (jclass e) then classes (jclass e) - {js ''iconfclosed''} \<union> {js ''iconfopen''}
       else classes (jclass e))"
  using assms
  by (simp_all add: swap_class_def hasClass_classes word_names classes_of_methods class_arg_words classes_words)

lemma fold_icons_closed:
  assumes "list_all (\<lambda>e. class_ok (jclass e)) (inner r)"
  shows "list_all (\<lambda>e. js ''iconfopen'' \<notin> classes (jclass e)) (inner (fold_icons r))"
    and "list_all (\<lambda>e. js ''iconfclosed'' \<notin> classes (jclass e)) (inner (unfold_icons r))"
  using assms by (auto simp: list_all_iff fold_icons_def unfold_icons_def fold_icon_classes)

section \<open>Inherited members and tool tips\<close>

definition inherit_state :: "jsstring \<Rightarrow> jsstring \<Rightarrow> bool \<Rightarrow> row list \<Rightarrow> bool" where
  "inherit_state i pre v rs \<longleftrightarrow>
     list_ex (inherited ''inherit'' i) rs \<and>
     list_all (\<lambda>r. inherited ''inherit'' i r \<longrightarrow> row_visible r = v) rs \<and>
     concat (map inner (filter (inherited ''inherit_header'' i) rs)) \<noteq> [] \<and>
     list_all (\<lambda>e. jsrc e = pre @ js (if v then ''open.png'' else ''closed.png''))
       (concat (map inner (filter (inherited ''inherit_header'' i) rs)))"

lemma inherited_frame [simp]:
  "inherited c i (on_tr (set_css_display v) r) = inherited c i r" "inherited c i (on_inner f r) = inherited c i r"
  by (simp_all add: inherited_def set_css_display_def)

lemma filter_on_some:
  assumes "\<And>r. Q (f r) = Q r"
  shows "filter Q (on_some P f rs) = on_some P f (filter Q rs)"
  by (induction rs) (simp_all add: on_some_def assms)

lemma inner_on_some:
  "concat (map inner (on_some P (on_tr f) rs)) = concat (map inner rs)"
  "list_all P rs \<Longrightarrow> concat (map inner (on_some P (on_inner f) rs)) = map f (concat (map inner rs))"
  by (induction rs) (simp_all add: on_some_def)

lemma css_visible: "is_visible (set_css_display v e) \<longleftrightarrow> v \<noteq> ''none''" if "v \<noteq> []"
  using that by (simp add: is_visible_def set_css_display_def computed_def)

lemma first_of_state:
  assumes "list_ex P rs" and "list_all (\<lambda>r. P r \<longrightarrow> row_visible r = v) rs"
  shows "first_visible (filter P rs) = v"
  using assms by (induction rs) (auto simp: first_visible_def)

lemma first_src:
  assumes "es \<noteq> []" and "list_all (\<lambda>e. jsrc e = s) es" and "s \<noteq> []"
  shows "attr_src (case es of [] \<Rightarrow> None | e # _ \<Rightarrow> Some e) = Some s"
  using assms by (cases es) (simp_all add: attr_src_def)

lemma inherit_step:
  assumes "inherit_state i pre v rs" and "w \<noteq> []" and "(w \<noteq> ''none'') = v'"
  shows "inherit_state i pre v'
    (on_some (inherited ''inherit_header'' i) (on_inner (set_src (pre @ js (if v' then ''open.png'' else ''closed.png''))))
      (on_some (inherited ''inherit'' i) (on_tr (set_css_display w)) rs))"
proof -
  let ?rows = "inherited ''inherit'' i" and ?head = "inherited ''inherit_header'' i"
  let ?rs = "on_some ?head (on_inner (set_src (pre @ js (if v' then ''open.png'' else ''closed.png''))))
      (on_some ?rows (on_tr (set_css_display w)) rs)"
  have imgs: "concat (map inner (filter ?head ?rs)) =
      map (set_src (pre @ js (if v' then ''open.png'' else ''closed.png''))) (concat (map inner (filter ?head rs)))"
    by (simp add: filter_on_some inner_on_some list_all_iff on_some_def)
      (induction rs, simp_all add: on_some_def)
  have "list_ex ?rows ?rs" "list_all (\<lambda>r. ?rows r \<longrightarrow> row_visible r = v') ?rs"
    using assms unfolding inherit_state_def list_ex_iff list_all_iff bex_on_some ball_on_some
    by (simp_all add: css_visible)
  then show ?thesis
    using assms(1) unfolding inherit_state_def imgs by (simp add: list_all_iff)
qed

text \<open>
  \<open>toggleInherit\<close> flips a group of inherited members: if the rows of the group are all hidden (or all shown) and the
  images of its header agree, the call returns normally, afterwards all rows of the group are shown (or hidden) and every
  image of the header says so, in the same directory as before.
\<close>
theorem toggleInherit_flips:
  assumes "inherit_state i pre v rs"
  shows "snd (toggleInherit i rs) \<and> inherit_state i pre (\<not> v) (fst (toggleInherit i rs))"
proof -
  have vis: "first_visible (filter (inherited ''inherit'' i) rs) = v"
    using assms by (intro first_of_state) (simp_all add: inherit_state_def)
  let ?imgs = "concat (map inner (filter (inherited ''inherit_header'' i) rs))"
  have src: "attr_src (case ?imgs of [] \<Rightarrow> None | e # _ \<Rightarrow> Some e) =
      Some (pre @ js (if v then ''open.png'' else ''closed.png''))"
    using assms by (intro first_src) (auto simp: inherit_state_def)
  show ?thesis
    using inherit_step [OF assms, of "''none''" False] inherit_step [OF assms, of "''table-row''" True]
    unfolding toggleInherit_def Let_def src vis by (cases v) (simp_all add: replace_icon)
qed

definition member_table :: "row list" where
  "member_table =
     [\<lparr>tr = plain_el [] ''inherit_header pub'' [] ''table-row'', inner = [set_src (js ''closed.png'') (plain_el [] [] [] ''inline'')]\<rparr>,
      \<lparr>tr = plain_el [] ''memitem inherit pub'' ''none'' ''table-row'', inner = []\<rparr>,
      \<lparr>tr = plain_el [] ''separator inherit pub'' ''none'' ''table-row'', inner = []\<rparr>]"

lemma member_classes:
  "hasClass (js ''inherit_header'') (js ''inherit_header pub'')" "\<not> hasClass (js ''inherit'') (js ''inherit_header pub'')"
  "hasClass (js ''inherit'') (js ''memitem inherit pub'')" "\<not> hasClass (js ''inherit_header'') (js ''memitem inherit pub'')"
  "hasClass (js ''inherit'') (js ''separator inherit pub'')" "\<not> hasClass (js ''inherit_header'') (js ''separator inherit pub'')"
  "hasClass (js ''pub'') (js ''inherit_header pub'')" "hasClass (js ''pub'') (js ''memitem inherit pub'')"
  "hasClass (js ''pub'') (js ''separator inherit pub'')"
  by (simp_all add: class_eval)

lemma member_state: "inherit_state (js ''pub'') [] False member_table"
  by (simp add: inherit_state_def member_table_def inherited_def plain_el_def member_classes is_visible_def computed_def set_src_def)

theorem toggleInherit_flips_witness:
  "inherit_state (js ''pub'') [] False member_table \<and> snd (toggleInherit (js ''pub'') member_table) \<and>
   inherit_state (js ''pub'') [] True (fst (toggleInherit (js ''pub'') member_table))"
  using toggleInherit_flips [OF member_state] member_state by simp

text \<open>The ids of tool tips: only letters, digits and underscores, and the directory of a link does not matter.\<close>

lemma powertip_id_chars: "list_all is_id_char (powertip_id href)"
  by (auto simp: powertip_id_def list_all_iff is_id_char_def)

lemma after_last_slash_none: "47 \<notin> set f \<Longrightarrow> after_last_slash f = f"
  and after_last_slash_append: "47 \<notin> set f \<Longrightarrow> after_last_slash (dir @ 47 # f) = f"
proof -
  assume "47 \<notin> set f"
  then have all: "\<And>x. x \<in> set (rev f) \<Longrightarrow> x \<noteq> 47" by auto
  have "takeWhile (\<lambda>c. c \<noteq> 47) (rev f @ r) = rev f @ takeWhile (\<lambda>c. c \<noteq> 47) r" for r
    by (rule takeWhile_append2) (rule all)
  note split = this
  have "takeWhile (\<lambda>c. c \<noteq> 47) (rev f) = rev f" using split [of "[]"] by (simp only: append_Nil2 takeWhile.simps)
  then show "after_last_slash f = f" unfolding after_last_slash_def by (simp only: rev_rev_ident)
  show "after_last_slash (dir @ 47 # f) = f" using split [of "47 # rev dir"] by (simp add: after_last_slash_def)
qed

lemma strip_path_line:
  assumes "list_all (\<lambda>c. \<not> line_end c) s"
  shows "strip_path s = after_last_slash s"
proof -
  have "takeWhile (\<lambda>c. \<not> line_end c) s = s" "dropWhile (\<lambda>c. \<not> line_end c) s = []"
    using assms by (simp_all add: list_all_iff)
  then show ?thesis
    unfolding strip_path.simps [of s] Let_def by (simp only:) (simp add: after_last_slash_none)
qed

lemma powertip_ignores_directory:
  assumes "list_all (\<lambda>c. \<not> line_end c) (dir @ 47 # f)" and "47 \<notin> set f"
  shows "powertip_id (dir @ 47 # f) = powertip_id f"
  using assms strip_path_line [of "dir @ 47 # f"] strip_path_line [of f]
  by (simp add: powertip_id_def after_last_slash_append after_last_slash_none)

end
