(* ===== verification/Menu.thy ===== *)
theory Menu
  imports JQuery
begin

text \<open>
  The menu of the documentation pages: \<open>initMenu\<close> and \<open>makeTree\<close> of \<open>docs/html/menu.js\<close> on the data of
  \<open>docs/html/menudata.js\<close>. \<open>makeTree\<close> prints a tree as nested lists; \<open>parse_items\<close> reads them back, and the
  two are inverse to each other for entries without quotes and angle brackets. The \<open>smartmenus\<close> plug-in is an argument of the
  model.
\<close>

section \<open>Menu trees\<close>

datatype menu = Menu (menu_text: jsstring) (menu_url: jsstring) (menu_children: "menu list option")

text \<open>
  \<open>makeTree\<close> reads only the children of its argument: \<open>None\<close> is an object without the property. One
  iteration of its loop is \<open>make_item\<close>.
\<close>

fun make_item :: "jsstring \<Rightarrow> menu \<Rightarrow> jsstring" where
  \<open>make_item relPath (Menu t u ch) =
     js ''<li><a href="'' @ relPath @ u @ js ''">'' @ t @ js ''</a>'' @
     (case ch of
        None \<Rightarrow> []
      | Some cs \<Rightarrow> js ''<ul>'' @ concat (map (make_item relPath) cs) @ js ''</ul>'') @ js ''</li>''\<close>

definition makeTree :: "jsstring \<Rightarrow> menu list option \<Rightarrow> jsstring" where
  "makeTree relPath data =
     (case data of
        None \<Rightarrow> []
      | Some cs \<Rightarrow> js ''<ul>'' @ concat (map (make_item relPath) cs) @ js ''</ul>'')"

section \<open>Building the menu\<close>

text \<open>
  The children of \<open>#main-nav\<close>. \<open>append\<close> of the printed tree adds one list element, whose content
  is what stands between its tags, and nothing if the text is empty.
\<close>

definition ul_element :: "jsstring \<Rightarrow> jel" where
  "ul_element html = \<lparr>jid = [], jclass = [], jstyle = [], jold = [], jsheet = js ''block'', jtag = js ''block'',
     jsrc = [], jhtml = html\<rparr>"

definition list_content :: "jsstring \<Rightarrow> jsstring" where
  "list_content html = take (length html - 9) (drop 4 html)"

definition append_tree :: "jsstring \<Rightarrow> menu list option \<Rightarrow> jel list \<Rightarrow> jel list" where
  "append_tree relPath data nav =
     (case makeTree relPath data of
        [] \<Rightarrow> nav
      | c # html \<Rightarrow> nav @ [ul_element (list_content (c # html))])"

definition name_first :: "jel list \<Rightarrow> jel list" where
  "name_first nav =
     (case nav of [] \<Rightarrow> [] | e # es \<Rightarrow> (add_class ''sm sm-dox'' e)\<lparr>jid := js ''main-menu''\<rparr> # es)"

fun on_main_menu :: "(jel \<Rightarrow> jel) \<Rightarrow> jel list \<Rightarrow> jel list" where
  "on_main_menu f [] = []"
| "on_main_menu f (e # es) = (if jid e = js ''main-menu'' then f e # es else e # on_main_menu f es)"

definition server_search_item :: "jsstring \<Rightarrow> jsstring \<Rightarrow> jsstring \<Rightarrow> jsstring" where
  \<open>server_search_item relPath searchPage search =
     js ''<li style="float:right"><div id="MSearchBox" class="MSearchBoxInactive"><div class="left"><form id="FSearchBox" action="'' @
     searchPage @ js ''" method="get"><img id="MSearchSelect" src="'' @ relPath @
     js ''search/mag.png" alt=""/><input type="text" id="MSearchField" name="query" value="'' @ search @
     js ''" size="20" accesskey="S" onfocus="searchBox.OnSearchFieldFocus(true)" onblur="searchBox.OnSearchFieldFocus(false)"></form></div><div class="right"></div></div></li>''\<close>

definition local_search_item :: "jsstring \<Rightarrow> jsstring \<Rightarrow> jsstring" where
  \<open>local_search_item relPath search =
     js ''<li style="float:right"><div id="MSearchBox" class="MSearchBoxInactive"><span class="left"><img id="MSearchSelect" src="'' @
     relPath @ js ''search/mag_sel.png" onmouseover="return searchBox.OnSearchSelectShow()" onmouseout="return searchBox.OnSearchSelectHide()" alt=""/><input type="text" id="MSearchField" value="'' @
     search @ js ''" accesskey="S" onfocus="searchBox.OnSearchFieldFocus(true)" onblur="searchBox.OnSearchFieldFocus(false)" onkeyup="searchBox.OnSearchFieldChange(event)"/></span><span class="right"><a id="MSearchClose" href="javascript:searchBox.CloseResultsWindow()"><img id="MSearchCloseImg" border="0" src="'' @
     relPath @ js ''search/close.png" alt=""/></a></span></div></li>''\<close>

definition append_html :: "jsstring \<Rightarrow> jel \<Rightarrow> jel" where
  "append_html h e = e\<lparr>jhtml := jhtml e @ h\<rparr>"

definition initMenu ::
  "(jel \<Rightarrow> jel) \<Rightarrow> menu list option \<Rightarrow> jsstring \<Rightarrow> bool \<Rightarrow> bool \<Rightarrow> jsstring \<Rightarrow> jsstring \<Rightarrow> jel list \<Rightarrow> jel list" where
  "initMenu smartmenus data relPath searchEnabled serverSide searchPage search nav =
     (let nav1 = name_first (append_tree relPath data nav);
          nav2 = (if searchEnabled
                  then on_main_menu (append_html
                         (if serverSide then server_search_item relPath searchPage search
                          else local_search_item relPath search)) nav1
                  else nav1)
      in on_main_menu smartmenus nav2)"

section \<open>The data\<close>

definition menudata :: "menu list option" where
  "menudata = Some [
    Menu (js ''Main Page'') (js ''index.html'') None,
    Menu (js ''Namespaces'') (js ''namespaces.html'') (Some [
      Menu (js ''Namespace List'') (js ''namespaces.html'') None,
      Menu (js ''Namespace Members'') (js ''namespacemembers.html'') (Some [
        Menu (js ''All'') (js ''namespacemembers.html'') None,
        Menu (js ''Functions'') (js ''namespacemembers_func.html'') None,
        Menu (js ''Typedefs'') (js ''namespacemembers_type.html'') None])]),
    Menu (js ''Classes'') (js ''annotated.html'') (Some [
      Menu (js ''Class List'') (js ''annotated.html'') None,
      Menu (js ''Class Index'') (js ''classes.html'') None,
      Menu (js ''Class Hierarchy'') (js ''inherits.html'') None,
      Menu (js ''Class Members'') (js ''functions.html'') (Some [
        Menu (js ''All'') (js ''functions.html'') (Some [
          Menu (js ''a'') (js ''functions.html#index_a'') None,
          Menu (js ''b'') (js ''functions.html#index_b'') None,
          Menu (js ''c'') (js ''functions.html#index_c'') None,
          Menu (js ''d'') (js ''functions.html#index_d'') None,
          Menu (js ''g'') (js ''functions.html#index_g'') None,
          Menu (js ''i'') (js ''functions.html#index_i'') None,
          Menu (js ''l'') (js ''functions.html#index_l'') None,
          Menu (js ''o'') (js ''functions.html#index_o'') None,
          Menu (js ''r'') (js ''functions.html#index_r'') None,
          Menu (js ''s'') (js ''functions.html#index_s'') None,
          Menu (js ''w'') (js ''functions.html#index_w'') None,
          Menu (js ''~'') (js ''functions.html#index_0x7e'') None]),
        Menu (js ''Functions'') (js ''functions_func.html'') (Some [
          Menu (js ''a'') (js ''functions_func.html#index_a'') None,
          Menu (js ''b'') (js ''functions_func.html#index_b'') None,
          Menu (js ''c'') (js ''functions_func.html#index_c'') None,
          Menu (js ''g'') (js ''functions_func.html#index_g'') None,
          Menu (js ''i'') (js ''functions_func.html#index_i'') None,
          Menu (js ''l'') (js ''functions_func.html#index_l'') None,
          Menu (js ''o'') (js ''functions_func.html#index_o'') None,
          Menu (js ''r'') (js ''functions_func.html#index_r'') None,
          Menu (js ''s'') (js ''functions_func.html#index_s'') None,
          Menu (js ''w'') (js ''functions_func.html#index_w'') None,
          Menu (js ''~'') (js ''functions_func.html#index_0x7e'') None]),
        Menu (js ''Variables'') (js ''functions_vars.html'') None])]),
    Menu (js ''Files'') (js ''files.html'') (Some [
      Menu (js ''File List'') (js ''files.html'') None])]"

section \<open>Reading a printed menu\<close>

definition strip_prefix :: "string \<Rightarrow> jsstring \<Rightarrow> jsstring option" where
  "strip_prefix p s = (if take (length p) s = js p then Some (drop (length p) s) else None)"

fun parse_items :: "nat \<Rightarrow> jsstring \<Rightarrow> (menu list \<times> jsstring) option" where
  "parse_items 0 s = None"
| \<open>parse_items (Suc n) s =
     (case strip_prefix ''<li><a href="'' s of
        None \<Rightarrow> Some ([], s)
      | Some s1 \<Rightarrow>
          let u = takeWhile (\<lambda>c. c \<noteq> 34) s1 in
          case strip_prefix ''">'' (dropWhile (\<lambda>c. c \<noteq> 34) s1) of
            None \<Rightarrow> None
          | Some s2 \<Rightarrow>
              let t = takeWhile (\<lambda>c. c \<noteq> 60) s2 in
              case strip_prefix ''</a>'' (dropWhile (\<lambda>c. c \<noteq> 60) s2) of
                None \<Rightarrow> None
              | Some s3 \<Rightarrow>
                  case (case strip_prefix ''<ul>'' s3 of
                          None \<Rightarrow> Some (None, s3)
                        | Some s4 \<Rightarrow>
                            case parse_items n s4 of
                              None \<Rightarrow> None
                            | Some (cs, s5) \<Rightarrow> map_option (\<lambda>s6. (Some cs, s6)) (strip_prefix ''</ul>'' s5)) of
                    None \<Rightarrow> None
                  | Some (ch, s7) \<Rightarrow>
                      case strip_prefix ''</li>'' s7 of
                        None \<Rightarrow> None
                      | Some s8 \<Rightarrow> map_option (\<lambda>(ms, r). (Menu t u ch # ms, r)) (parse_items n s8))\<close>

definition parse_tree :: "jsstring \<Rightarrow> menu list option" where
  "parse_tree s =
     (case strip_prefix ''<ul>'' s of
        None \<Rightarrow> None
      | Some s1 \<Rightarrow>
          case parse_items (Suc (length s)) s1 of
            None \<Rightarrow> None
          | Some (cs, s2) \<Rightarrow> if s2 = js ''</ul>'' then Some cs else None)"

text \<open>A printed entry names its target relative to the page.\<close>

fun with_path :: "jsstring \<Rightarrow> menu \<Rightarrow> menu" where
  "with_path relPath (Menu t u ch) = Menu t (relPath @ u) (map_option (map (with_path relPath)) ch)"

fun menu_safe :: "menu \<Rightarrow> bool" where
  "menu_safe (Menu t u ch) \<longleftrightarrow> 60 \<notin> set t \<and> 34 \<notin> set u \<and> (case ch of None \<Rightarrow> True | Some cs \<Rightarrow> list_all menu_safe cs)"

section \<open>Printing and reading\<close>

lemma js_length: "length (js s) = length s"
  by (simp add: js_def)

lemma strip_prefix_append [simp]: "strip_prefix p (js p @ s) = Some s"
  by (simp add: strip_prefix_def js_def)

lemma strip_prefix_self [simp]: "strip_prefix p (js p) = Some []"
  using strip_prefix_append [of p "[]"] by simp

text \<open>The characters that end a target and a text.\<close>

lemma takeWhile_until: "c \<notin> set s \<Longrightarrow> takeWhile (\<lambda>x. x \<noteq> c) (s @ c # r) = s"
  and dropWhile_until: "c \<notin> set s \<Longrightarrow> dropWhile (\<lambda>x. x \<noteq> c) (s @ c # r) = c # r"
  by (induction s) auto

lemma js_marks: \<open>js ''">'' = 34 # js ''>''\<close> "js ''</a>'' = 60 # js ''/a>''"
  by (simp_all add: js_def)

lemma strip_marks:
  \<open>34 \<notin> set u \<Longrightarrow> takeWhile (\<lambda>c. c \<noteq> 34) (u @ js ''">'' @ r) = u\<close>
  \<open>34 \<notin> set u \<Longrightarrow> dropWhile (\<lambda>c. c \<noteq> 34) (u @ js ''">'' @ r) = js ''">'' @ r\<close>
  \<open>60 \<notin> set t \<Longrightarrow> takeWhile (\<lambda>c. c \<noteq> 60) (t @ js ''</a>'' @ r) = t\<close>
  \<open>60 \<notin> set t \<Longrightarrow> dropWhile (\<lambda>c. c \<noteq> 60) (t @ js ''</a>'' @ r) = js ''</a>'' @ r\<close>
  unfolding js_marks append_Cons by (rule takeWhile_until dropWhile_until, assumption)+

lemma not_prefix:
  \<open>strip_prefix ''<ul>'' (js ''</li>'' @ r) = None\<close>
  \<open>strip_prefix ''<li><a href="'' (js ''</ul>'' @ r) = None\<close>
  by (simp_all add: strip_prefix_def js_def)

lemma parse_items_make:
  assumes "list_all menu_safe cs" and "34 \<notin> set relPath" and \<open>strip_prefix ''<li><a href="'' rest = None\<close>
    and "length (concat (map (make_item relPath) cs)) < n"
  shows "parse_items n (concat (map (make_item relPath) cs) @ rest) = Some (map (with_path relPath) cs, rest)"
  using assms
proof (induction n arbitrary: cs rest)
  case (Suc n)
  show ?case
  proof (cases cs)
    case Nil
    with Suc.prems show ?thesis by simp
  next
    case (Cons m ms)
    obtain t u ch where m: "m = Menu t u ch" by (cases m)
    have safe: "60 \<notin> set t" "34 \<notin> set (relPath @ u)" using Suc.prems Cons m by auto
    have more: "parse_items n (concat (map (make_item relPath) ms) @ rest) = Some (map (with_path relPath) ms, rest)"
      using Suc.prems Cons m by (intro Suc.IH) (auto simp: js_def)
    note marks = strip_marks(1,2) [OF safe(2), unfolded append_assoc] strip_marks(3,4) [OF safe(1)]
    show ?thesis
    proof (cases ch)
      case None
      then show ?thesis
        using Cons m more by (simp add: marks not_prefix)
    next
      case (Some cs')
      have "parse_items n (concat (map (make_item relPath) cs') @ js ''</ul>'' @ js ''</li>'' @ concat (map (make_item relPath) ms) @ rest) =
          Some (map (with_path relPath) cs', js ''</ul>'' @ js ''</li>'' @ concat (map (make_item relPath) ms) @ rest)"
        using Suc.prems Cons m Some by (intro Suc.IH) (simp_all add: not_prefix js_length)
      then show ?thesis using Cons m more Some by (simp add: marks not_prefix)
    qed
  qed
qed simp

text \<open>
  C28. Printing a menu and reading it back gives the same tree: for every menu whose texts have no \<open><\<close> and whose
  targets have no quote, the nested lists that \<open>makeTree\<close> prints parse to the same entries with the same nesting, in the same
  order, each target prefixed by the relative path; so no entry is lost, merged or moved to another level.
\<close>

theorem makeTree_roundtrip:
  assumes "list_all menu_safe cs" and "34 \<notin> set relPath"
  shows "parse_tree (makeTree relPath (Some cs)) = Some (map (with_path relPath) cs)"
proof -
  let ?s = "concat (map (make_item relPath) cs)"
  have "parse_items (Suc (length (makeTree relPath (Some cs)))) (?s @ js ''</ul>'') =
      Some (map (with_path relPath) cs, js ''</ul>'')"
    using assms not_prefix(2) [of "[]"] by (intro parse_items_make) (simp_all add: makeTree_def)
  then show ?thesis by (simp add: parse_tree_def makeTree_def)
qed

lemma menudata_safe: "list_all menu_safe (the menudata)"
  by (simp add: menudata_def js_def)

theorem makeTree_roundtrip_witness:
  "list_all menu_safe (the menudata) \<and>
   parse_tree (makeTree [] menudata) = Some (map (with_path []) (the menudata))"
  using makeTree_roundtrip [OF menudata_safe, of "[]"] menudata_safe by (simp add: menudata_def)

lemma append_tree_Some: "append_tree relPath (Some cs) nav = nav @ [ul_element (concat (map (make_item relPath) cs))]"
proof -
  let ?s = "concat (map (make_item relPath) cs)"
  have "list_content (makeTree relPath (Some cs)) = ?s"
    by (simp add: makeTree_def list_content_def js_length)
  moreover have "makeTree relPath (Some cs) \<noteq> []" by (simp add: makeTree_def)
  ultimately show ?thesis by (auto simp: append_tree_def split: list.split)
qed

lemma menu_class_args: "class_arg (js ''sm sm-dox'')" "classes (js ''sm sm-dox'') = {js ''sm'', js ''sm-dox''}" "class_ok []"
    "classes [] = {}"
  by (simp_all add: class_eval classes_def)

text \<open>
  \<open>initMenu\<close> on an empty navigation bar builds one list with id \<open>main-menu\<close> and the classes \<open>sm\<close> and \<open>sm-dox\<close>, whose
  content is the printed items of the data, followed by one search item if search is enabled: the one with a form if the search
  runs on the server, the one with the local search box otherwise. The plug-in gets exactly that element.
\<close>
theorem initMenu_builds:
  "\<exists>e. initMenu smartmenus (Some cs) relPath searchEnabled serverSide searchPage search [] = [smartmenus e] \<and>
     jid e = js ''main-menu'' \<and> classes (jclass e) = {js ''sm'', js ''sm-dox''} \<and>
     jhtml e = concat (map (make_item relPath) cs) @
       (if searchEnabled
        then if serverSide then server_search_item relPath searchPage search else local_search_item relPath search
        else [])"
proof -
  have cls: "classes (addClass (js ''sm sm-dox'') []) = {js ''sm'', js ''sm-dox''}"
    using jq.toks_add [OF menu_class_args(3,1)] menu_class_args by simp
  let ?e = "(add_class ''sm sm-dox'' (ul_element (concat (map (make_item relPath) cs))))\<lparr>jid := js ''main-menu''\<rparr>"
  show ?thesis
    by (rule exI [of _ "if searchEnabled then append_html
         (if serverSide then server_search_item relPath searchPage search else local_search_item relPath search) ?e else ?e"])
      (simp add: initMenu_def append_tree_Some name_first_def append_html_def ul_element_def add_class_def cls)
qed

end
