(* ===== verification/SearchResults.thy ===== *)
theory SearchResults
  imports Dom
begin

text \<open>
  The results page of the documentation search: class \<open>SearchResults\<close>, \<open>setKeyActions\<close>,
  \<open>setClassAttr\<close> and \<open>createResults\<close> of \<open>docs/html/search/search.js\<close>, on a results page such
  as \<open>docs/html/search/all_0.html\<close>. The page's document is a tree of \<open>Dom\<close>; a handler returns
  the new page, what it does to the parent window and the handler's own return value.
\<close>

section \<open>The results page\<close>

record results_page =
  document :: node
  lastMatchCount :: nat
  lastKey :: nat
  repeatOn :: bool

definition SearchResults_new :: "node \<Rightarrow> results_page" where
  "SearchResults_new d = \<lparr>document = d, lastMatchCount = 0, lastKey = 0, repeatOn = False\<rparr>"

section \<open>FindChildElement\<close>

definition is_div :: "node \<Rightarrow> path \<Rightarrow> bool" where
  "is_div d p = has_elem (\<lambda>e. nodeName e = js ''DIV'') d p"

definition is_children :: "node \<Rightarrow> path \<Rightarrow> bool" where
  "is_children d p = has_elem (\<lambda>e. nodeName e = js ''DIV'' \<and> className e = js ''SRChildren'') d p"

text \<open>The inner \<open>do ... while\<close>: to the parent, and on while it is not the end and has no sibling.\<close>

function climb :: "node \<Rightarrow> path \<Rightarrow> path \<Rightarrow> path option" where
  "climb d par p =
     (case parentNode p of
        None \<Rightarrow> None
      | Some q \<Rightarrow> if q \<noteq> par \<and> nextSibling d q = None then climb d par q else Some q)"
  by pat_completeness auto
termination
  by (relation "measure (\<lambda>(d, par, p). length p)") (auto simp: parentNode_def split: if_splits)

declare climb.simps [simp del]

definition next_element :: "node \<Rightarrow> path \<Rightarrow> path \<Rightarrow> path option" where
  "next_element d par p =
     (if is_div d p \<and> child_count d p \<noteq> 0 then firstChild d p
      else if nextSibling d p \<noteq> None then nextSibling d p
      else (case climb d par p of
              None \<Rightarrow> None
            | Some q \<Rightarrow> if q \<noteq> par then nextSibling d q else Some q))"

fun find_child_loop :: "node \<Rightarrow> path \<Rightarrow> nat \<Rightarrow> path option \<Rightarrow> path option res" where
  "find_child_loop d par 0 element = Spin"
| "find_child_loop d par (Suc fuel) element =
     (case element of
        None \<Rightarrow> Ret None
      | Some p \<Rightarrow>
          if p = par then Ret None
          else if is_children d p then Ret (Some p)
          else find_child_loop d par fuel (next_element d par p))"

definition FindChildElement :: "node \<Rightarrow> jsstring \<Rightarrow> path option res" where
  "FindChildElement d i =
     and_then (non_null (getElementById d i))
       (\<lambda>par. find_child_loop d par (Suc (length (paths d))) (firstChild d par))"

definition display_of :: "node \<Rightarrow> path \<Rightarrow> jsstring" where
  "display_of d p = (case elem_at d p of None \<Rightarrow> [] | Some e \<Rightarrow> display e)"

definition ident_of :: "node \<Rightarrow> path \<Rightarrow> jsstring" where
  "ident_of d p = (case elem_at d p of None \<Rightarrow> [] | Some e \<Rightarrow> ident e)"

definition set_display_at :: "path \<Rightarrow> jsstring \<Rightarrow> results_page \<Rightarrow> results_page" where
  "set_display_at p v w = w\<lparr>document := upd p (set_display v) (document w)\<rparr>"

definition Toggle :: "jsstring \<Rightarrow> results_page \<Rightarrow> results_page res" where
  "Toggle i w =
     and_then (FindChildElement (document w) i)
       (\<lambda>element. case element of
          None \<Rightarrow> Ret w
        | Some p \<Rightarrow>
            if display_of (document w) p = js ''block'' then Ret (set_display_at p (js ''none'') w)
            else Ret (set_display_at p (js ''block'') w))"

section \<open>Search\<close>

text \<open>\<open>replace(/^sr\d*_/, '')\<close>.\<close>

definition strip_sr :: "jsstring \<Rightarrow> jsstring" where
  "strip_sr s =
     (if take 2 s = js ''sr'' then
        (case dropWhile is_digit (drop 2 s) of
           [] \<Rightarrow> s
         | c # r \<Rightarrow> if c = 95 then r else s)
      else s)"

definition search_term :: "(jsstring \<Rightarrow> jsstring) \<Rightarrow> jsstring \<Rightarrow> jsstring \<Rightarrow> jsstring" where
  "search_term lc location_search search =
     convertToId (lc (strip_trailing (strip_leading
       (if search = [] then unescape (drop 1 location_search) else search))))"

definition row_matches :: "(jsstring \<Rightarrow> jsstring) \<Rightarrow> jsstring \<Rightarrow> elem \<Rightarrow> bool" where
  "row_matches lc search row =
     (let rowMatchName = strip_sr (lc (ident row))
      in length search \<le> length rowMatchName \<and> take (length search) rowMatchName = search)"

fun search_rows :: "(jsstring \<Rightarrow> jsstring) \<Rightarrow> jsstring \<Rightarrow> path list \<Rightarrow> nat \<Rightarrow> node \<Rightarrow> node \<times> nat" where
  "search_rows lc search [] matches d = (d, matches)"
| "search_rows lc search (p # ps) matches d =
     (case elem_at d p of
        None \<Rightarrow> search_rows lc search ps matches d
      | Some row \<Rightarrow>
          if className row = js ''SRResult'' then
            if row_matches lc search row
            then search_rows lc search ps (matches + 1) (upd p (set_display (js ''block'')) d)
            else search_rows lc search ps matches (upd p (set_display (js ''none'')) d)
          else search_rows lc search ps matches d)"

definition set_display_by_id :: "jsstring \<Rightarrow> jsstring \<Rightarrow> node \<Rightarrow> node res" where
  "set_display_by_id i v d =
     and_then (non_null (getElementById d i)) (\<lambda>p. Ret (upd p (set_display v) d))"

definition SearchResults_Search :: "(jsstring \<Rightarrow> jsstring) \<Rightarrow> jsstring \<Rightarrow> jsstring \<Rightarrow> results_page \<Rightarrow> results_page res" where
  "SearchResults_Search lc location_search search w =
     (let (d, matches) = search_rows lc (search_term lc location_search search)
            (getElementsByTagName (document w) (js ''div'')) 0 (document w)
      in and_then (set_display_by_id (js ''Searching'') (js ''none'') d)
           (\<lambda>d'. and_then
              (set_display_by_id (js ''NoMatches'') (if matches = 0 then js ''block'' else js ''none'') d')
              (\<lambda>d''. Ret (w\<lparr>document := d'', lastMatchCount := matches\<rparr>))))"

section \<open>Keyboard navigation\<close>

definition item_name :: "int \<Rightarrow> jsstring" where
  "item_name i = js ''Item'' @ int_to_string i"

definition child_name :: "int \<Rightarrow> int \<Rightarrow> jsstring" where
  "child_name i c = item_name i @ js ''_c'' @ int_to_string c"

text \<open>\<open>parentNode.parentNode\<close>, read for its \<open>style\<close> or \<open>id\<close>, which the document node has not.\<close>

definition grandparent :: "path \<Rightarrow> path option" where
  "grandparent p = (if length p < 3 then None else Some (butlast (butlast p)))"

datatype item_state = Missing | Shown path | Hidden | Broken

definition item_at :: "node \<Rightarrow> int \<Rightarrow> item_state" where
  "item_at d i =
     (case getElementById d (item_name i) of
        None \<Rightarrow> Missing
      | Some p \<Rightarrow>
          (case grandparent p of
             None \<Rightarrow> Broken
           | Some g \<Rightarrow> if display_of d g = js ''block'' then Shown p else Hidden))"

text \<open>\<open>NavNext\<close> and \<open>NavPrev\<close> are the same loop with \<open>index++\<close> and \<open>index--\<close>.\<close>

fun nav_loop :: "node \<Rightarrow> int \<Rightarrow> nat \<Rightarrow> int \<Rightarrow> path option res" where
  "nav_loop d s 0 index = Spin"
| "nav_loop d s (Suc fuel) index =
     (case item_at d index of
        Missing \<Rightarrow> Ret None
      | Shown p \<Rightarrow> Ret (Some p)
      | Broken \<Rightarrow> TypeError
      | Hidden \<Rightarrow> nav_loop d s fuel (index + s))"

definition NavNext :: "node \<Rightarrow> int \<Rightarrow> path option res" where
  "NavNext d index = nav_loop d 1 (Suc (length (paths d))) index"

definition NavPrev :: "node \<Rightarrow> int \<Rightarrow> path option res" where
  "NavPrev d index = nav_loop d (- 1) (Suc (length (paths d))) index"

datatype event_type = Keydown | Keypress | Keyup | Other_event

record key_event =
  etype :: event_type
  keyCode :: nat
  shiftKey :: bool

definition ProcessKeys :: "key_event \<Rightarrow> results_page \<Rightarrow> results_page \<times> bool" where
  "ProcessKeys e w =
     (case etype e of
        Keydown \<Rightarrow> (let w' = w\<lparr>lastKey := keyCode e, repeatOn := False\<rparr> in (w', lastKey w' \<noteq> 0))
      | Keypress \<Rightarrow>
          if \<not> repeatOn w
          then (if lastKey w \<noteq> 0 then w\<lparr>repeatOn := True\<rparr> else w, False)
          else (w, lastKey w \<noteq> 0)
      | Keyup \<Rightarrow> (let w' = w\<lparr>lastKey := 0, repeatOn := False\<rparr> in (w', lastKey w' \<noteq> 0))
      | Other_event \<Rightarrow> (w, lastKey w \<noteq> 0))"

text \<open>What a key handler does outside the results page's document, in order.\<close>

datatype effect = FocusElement path | FocusField | CloseResults

type_synonym nav_result = "(results_page \<times> effect list \<times> bool) res"

fun last_child_loop :: "node \<Rightarrow> int \<Rightarrow> nat \<Rightarrow> int \<Rightarrow> path \<Rightarrow> path res" where
  "last_child_loop d newIndex 0 n focusItem = Spin"
| "last_child_loop d newIndex (Suc fuel) n focusItem =
     (case getElementById d (child_name newIndex n) of
        Some tmpElem \<Rightarrow> last_child_loop d newIndex fuel (n + 1) tmpElem
      | None \<Rightarrow> Ret focusItem)"

text \<open>\<open>FindChildElement(item.parentNode.parentNode.id)\<close>.\<close>

definition find_children_of :: "node \<Rightarrow> path \<Rightarrow> path option res" where
  "find_children_of d p =
     and_then (non_null (grandparent p)) (\<lambda>g. FindChildElement d (ident_of d g))"

definition shown_children :: "node \<Rightarrow> path option \<Rightarrow> bool" where
  "shown_children d c = (case c of None \<Rightarrow> False | Some p \<Rightarrow> display_of d p = js ''block'')"

definition nav_up :: "node \<Rightarrow> int \<Rightarrow> effect list res" where
  "nav_up d itemIndex =
     (let newIndex = itemIndex - 1
      in and_then (NavPrev d newIndex)
           (\<lambda>focusItem. case focusItem of
              None \<Rightarrow> Ret [FocusField]
            | Some p \<Rightarrow>
                and_then (find_children_of d p)
                  (\<lambda>child.
                     if shown_children d child
                     then and_then (last_child_loop d newIndex (Suc (length (paths d))) 0 p)
                            (\<lambda>q. Ret [FocusElement q])
                     else Ret [FocusElement p])))"

definition nav_down :: "node \<Rightarrow> int \<Rightarrow> effect list res" where
  "nav_down d itemIndex =
     and_then (non_null (getElementById d (item_name itemIndex)))
       (\<lambda>item. and_then (find_children_of d item)
         (\<lambda>elem.
            (case (if shown_children d elem then getElementById d (child_name itemIndex 0) else None) of
               Some p \<Rightarrow> Ret [FocusElement p]
             | None \<Rightarrow>
                 and_then (NavNext d (itemIndex + 1))
                   (\<lambda>focusItem. case focusItem of None \<Rightarrow> Ret [] | Some p \<Rightarrow> Ret [FocusElement p]))))"

definition nav_set_children :: "jsstring \<Rightarrow> int \<Rightarrow> results_page \<Rightarrow> results_page res" where
  "nav_set_children v itemIndex w =
     and_then (non_null (getElementById (document w) (item_name itemIndex)))
       (\<lambda>item. and_then (find_children_of (document w) item)
         (\<lambda>elem. case elem of None \<Rightarrow> Ret w | Some p \<Rightarrow> Ret (set_display_at p v w)))"

definition Nav :: "key_event \<Rightarrow> int \<Rightarrow> results_page \<Rightarrow> nav_result" where
  "Nav e itemIndex w =
     (if keyCode e = 13 then Ret (w, [], True)
      else
        (let (w', go) = ProcessKeys e w
         in if \<not> go then Ret (w', [], False)
            else if lastKey w' = 38 then
              and_then (nav_up (document w') itemIndex) (\<lambda>fx. Ret (w', fx, False))
            else if lastKey w' = 40 then
              and_then (nav_down (document w') itemIndex) (\<lambda>fx. Ret (w', fx, False))
            else if lastKey w' = 39 then
              and_then (nav_set_children (js ''block'') itemIndex w') (\<lambda>w''. Ret (w'', [], False))
            else if lastKey w' = 37 then
              and_then (nav_set_children (js ''none'') itemIndex w') (\<lambda>w''. Ret (w'', [], False))
            else if lastKey w' = 27 then Ret (w', [CloseResults, FocusField], False)
            else if lastKey w' = 13 then Ret (w', [], True)
            else Ret (w', [], False)))"

definition NavChild :: "key_event \<Rightarrow> int \<Rightarrow> int \<Rightarrow> results_page \<Rightarrow> nav_result" where
  "NavChild e itemIndex childIndex w =
     (if keyCode e = 13 then Ret (w, [], True)
      else
        (let (w', go) = ProcessKeys e w; d = document w'
         in if \<not> go then Ret (w', [], False)
            else if lastKey w' = 38 then
              and_then (non_null (getElementById d
                  (if childIndex > 0 then child_name itemIndex (childIndex - 1) else item_name itemIndex)))
                (\<lambda>p. Ret (w', [FocusElement p], False))
            else if lastKey w' = 40 then
              (case getElementById d (child_name itemIndex (childIndex + 1)) of
                 Some p \<Rightarrow> Ret (w', [FocusElement p], False)
               | None \<Rightarrow>
                   and_then (NavNext d (itemIndex + 1))
                     (\<lambda>elem. Ret (w', case elem of None \<Rightarrow> [] | Some p \<Rightarrow> [FocusElement p], False)))
            else if lastKey w' = 27 then Ret (w', [CloseResults, FocusField], False)
            else if lastKey w' = 13 then Ret (w', [], True)
            else Ret (w', [], False)))"

section \<open>createResults\<close>

definition setKeyActions :: "jsstring \<Rightarrow> elem \<Rightarrow> elem" where
  "setKeyActions action =
     setAttribute (js ''onkeyup'') action \<circ> setAttribute (js ''onkeypress'') action \<circ>
     setAttribute (js ''onkeydown'') action"

definition setClassAttr :: "jsstring \<Rightarrow> elem \<Rightarrow> elem" where
  "setClassAttr attr = setAttribute (js ''className'') attr \<circ> setAttribute (js ''class'') attr"

text \<open>
  An entry \<open>searchData[e]\<close> is \<open>[id, [name, link, ...]]\<close> and a link is \<open>[url, flag, scope]\<close>.
\<close>

record link =
  url :: jsstring
  in_parent :: bool
  scope :: jsstring

record entry =
  entry_id :: jsstring
  entry_name :: jsstring
  links :: "link list"

definition target_parent :: "bool \<Rightarrow> elem \<Rightarrow> elem" where
  "target_parent flag e = (if flag then setAttribute (js ''target'') (js ''_parent'') e else e)"

definition child_link :: "nat \<Rightarrow> nat \<Rightarrow> link \<Rightarrow> node" where
  "child_link e c l =
     Node (set_html (scope l) (target_parent (in_parent l)
       (setAttribute (js ''href'') (url l) (setClassAttr (js ''SRScope'')
         (setKeyActions (js ''return searchResults.NavChild(event,'' @ nat_to_string e @ js '','' @
             nat_to_string c @ js '')'')
           (setAttribute (js ''id'') (child_name (int e) (int c)) (createElement (js ''a''))))))))
     []"

definition symbol_link :: "nat \<Rightarrow> entry \<Rightarrow> elem" where
  "symbol_link e x =
     set_html (entry_name x) (setClassAttr (js ''SRSymbol'')
       (setKeyActions (js ''return searchResults.Nav(event,'' @ nat_to_string e @ js '')'')
         (setAttribute (js ''id'') (item_name (int e)) (createElement (js ''a'')))))"

definition result_entry :: "nat \<Rightarrow> entry \<Rightarrow> node list" where
  "result_entry e x =
     (case links x of
        [l] \<Rightarrow>
          [Node (target_parent (in_parent l) (setAttribute (js ''href'') (url l) (symbol_link e x))) [],
           Node (set_html (scope l) (setClassAttr (js ''SRScope'') (createElement (js ''span'')))) []]
      | ls \<Rightarrow>
          [Node (setAttribute (js ''href'')
             (js ''javascript:searchResults.Toggle(\"SR_'' @ entry_id x @ js ''\")'') (symbol_link e x)) [],
           Node (setClassAttr (js ''SRChildren'') (createElement (js ''div'')))
             (map (\<lambda>(c, l). child_link e c l) (enumerate 0 ls))])"

definition result_row :: "nat \<Rightarrow> entry \<Rightarrow> node" where
  "result_row e x =
     Node (setClassAttr (js ''SRResult'') (setAttribute (js ''id'') (js ''SR_'' @ entry_id x)
         (createElement (js ''div''))))
       [Node (setClassAttr (js ''SREntry'') (createElement (js ''div''))) (result_entry e x)]"

fun create_loop :: "path option \<Rightarrow> nat \<Rightarrow> entry list \<Rightarrow> node \<Rightarrow> node res" where
  "create_loop results e [] d = Ret d"
| "create_loop results e (x # xs) d =
     and_then (non_null results)
       (\<lambda>p. create_loop results (Suc e) xs (appendChild p (result_row e x) d))"

definition createResults :: "entry list \<Rightarrow> node \<Rightarrow> node res" where
  "createResults searchData d = create_loop (getElementById d (js ''SRResults'')) 0 searchData d"

section \<open>The pointer walk of FindChildElement\<close>

text \<open>
  The reference: the first \<open>SRChildren\<close> division in tree order among the descendants, looking
  only into divisions.
\<close>

fun first_children :: "path \<Rightarrow> node \<Rightarrow> path option"
  and first_children_of :: "path \<Rightarrow> nat \<Rightarrow> node list \<Rightarrow> path option" where
  "first_children p (Node e ns) =
     (if nodeName e \<noteq> js ''DIV'' then None
      else if className e = js ''SRChildren'' then Some p
      else first_children_of p 0 ns)"
| "first_children_of p i [] = None"
| "first_children_of p i (n # ns) =
     (case first_children (p @ [i]) n of None \<Rightarrow> first_children_of p (Suc i) ns | Some q \<Rightarrow> Some q)"

fun visits :: "node \<Rightarrow> nat"
  and visits_of :: "node list \<Rightarrow> nat" where
  "visits (Node e ns) = Suc (if nodeName e = js ''DIV'' then visits_of ns else 0)"
| "visits_of [] = 0"
| "visits_of (n # ns) = visits n + visits_of ns"

definition leave :: "node \<Rightarrow> path \<Rightarrow> path \<Rightarrow> path option" where
  "leave d par p =
     (if nextSibling d p \<noteq> None then nextSibling d p
      else (case climb d par p of None \<Rightarrow> None | Some q \<Rightarrow> if q \<noteq> par then nextSibling d q else Some q))"

lemma next_element_eq:
  "next_element d par p = (if is_div d p \<and> child_count d p \<noteq> 0 then firstChild d p else leave d par p)"
  by (simp add: next_element_def leave_def)

lemma nextSibling_snoc:
  "nextSibling d (q @ [i]) = (if Suc i < child_count d q then Some (q @ [Suc i]) else None)"
  by (simp add: nextSibling_def)

lemma leave_next: "Suc i < child_count d q \<Longrightarrow> leave d par (q @ [i]) = Some (q @ [Suc i])"
  by (simp add: leave_def nextSibling_snoc)

lemma leave_last:
  assumes "\<not> Suc i < child_count d q"
  shows "leave d par (q @ [i]) = (if q = par then Some par else leave d par q)"
  using assms climb.simps [of d par "q @ [i]"] climb.simps [of d par q]
  by (auto simp: leave_def nextSibling_snoc parentNode_def split: option.splits)

lemma get_snoc:
  assumes "node_at d q = Some m" and "i < length (childNodes m)"
  shows "node_at d (q @ [i]) = Some (childNodes m ! i)"
  using assms by (cases m) (simp add: get_append)

lemma child_count_get: "node_at d q = Some m \<Longrightarrow> child_count d q = length (childNodes m)"
  by (simp add: child_count_def)

lemma is_div_get: "node_at d p = Some (Node e ns) \<Longrightarrow> is_div d p = (nodeName e = js ''DIV'')"
  by (simp add: is_div_def has_elem_def elem_at_def)

lemma is_children_get:
  "node_at d p = Some (Node e ns) \<Longrightarrow>
     is_children d p = (nodeName e = js ''DIV'' \<and> className e = js ''SRChildren'')"
  by (simp add: is_children_def has_elem_def elem_at_def)

lemma find_child_walk:
  shows "node_at d p = Some n \<Longrightarrow> strict_prefix par p \<Longrightarrow>
      find_child_loop d par (visits n + fuel) (Some p) =
        (case first_children p n of
           Some r \<Rightarrow> Ret (Some r)
         | None \<Rightarrow> find_child_loop d par fuel (leave d par p))"
    and "node_at d q = Some m \<Longrightarrow> prefix par q \<Longrightarrow> i < length (childNodes m) \<Longrightarrow> ns = drop i (childNodes m) \<Longrightarrow>
      find_child_loop d par (visits_of ns + fuel) (Some (q @ [i])) =
        (case first_children_of q i ns of
           Some r \<Rightarrow> Ret (Some r)
         | None \<Rightarrow> find_child_loop d par fuel (if q = par then Some par else leave d par q))"
proof (induction n and ns arbitrary: p fuel and q m i fuel rule: visits_visits_of.induct)
  case (1 e ns)
  from 1(3) have ne: "p \<noteq> par" by auto
  note g = is_div_get [OF 1(2)] is_children_get [OF 1(2)] child_count_get [OF 1(2)]
  show ?case
  proof (cases "nodeName e = js ''DIV'' \<and> className e \<noteq> js ''SRChildren'' \<and> ns \<noteq> []")
    case True
    then have "find_child_loop d par (visits_of ns + fuel) (Some (p @ [0])) =
        (case first_children_of p 0 ns of
           Some r \<Rightarrow> Ret (Some r)
         | None \<Rightarrow> find_child_loop d par fuel (if p = par then Some par else leave d par p))"
      using 1 by (intro 1(1)) (auto simp: prefix_order.less_imp_le)
    with True ne g show ?thesis by (simp add: next_element_eq firstChild_def)
  next
    case False
    with ne g show ?thesis by (auto simp: next_element_eq)
  qed
next
  case 2
  then show ?case by simp
next
  case (3 n ns)
  from 3(6) have n: "childNodes m ! i = n" and ns: "ns = drop (Suc i) (childNodes m)"
    using 3(5) by (metis Cons_nth_drop_Suc list.inject)+
  have w: "find_child_loop d par (visits n + (visits_of ns + fuel)) (Some (q @ [i])) =
      (case first_children (q @ [i]) n of
         Some r \<Rightarrow> Ret (Some r)
       | None \<Rightarrow> find_child_loop d par (visits_of ns + fuel) (leave d par (q @ [i])))"
    using get_snoc [OF 3(3,5)] n 3(4) by (intro 3(1)) (auto simp: strict_prefix_def prefix_def)
  show ?case
  proof (cases "Suc i < length (childNodes m)")
    case True
    then have l: "leave d par (q @ [i]) = Some (q @ [Suc i])"
      using leave_next child_count_get [OF 3(3)] by simp
    show ?thesis using w 3(2) [OF 3(3,4) True ns, of fuel] l
      by (cases "first_children (q @ [i]) n") (simp_all add: add.assoc split del: if_split)
  next
    case False
    then have "leave d par (q @ [i]) = (if q = par then Some par else leave d par q)" "ns = []"
      using leave_last child_count_get [OF 3(3)] ns by simp_all
    then show ?thesis using w
      by (cases "first_children (q @ [i]) n") (simp_all split del: if_split)
  qed
qed

lemma visits_paths: "visits n \<le> length (paths n)" "visits_of ns \<le> length (forest_paths i ns)"
  by (induction n and ns arbitrary: and i rule: visits_visits_of.induct) (auto intro: add_mono)

lemma paths_subtree:
  assumes "node_at d p = Some m"
  shows "length (paths m) \<le> length (paths d)"
proof -
  have "(@) p ` set (paths m) \<subseteq> set (paths d)"
  proof
    fix r assume "r \<in> (@) p ` set (paths m)"
    then obtain q where "r = p @ q" "node_at m q \<noteq> None" by (auto simp: get_some_iff [symmetric])
    then have "node_at d r \<noteq> None" using assms by (simp add: get_append)
    then show "r \<in> set (paths d)" by (simp only: get_some_iff)
  qed
  then have "card ((@) p ` set (paths m)) \<le> card (set (paths d))" by (simp add: card_mono)
  moreover have "card ((@) p ` set (paths m)) = card (set (paths m))"
    by (simp add: card_image inj_on_def)
  ultimately show ?thesis by (simp add: distinct_card)
qed

lemma find_child_from:
  assumes "node_at d par = Some m"
  shows "find_child_loop d par (Suc (length (paths d))) (firstChild d par) =
    Ret (first_children_of par 0 (childNodes m))"
proof (cases "childNodes m = []")
  case True
  then show ?thesis using child_count_get [OF assms] by (simp add: firstChild_def)
next
  case False
  have "visits_of (childNodes m) \<le> length (paths d)"
    using visits_paths(2) [of "childNodes m" 0] paths_subtree [OF assms] by (cases m) simp
  then obtain k where k: "Suc (length (paths d)) = visits_of (childNodes m) + Suc k"
    by (metis add_Suc_right le_iff_add)
  have "find_child_loop d par (visits_of (childNodes m) + Suc k) (Some (par @ [0])) =
      (case first_children_of par 0 (childNodes m) of
         Some r \<Rightarrow> Ret (Some r)
       | None \<Rightarrow> find_child_loop d par (Suc k) (if par = par then Some par else leave d par par))"
    using False by (intro find_child_walk(2) [OF assms]) auto
  then show ?thesis using False child_count_get [OF assms] k
    by (simp add: firstChild_def split: option.splits)
qed

lemma FindChildElement_eq:
  "FindChildElement d i =
     (case getElementById d i of
        None \<Rightarrow> TypeError
      | Some par \<Rightarrow> Ret (first_children_of par 0 (childNodes (the (node_at d par)))))"
proof (cases "getElementById d i")
  case None
  then show ?thesis by (simp add: FindChildElement_def)
next
  case (Some par)
  then have "node_at d par \<noteq> None" using getElementById_Some(1) get_some_iff by blast
  then show ?thesis using Some find_child_from by (auto simp: FindChildElement_def)
qed

lemma first_children_found:
  shows "first_children p n = Some r \<Longrightarrow>
      \<exists>q. r = p @ q \<and> has_elem (\<lambda>e. nodeName e = js ''DIV'' \<and> className e = js ''SRChildren'') n q"
    and "first_children_of p i ns = Some r \<Longrightarrow>
      \<exists>j q. j < length ns \<and> r = p @ (i + j) # q \<and>
        has_elem (\<lambda>e. nodeName e = js ''DIV'' \<and> className e = js ''SRChildren'') (ns ! j) q"
proof (induction p n and p i ns rule: first_children_first_children_of.induct)
  case (1 p e ns)
  show ?case
  proof (cases "className e = js ''SRChildren''")
    case True
    then show ?thesis using 1 by (auto simp: has_elem_def split: if_splits)
  next
    case False
    then obtain j q where "j < length ns" "r = p @ j # q"
      "has_elem (\<lambda>e. nodeName e = js ''DIV'' \<and> className e = js ''SRChildren'') (ns ! j) q"
      using 1 by (auto split: if_splits)
    then show ?thesis by (intro exI [of _ "j # q"]) (simp add: has_elem_def)
  qed
next
  case (2 p i)
  then show ?case by simp
next
  case (3 p i n ns)
  show ?case
  proof (cases "first_children (p @ [i]) n")
    case None
    with 3 obtain j q where "j < length ns" "r = p @ (Suc i + j) # q"
      "has_elem (\<lambda>e. nodeName e = js ''DIV'' \<and> className e = js ''SRChildren'') (ns ! j) q"
      by auto
    then show ?thesis by (intro exI [of _ "Suc j"] exI [of _ q]) simp
  next
    case (Some r')
    with 3 show ?thesis by (intro exI [of _ 0]) auto
  qed
qed

section \<open>Item names\<close>

lemma int_to_string_inj: "int_to_string i = int_to_string j \<longleftrightarrow> i = j"
proof
  assume e: "int_to_string i = int_to_string j"
  have minus: "nat_to_string m \<noteq> 45 # s" for m s
    using nat_to_string_digits [of 45 m] by (auto simp: is_digit_def)
  have "nat \<bar>i\<bar> = nat \<bar>j\<bar> \<and> (i < 0 \<longleftrightarrow> j < 0)"
    using e minus minus [symmetric] read_decimal_nat_to_string
    by (auto simp: int_to_string_def split: if_splits dest: arg_cong [where f = read_decimal])
  then show "i = j" by linarith
qed simp

lemma item_name_inj: "item_name i = item_name j \<longleftrightarrow> i = j"
  by (simp add: item_name_def int_to_string_inj)

lemma child_name_inj: "child_name i c = child_name i d \<longleftrightarrow> c = d"
  by (simp add: child_name_def int_to_string_inj)

interpretation items: numbered_elements "\<lambda>i. getElementById d (item_name i)" "paths d" for d
proof
  show "getElementById d (item_name i) = Some p \<Longrightarrow> p \<in> set (paths d)" for i p
    by (rule getElementById_Some(1))
  show "getElementById d (item_name i) = Some p \<Longrightarrow> getElementById d (item_name j) = Some p \<Longrightarrow> i = j"
    for i j p
    using getElementById_inj item_name_inj by metis
qed

interpretation children: numbered_elements "\<lambda>c. getElementById d (child_name i c)" "paths d" for d i
proof
  show "getElementById d (child_name i c) = Some p \<Longrightarrow> p \<in> set (paths d)" for c p
    by (rule getElementById_Some(1))
  show "getElementById d (child_name i b) = Some p \<Longrightarrow> getElementById d (child_name i c) = Some p \<Longrightarrow> b = c"
    for b c p
    using getElementById_inj child_name_inj by metis
qed

section \<open>The navigation loops\<close>

fun nav_outcome :: "item_state \<Rightarrow> path option res" where
  "nav_outcome Missing = Ret None"
| "nav_outcome (Shown p) = Ret (Some p)"
| "nav_outcome Broken = TypeError"
| "nav_outcome Hidden = Spin"

lemma nav_loop_stops:
  assumes "item_at d (i + s * int n) \<noteq> Hidden" and "\<forall>m<n. item_at d (i + s * int m) = Hidden" and "n < fuel"
  shows "nav_loop d s fuel i = nav_outcome (item_at d (i + s * int n))"
  using assms
proof (induction n arbitrary: i fuel)
  case 0
  then show ?case by (cases fuel) (auto split: item_state.splits)
next
  case (Suc n)
  obtain k where k: "fuel = Suc k" using Suc.prems(3) by (cases fuel) auto
  have "item_at d i = Hidden" using Suc.prems(2) [rule_format, of 0] by simp
  moreover have "nav_loop d s k (i + s) = nav_outcome (item_at d (i + s + s * int n))"
  proof (rule Suc.IH)
    show "item_at d (i + s + s * int n) \<noteq> Hidden" using Suc.prems(1) by (simp add: algebra_simps)
    show "\<forall>m<n. item_at d (i + s + s * int m) = Hidden"
    proof (intro allI impI)
      fix m assume "m < n"
      then show "item_at d (i + s + s * int m) = Hidden"
        using Suc.prems(2) [rule_format, of "Suc m"] by (simp add: algebra_simps)
    qed
    show "n < k" using Suc.prems(3) k by simp
  qed
  ultimately show ?case using k by (simp add: algebra_simps)
qed

lemma nav_loop_first:
  assumes "s \<noteq> 0"
  shows "\<exists>n. item_at d (i + s * int n) \<noteq> Hidden \<and> (\<forall>m<n. item_at d (i + s * int m) = Hidden) \<and>
    nav_loop d s (Suc (length (paths d))) i = nav_outcome (item_at d (i + s * int n))"
proof -
  obtain b where b: "b \<le> length (paths d)" "item_at d (i + s * int b) \<noteq> Hidden"
    using items.runs_out [OF assms, of d i] by (auto simp: item_at_def)
  define n where "n = (LEAST n. item_at d (i + s * int n) \<noteq> Hidden)"
  have n: "item_at d (i + s * int n) \<noteq> Hidden" unfolding n_def by (rule LeastI) (rule b(2))
  have less: "\<forall>m<n. item_at d (i + s * int m) = Hidden" unfolding n_def using not_less_Least by blast
  have "n \<le> b" unfolding n_def using b(2) by (rule Least_le)
  then have "n < Suc (length (paths d))" using b(1) by simp
  with nav_loop_stops [OF n less] n less show ?thesis by blast
qed

lemma nav_loop_not_spin:
  assumes "s \<noteq> 0"
  shows "nav_loop d s (Suc (length (paths d))) i \<noteq> Spin"
proof -
  obtain n where "item_at d (i + s * int n) \<noteq> Hidden"
    "nav_loop d s (Suc (length (paths d))) i = nav_outcome (item_at d (i + s * int n))"
    using nav_loop_first [OF assms] by blast
  then show ?thesis by (cases "item_at d (i + s * int n)") auto
qed

lemma last_child_stops:
  assumes "getElementById d (child_name i (c + int n)) = None" and "n < fuel"
  shows "\<exists>q. last_child_loop d i fuel c p = Ret q"
  using assms
proof (induction n arbitrary: c fuel p)
  case 0
  then show ?case by (cases fuel) auto
next
  case (Suc n)
  then obtain k where k: "fuel = Suc k" "n < k" by (cases fuel) auto
  have "getElementById d (child_name i (c + 1 + int n)) = None"
    using Suc.prems(1) by (simp add: algebra_simps)
  from Suc.IH [OF this k(2)] show ?case using k(1) by (auto split: option.splits)
qed

lemma last_child_returns: "\<exists>q. last_child_loop d i (Suc (length (paths d))) c p = Ret q"
proof -
  obtain n where "n \<le> length (paths d)" "getElementById d (child_name i (c + int n)) = None"
    using children.runs_out [of 1 d i c] by auto
  then show ?thesis by (intro last_child_stops [of d i c n]) auto
qed

section \<open>The effect of a search on the document\<close>

definition is_row :: "elem \<Rightarrow> bool" where
  "is_row e \<longleftrightarrow> nodeName e = js ''DIV'' \<and> className e = js ''SRResult''"

definition show_row :: "(jsstring \<Rightarrow> jsstring) \<Rightarrow> jsstring \<Rightarrow> elem \<Rightarrow> elem" where
  "show_row lc search e = set_display (if row_matches lc search e then js ''block'' else js ''none'') e"

lemma row_matches_display [simp]: "row_matches lc s (set_display v e) = row_matches lc s e"
  by (simp add: row_matches_def)

lemma search_rows_elem_at:
  assumes "distinct ps"
  shows "elem_at (fst (search_rows lc s ps k d)) p =
    (if p \<in> set ps
     then map_option (\<lambda>e. if className e = js ''SRResult'' then show_row lc s e else e) (elem_at d p)
     else elem_at d p)"
  using assms
proof (induction lc s ps k d rule: search_rows.induct)
  case (1 lc s k d)
  then show ?case by simp
next
  case (2 lc s q ps k d)
  then show ?case
    by (cases "elem_at d q") (auto simp: elem_at_upd show_row_def)
qed

lemma search_rows_count:
  assumes "distinct ps"
  shows "snd (search_rows lc s ps k d) =
    k + length (filter (has_elem (\<lambda>e. className e = js ''SRResult'' \<and> row_matches lc s e) d) ps)"
  using assms
proof (induction lc s ps k d rule: search_rows.induct)
  case (1 lc s k d)
  then show ?case by simp
next
  case (2 lc s q ps k d)
  have "has_elem (\<lambda>e. className e = js ''SRResult'' \<and> row_matches lc s e) (upd q (set_display v) d) =
      has_elem (\<lambda>e. className e = js ''SRResult'' \<and> row_matches lc s e) d" for v
    by (auto intro!: has_elem_upd)
  then show ?case using 2 by (auto simp: has_elem_def split: option.splits)
qed

lemma search_rows_erase: "erase (fst (search_rows lc s ps k d)) = erase d"
  by (induction lc s ps k d rule: search_rows.induct) (auto simp: erase_upd split: option.splits)

lemma divs_eq:
  "getElementsByTagName d (js ''div'') = filter (has_elem (\<lambda>e. nodeName e = js ''DIV'') d) (paths d)"
proof -
  have "map ascii_upper (js ''div'') = js ''DIV''" by (simp add: js_def ascii_upper_def)
  then show ?thesis by (simp add: getElementsByTagName_def)
qed

definition rows_shown :: "(jsstring \<Rightarrow> jsstring) \<Rightarrow> jsstring \<Rightarrow> node \<Rightarrow> nat" where
  "rows_shown lc s d = length (filter (has_elem (\<lambda>e. is_row e \<and> row_matches lc s e) d) (paths d))"

lemma has_elem_conj: "has_elem P d p \<and> has_elem Q d p \<longleftrightarrow> has_elem (\<lambda>e. P e \<and> Q e) d p"
  by (auto simp: has_elem_def split: option.splits)

lemma search_rows_all:
  fixes d lc s
  defines "r \<equiv> search_rows lc s (getElementsByTagName d (js ''div'')) 0 d"
  shows "elem_at (fst r) p = map_option (\<lambda>e. if is_row e then show_row lc s e else e) (elem_at d p)"
    and "snd r = rows_shown lc s d" and "erase (fst r) = erase d"
proof -
  have D: "distinct (getElementsByTagName d (js ''div''))" by (simp add: divs_eq)
  have "elem_at d p = None" if "p \<notin> set (paths d)" using elem_at_some_iff that by blast
  then show "elem_at (fst r) p = map_option (\<lambda>e. if is_row e then show_row lc s e else e) (elem_at d p)"
    unfolding r_def search_rows_elem_at [OF D]
    by (cases "elem_at d p") (auto simp: divs_eq has_elem_def is_row_def)
  have "filter (has_elem (\<lambda>e. className e = js ''SRResult'' \<and> row_matches lc s e) d)
      (getElementsByTagName d (js ''div'')) =
    filter (has_elem (\<lambda>e. is_row e \<and> row_matches lc s e) d) (paths d)"
    by (auto simp: divs_eq has_elem_conj is_row_def intro!: filter_cong)
  then show "snd r = rows_shown lc s d"
    unfolding r_def search_rows_count [OF D] by (simp add: rows_shown_def)
  show "erase (fst r) = erase d" unfolding r_def by (rule search_rows_erase)
qed

lemma display_after:
  "map_option (set_display v) (map_option (\<lambda>e. if is_row e then show_row lc s e else e) x) =
     map_option (set_display v) x"
  "map_option (set_display v) (map_option (set_display u) x) = map_option (set_display v) x"
  by (cases x; simp add: show_row_def)+

lemma Search_page:
  assumes "getElementById (document w) (js ''Searching'') = Some ps"
    and "getElementById (document w) (js ''NoMatches'') = Some pn"
  shows "\<exists>d. SearchResults_Search lc loc q w = Ret (w\<lparr>document := d, lastMatchCount := rows_shown lc (search_term lc loc q) (document w)\<rparr>) \<and>
    erase d = erase (document w) \<and>
    (\<forall>p. elem_at d p = (if p = pn
       then map_option (set_display
         (if rows_shown lc (search_term lc loc q) (document w) = 0 then js ''block'' else js ''none'')) (elem_at (document w) p)
       else if p = ps then map_option (set_display (js ''none'')) (elem_at (document w) p)
       else map_option (\<lambda>e. if is_row e then show_row lc (search_term lc loc q) e else e) (elem_at (document w) p)))"
proof -
  define r where "r = search_rows lc (search_term lc loc q) (getElementsByTagName (document w) (js ''div'')) 0 (document w)"
  note all = search_rows_all [of lc "search_term lc loc q" "document w", folded r_def]
  have ids: "getElementById (fst r) i = getElementById (document w) i" for i
    using erase_getElementById all(3) by blast
  let ?d1 = "upd ps (set_display (js ''none'')) (fst r)"
  have ids1: "getElementById ?d1 i = getElementById (document w) i" for i
    using ids by (simp add: getElementById_upd)
  let ?d2 = "upd pn (set_display (if snd r = 0 then js ''block'' else js ''none'')) ?d1"
  have "SearchResults_Search lc loc q w = Ret (w\<lparr>document := ?d2, lastMatchCount := snd r\<rparr>)"
    using assms ids ids1
    by (simp add: SearchResults_Search_def r_def [symmetric] split_beta set_display_by_id_def)
  moreover have "erase ?d2 = erase (document w)" by (simp add: erase_upd all(3))
  moreover have "elem_at ?d2 p = (if p = pn
       then map_option (set_display (if rows_shown lc (search_term lc loc q) (document w) = 0 then js ''block'' else js ''none'')) (elem_at (document w) p)
       else if p = ps then map_option (set_display (js ''none'')) (elem_at (document w) p)
       else map_option (\<lambda>e. if is_row e then show_row lc (search_term lc loc q) e else e) (elem_at (document w) p))" for p
    by (simp add: elem_at_upd all(1,2) display_after)
  ultimately show ?thesis unfolding all(2) by blast
qed

section \<open>FindChildElement and displays\<close>

lemma nextSibling_erase [simp]: "nextSibling (erase d) p = nextSibling d p"
  by (simp add: nextSibling_def)

lemma climb_erase [simp]: "climb (erase d) par p = climb d par p"
proof (induction d par p rule: climb.induct)
  case (1 d par p)
  then show ?case
    by (simp add: climb.simps [of "erase d" par p] climb.simps [of d par p] split: option.splits)
qed

lemma is_children_erase [simp]: "is_children (erase d) p = is_children d p"
  unfolding is_children_def by (rule has_elem_erase) simp

lemma next_element_erase [simp]: "next_element (erase d) par p = next_element d par p"
proof -
  have "is_div (erase d) p = is_div d p" unfolding is_div_def by (rule has_elem_erase) simp
  then show ?thesis by (simp add: next_element_def firstChild_def split: option.splits)
qed

lemma find_child_loop_erase: "find_child_loop (erase d) par fuel r = find_child_loop d par fuel r"
  by (induction d par fuel r rule: find_child_loop.induct) (auto split: option.splits)

lemma FindChildElement_erase: "FindChildElement (erase d) i = FindChildElement d i"
  by (simp add: FindChildElement_def find_child_loop_erase firstChild_def del: find_child_loop.simps)

section \<open>Properties\<close>

text \<open>
  C30. The pointer walk of \<open>FindChildElement\<close> (first child, next sibling, climbing back to a
  parent that has one) always ends, and finds the first division of class \<open>SRChildren\<close> in tree
  order among the descendants of the element, looking only into divisions: the result of
  a recursive search of the subtree. It raises a \<open>TypeError\<close> exactly if no element has the id.
\<close>

theorem find_child_element_first:
  "FindChildElement d i =
     (case getElementById d i of
        None \<Rightarrow> TypeError
      | Some par \<Rightarrow> Ret (first_children_of par 0 (childNodes (the (node_at d par)))))"
  by (rule FindChildElement_eq)

text \<open>
  C31. \<open>NavNext\<close> and \<open>NavPrev\<close> always end, on any document. They skip the items whose row is not
  displayed and stop at the first index, upwards or downwards from the given one, whose item is
  missing, displayed, or has no row: the first gives \<open>null\<close>, the second the item and the last
  a \<open>TypeError\<close>.
\<close>

theorem nav_stops_at_first_visible:
  "(\<exists>n. (\<forall>m<n. item_at d (i + int m) = Hidden) \<and> item_at d (i + int n) \<noteq> Hidden \<and>
        NavNext d i = nav_outcome (item_at d (i + int n))) \<and>
   (\<exists>n. (\<forall>m<n. item_at d (i - int m) = Hidden) \<and> item_at d (i - int n) \<noteq> Hidden \<and>
        NavPrev d i = nav_outcome (item_at d (i - int n)))"
  using nav_loop_first [of 1 d i] nav_loop_first [of "- 1" d i] unfolding NavNext_def NavPrev_def
  by auto

definition two_rows :: node where
  "two_rows =
     (let row = (\<lambda>i v. Node (set_display v (createElement (js ''div'')))
            [Node (createElement (js ''div''))
              [Node (setAttribute (js ''id'') (item_name i) (createElement (js ''a''))) []]])
      in Node (createElement []) [Node (createElement (js ''body'')) [row 0 (js ''none''), row 1 (js ''block'')]])"

lemma two_rows_items: "item_at two_rows 0 = Hidden" "item_at two_rows 1 = Shown [0, 1, 0, 0]"
proof -
  have id: "ident (setAttribute (js ''id'') v (createElement t)) = v" "ident (createElement t) = []"
    "ident (set_display v (createElement t)) = []" for v t
    by (simp_all add: setAttribute_def createElement_def set_display_def)
  have n: "item_name i \<noteq> []" "[] \<noteq> item_name i" for i by (simp_all add: item_name_def js_def)
  have "getElementById two_rows (item_name 0) = Some [0, 0, 0, 0]"
    "getElementById two_rows (item_name 1) = Some [0, 1, 0, 0]"
    by (simp_all add: getElementById_def two_rows_def has_elem_def id n item_name_inj)
  then show "item_at two_rows 0 = Hidden" "item_at two_rows 1 = Shown [0, 1, 0, 0]"
    by (simp_all add: item_at_def grandparent_def display_of_def two_rows_def)
qed

theorem nav_stops_at_first_visible_witness: "NavNext two_rows 0 = Ret (Some [0, 1, 0, 0])"
proof -
  obtain n where n: "\<forall>m<n. item_at two_rows (0 + int m) = Hidden" "item_at two_rows (0 + int n) \<noteq> Hidden"
    "NavNext two_rows 0 = nav_outcome (item_at two_rows (0 + int n))"
    by (rule exE [OF conjunct1 [OF nav_stops_at_first_visible [of two_rows 0]]]) (elim conjE)
  have "n \<noteq> 0" using n(2) two_rows_items(1) by (cases n) simp_all
  moreover have "\<not> 1 < n" using n(1) [rule_format, of 1] two_rows_items(2) by auto
  ultimately have "n = 1" by simp
  then show ?thesis using n(3) two_rows_items(2) by simp
qed

fun process_all :: "key_event list \<Rightarrow> results_page \<Rightarrow> results_page \<times> bool list" where
  "process_all [] w = (w, [])"
| "process_all (e # es) w =
     (let (w', go) = ProcessKeys e w; (w'', gos) = process_all es w' in (w'', go # gos))"

lemma process_repeats:
  "lastKey w \<noteq> 0 \<Longrightarrow> repeatOn w \<Longrightarrow> list_all (\<lambda>e. etype e = Keypress) es \<Longrightarrow>
     process_all es w = (w, replicate (length es) True)"
  by (induction es) (auto simp: ProcessKeys_def)

text \<open>
  Holding a key down acts once for the key press and once for every automatic repeat: of the events
  of a held key, \<open>keydown\<close> is acted on, the first \<open>keypress\<close> is not (it reports the same
  press again), every further \<open>keypress\<close> is, and \<open>keyup\<close> is not and forgets the key.
\<close>

theorem held_key_repeats:
  assumes "etype down = Keydown" and "keyCode down \<noteq> 0" and "etype press = Keypress"
    and "list_all (\<lambda>e. etype e = Keypress) repeats" and "etype up = Keyup"
  shows "process_all (down # press # repeats @ [up]) w =
    (w\<lparr>lastKey := 0, repeatOn := False\<rparr>, True # False # replicate (length repeats) True @ [False])"
proof -
  have split: "process_all (es @ fs) v =
      (let (v', a) = process_all es v; (v'', b) = process_all fs v' in (v'', a @ b))" for es fs v
    by (induction es arbitrary: v) (auto simp: Let_def split: prod.splits)
  show ?thesis using assms
    by (simp add: split ProcessKeys_def [of down] ProcessKeys_def [of press] ProcessKeys_def [of up]
        process_repeats Let_def)
qed

theorem held_key_repeats_witness:
  "\<exists>w. process_all
     [\<lparr>etype = Keydown, keyCode = 40, shiftKey = False\<rparr>, \<lparr>etype = Keypress, keyCode = 40, shiftKey = False\<rparr>,
      \<lparr>etype = Keypress, keyCode = 40, shiftKey = False\<rparr>, \<lparr>etype = Keyup, keyCode = 40, shiftKey = False\<rparr>] w =
     (w\<lparr>lastKey := 0, repeatOn := False\<rparr>, [True, False, True, False])"
  using held_key_repeats [of "\<lparr>etype = Keydown, keyCode = 40, shiftKey = False\<rparr>"
      "\<lparr>etype = Keypress, keyCode = 40, shiftKey = False\<rparr>"
      "[\<lparr>etype = Keypress, keyCode = 40, shiftKey = False\<rparr>]"
      "\<lparr>etype = Keyup, keyCode = 40, shiftKey = False\<rparr>"]
  by auto

end
