(* ===== verification/SearchBox.thy ===== *)
theory SearchBox
  imports SearchResults
begin

text \<open>
  The search panel of a documentation page: \<open>getXPos\<close>, \<open>getYPos\<close>, class \<open>SearchBox\<close> and
  \<open>init_search\<close> of \<open>docs/html/search/search.js\<close>. The record \<open>search_ui\<close> holds the instance
  variables of the object and what its handlers read and write of the page: the field's value,
  the style and class of the panel's elements, the timers, the focus and the location of the
  results frame. A handler that may raise a \<open>TypeError\<close> returns with the state a flag that is false
  if it did, since what it changed before stays changed.
\<close>

section \<open>Positions\<close>

text \<open>
  An element's offset box followed by the boxes of its chain of \<open>offsetParent\<close>s.
\<close>

record offset_box =
  offsetLeft :: int
  offsetTop :: int
  offsetWidth :: int
  offsetHeight :: int
  is_body :: bool

type_synonym item = "offset_box list"

fun sum_left :: "item \<Rightarrow> int" where
  "sum_left [] = 0"
| "sum_left (b # bs) = (if is_body b then 0 else offsetLeft b + sum_left bs)"

fun sum_top :: "item \<Rightarrow> int" where
  "sum_top [] = 0"
| "sum_top (b # bs) = (if is_body b then 0 else offsetTop b + sum_top bs)"

fun getXPos :: "item \<Rightarrow> int" where
  "getXPos [] = 0"
| "getXPos (b # bs) = (if offsetWidth b \<noteq> 0 then sum_left (b # bs) else 0)"

fun getYPos :: "item \<Rightarrow> int" where
  "getYPos [] = 0"
| "getYPos (b # bs) = (if offsetWidth b \<noteq> 0 then sum_top (b # bs) else 0)"

text \<open>The sizes and positions that a handler reads while it runs.\<close>

record layout =
  select_box :: item
  select_window_width :: int
  search_box_item :: item
  results_frame_width :: int
  body_width :: int

definition head_width :: "item \<Rightarrow> int" where
  "head_width i = (case i of [] \<Rightarrow> 0 | b # _ \<Rightarrow> offsetWidth b)"

definition head_height :: "item \<Rightarrow> int" where
  "head_height i = (case i of [] \<Rightarrow> 0 | b # _ \<Rightarrow> offsetHeight b)"

definition px :: "int \<Rightarrow> jsstring" where
  "px n = int_to_string n @ js ''px''"

section \<open>The panel\<close>

datatype focus_target = NoFocus | Field | SelectLink nat | FrameItem path

datatype timer = SearchTimer | CloseSelectionTimer

record select_child =
  child_class :: jsstring
  mark :: jsstring
  label :: jsstring
  onclick :: jsstring

record search_ui =
  box_name :: jsstring
  resultsPath :: jsstring
  keyTimeout :: nat
  keyTimeoutLength :: nat
  closeSelectionTimeout :: nat
  lastSearchValue :: jsstring
  lastResultsPage :: jsstring
  hideTimeout :: nat
  searchIndex :: nat
  searchActive :: bool
  insideFrame :: bool
  searchLabel :: jsstring
  field_value :: jsstring
  box_class :: jsstring
  results_display :: jsstring
  results_position :: jsstring
  results_left :: jsstring
  results_top :: jsstring
  results_width :: jsstring
  frame_width :: jsstring
  close_display :: jsstring
  select_display :: jsstring
  select_left :: jsstring
  select_top :: jsstring
  select_children :: "select_child list"
  focus :: focus_target
  pending :: "(nat \<times> timer) list"
  next_timer :: nat
  frame_location :: jsstring
  frame_results :: "results_page option"

definition SearchBox_new :: "jsstring \<Rightarrow> jsstring \<Rightarrow> bool \<Rightarrow> jsstring \<Rightarrow> search_ui" where
  "SearchBox_new n path inFrame lbl =
     \<lparr>box_name = n, resultsPath = path, keyTimeout = 0, keyTimeoutLength = 500,
      closeSelectionTimeout = 300, lastSearchValue = [], lastResultsPage = [], hideTimeout = 0,
      searchIndex = 0, searchActive = False, insideFrame = inFrame, searchLabel = lbl,
      field_value = lbl, box_class = js ''MSearchBoxInactive'', results_display = [],
      results_position = [], results_left = [], results_top = [], results_width = [],
      frame_width = [], close_display = [], select_display = [], select_left = [], select_top = [],
      select_children = [\<lparr>child_class = [], mark = [], label = [], onclick = []\<rparr>],
      focus = NoFocus, pending = [], next_timer = 1, frame_location = [], frame_results = None\<rparr>"

text \<open>What the scripts find in their environment: \<open>toLowerCase\<close> and the tables of \<open>searchdata.js\<close>.\<close>

record search_env =
  to_lower :: "jsstring \<Rightarrow> jsstring"
  to_number_gt_1 :: "jsstring \<Rightarrow> bool"
  indexSectionsWithContent :: "jsstring list"
  indexSectionNames :: "jsstring list"
  indexSectionLabels :: "jsstring list"

text \<open>The tables of \<open>docs/html/search/searchdata.js\<close>.\<close>

definition fiberio_env :: "(jsstring \<Rightarrow> jsstring) \<Rightarrow> (jsstring \<Rightarrow> bool) \<Rightarrow> search_env" where
  "fiberio_env lc gt1 =
     \<lparr>to_lower = lc, to_number_gt_1 = gt1,
      indexSectionsWithContent =
        [js ''abcdefgilorsuw~'', js ''ais'', js ''f'', js ''aefis'', js ''abcgilorsuw~'', js ''d'', js ''s'', js ''o''],
      indexSectionNames =
        [js ''all'', js ''classes'', js ''namespaces'', js ''files'', js ''functions'', js ''variables'',
         js ''typedefs'', js ''pages''],
      indexSectionLabels =
        [js ''All'', js ''Classes'', js ''Namespaces'', js ''Files'', js ''Functions'', js ''Variables'',
         js ''Typedefs'', js ''Pages'']\<rparr>"

section \<open>Timers\<close>

definition set_timeout :: "timer \<Rightarrow> search_ui \<Rightarrow> search_ui" where
  "set_timeout t u = u\<lparr>pending := pending u @ [(next_timer u, t)], next_timer := next_timer u + 1\<rparr>"

definition clear_timeout :: "nat \<Rightarrow> search_ui \<Rightarrow> search_ui" where
  "clear_timeout h u = u\<lparr>pending := filter (\<lambda>(k, t). k \<noteq> h) (pending u)\<rparr>"

section \<open>Activation and focus\<close>

definition Activate :: "bool \<Rightarrow> search_ui \<Rightarrow> search_ui" where
  "Activate isActive u =
     (if isActive \<or> results_display u = js ''block'' then
        (let u' = u\<lparr>box_class := js ''MSearchBoxActive''\<rparr>
         in if field_value u' = searchLabel u' then u'\<lparr>field_value := [], searchActive := True\<rparr> else u')
      else
        u\<lparr>box_class := js ''MSearchBoxInactive'', field_value := searchLabel u, searchActive := False,
          lastSearchValue := [], lastResultsPage := []\<rparr>)"

definition OnSearchFieldFocus :: "bool \<Rightarrow> search_ui \<Rightarrow> search_ui" where
  "OnSearchFieldFocus isActive u = Activate isActive u"

text \<open>
  The field's \<open>onfocus\<close> and \<open>onblur\<close> attributes call \<open>OnSearchFieldFocus\<close>; both events fire
  within the call that moves the focus.
\<close>

definition blur_field :: "search_ui \<Rightarrow> search_ui" where
  "blur_field u = (if focus u = Field then OnSearchFieldFocus False (u\<lparr>focus := NoFocus\<rparr>) else u)"

definition focus_field :: "search_ui \<Rightarrow> search_ui" where
  "focus_field u = (if focus u = Field then u else OnSearchFieldFocus True (u\<lparr>focus := Field\<rparr>))"

definition focus_other :: "focus_target \<Rightarrow> search_ui \<Rightarrow> search_ui" where
  "focus_other t u = (blur_field u)\<lparr>focus := t\<rparr>"

text \<open>An element of the results frame takes the focus only while the frame is displayed.\<close>

definition focus_frame_item :: "path \<Rightarrow> search_ui \<Rightarrow> search_ui" where
  "focus_frame_item p u = (if results_display u = js ''block'' then focus_other (FrameItem p) u else u)"

section \<open>The filter selection\<close>

definition OnSearchSelectShow :: "layout \<Rightarrow> search_ui \<Rightarrow> search_ui" where
  "OnSearchSelectShow lay u =
     (let left = getXPos (select_box lay); top = getYPos (select_box lay);
          top = top + head_height (select_box lay);
          left = (if insideFrame u then left + head_width (select_box lay) + 6 - select_window_width lay else left);
          u = u\<lparr>select_display := js ''block'', select_left := px left, select_top := px top\<rparr>
      in if hideTimeout u \<noteq> 0 then (clear_timeout (hideTimeout u) u)\<lparr>hideTimeout := 0\<rparr> else u)"

definition OnSearchSelectHide :: "search_ui \<Rightarrow> search_ui" where
  "OnSearchSelectHide u = (set_timeout CloseSelectionTimer u)\<lparr>hideTimeout := next_timer u\<rparr>"

definition CloseSelectionWindow :: "search_ui \<Rightarrow> search_ui" where
  "CloseSelectionWindow u = u\<lparr>select_display := js ''none''\<rparr>"

fun first_select_item :: "nat \<Rightarrow> select_child list \<Rightarrow> nat option" where
  "first_select_item i [] = None"
| "first_select_item i (c # cs) =
     (if child_class c = js ''SelectItem'' then Some i else first_select_item (Suc i) cs)"

fun count_items :: "nat \<Rightarrow> select_child list \<Rightarrow> nat" where
  "count_items count [] = count"
| "count_items count (c # cs) =
     count_items (if child_class c = js ''SelectItem'' then count + 1 else count) cs"

definition SelectItemCount :: "search_ui \<Rightarrow> nat" where
  "SelectItemCount u = count_items 0 (select_children u)"

fun set_marks :: "nat \<Rightarrow> nat \<Rightarrow> select_child list \<Rightarrow> select_child list" where
  "set_marks i j [] = []"
| "set_marks i j (c # cs) =
     (if child_class c = js ''SelectItem''
      then c\<lparr>mark := if j = i then js ''&#8226;'' else js ''&#160;''\<rparr> # set_marks i (Suc j) cs
      else c # set_marks i j cs)"

definition SelectItemSet :: "nat \<Rightarrow> search_ui \<Rightarrow> search_ui" where
  "SelectItemSet i u = u\<lparr>select_children := set_marks i 0 (select_children u)\<rparr>"

section \<open>Search\<close>

text \<open>
  \<open>searchValue > 1\<close> converts the string to a number. The text of a number starts with white space,
  a digit, a sign, a point or \<open>Infinity\<close>; any other text is \<open>NaN\<close>, which is not greater than 1,
  and the empty text is 0.
\<close>

definition starts_number :: "code_unit \<Rightarrow> bool" where
  "starts_number c \<longleftrightarrow> 9 \<le> c \<and> c \<le> 13 \<or> c = 32 \<or> 48 \<le> c \<and> c \<le> 57 \<or> c \<in> {43, 45, 46, 73} \<or>
     c \<in> {160, 5760, 8232, 8233, 8239, 8287, 12288, 65279} \<or> 8192 \<le> c \<and> c \<le> 8202"

definition greater_than_1 :: "search_env \<Rightarrow> jsstring \<Rightarrow> bool" where
  "greater_than_1 env s = (case s of [] \<Rightarrow> False | c # _ \<Rightarrow> starts_number c \<and> to_number_gt_1 env s)"

definition index_char :: "search_env \<Rightarrow> jsstring \<Rightarrow> jsstring" where
  "index_char env searchValue =
     (case to_lower env searchValue of
        [] \<Rightarrow> to_lower env (take 1 searchValue)
      | code # _ \<Rightarrow>
          if 55296 \<le> code \<and> code \<le> 56319 \<and> greater_than_1 env searchValue
          then take 2 searchValue else to_lower env (take 1 searchValue))"

definition section_name :: "search_env \<Rightarrow> nat \<Rightarrow> jsstring" where
  "section_name env i =
     (if i < length (indexSectionNames env) then indexSectionNames env ! i else js ''undefined'')"

text \<open>\<open>resultsPage\<close> and \<open>resultsPageWithSearch\<close>; none if the section does not exist.\<close>

definition results_pages :: "search_env \<Rightarrow> jsstring \<Rightarrow> nat \<Rightarrow> jsstring \<Rightarrow> (jsstring \<times> jsstring) option" where
  "results_pages env path i searchValue =
     (if i < length (indexSectionsWithContent env) then
        (let idx = index_of (indexSectionsWithContent env ! i) (index_char env searchValue)
         in if idx \<noteq> - 1 then
              (let page = path @ js ''/'' @ section_name env i @ js ''_'' @ to_string16 (nat idx) @ js ''.html''
               in Some (page, page @ js ''?'' @ escape searchValue))
            else
              (let page = path @ js ''/nomatches.html'' in Some (page, page)))
      else None)"

definition show_results :: "layout \<Rightarrow> search_ui \<Rightarrow> search_ui" where
  "show_results lay u =
     (if results_display u = js ''block'' then u
      else if insideFrame u then
        (let width = px (body_width lay - 8)
         in u\<lparr>close_display := js ''inline'', results_position := js ''relative'',
              results_display := js ''block'', results_width := width, frame_width := width\<rparr>)
      else
        (let left = getXPos (search_box_item lay) + 150; top = getYPos (search_box_item lay) + 20
         in u\<lparr>close_display := js ''inline'', results_display := js ''block'',
              results_top := px top, results_left := px (left - results_frame_width lay)\<rparr>))"

definition SearchBox_Search :: "search_env \<Rightarrow> layout \<Rightarrow> search_ui \<Rightarrow> search_ui \<times> bool" where
  "SearchBox_Search env lay u =
     (let u = u\<lparr>keyTimeout := 0\<rparr>; searchValue = strip_leading (field_value u)
      in case results_pages env (resultsPath u) (searchIndex u) searchValue of
           None \<Rightarrow> (u, False)
         | Some (resultsPage, withSearch) \<Rightarrow>
             ((show_results lay (u\<lparr>frame_location := withSearch\<rparr>))
                \<lparr>lastSearchValue := searchValue, lastResultsPage := resultsPage\<rparr>, True))"

section \<open>Handlers\<close>

definition OnSelectItem :: "search_env \<Rightarrow> layout \<Rightarrow> nat \<Rightarrow> search_ui \<Rightarrow> search_ui \<times> bool" where
  "OnSelectItem env lay i u =
     (let u = SelectItemSet i (u\<lparr>searchIndex := i\<rparr>)
      in if remove_spaces (field_value u) \<noteq> [] \<and> searchActive u then SearchBox_Search env lay u else (u, True))"

definition CloseResultsWindow :: "search_ui \<Rightarrow> search_ui" where
  "CloseResultsWindow u = Activate False (u\<lparr>results_display := js ''none'', close_display := js ''none''\<rparr>)"

definition OnSearchSelectKey :: "search_env \<Rightarrow> layout \<Rightarrow> key_event \<Rightarrow> search_ui \<Rightarrow> search_ui \<times> bool" where
  "OnSearchSelectKey env lay e u =
     (if keyCode e = 40 \<and> searchIndex u < SelectItemCount u then
        OnSelectItem env lay (searchIndex u + 1) (u\<lparr>searchIndex := searchIndex u + 1\<rparr>)
      else if keyCode e = 38 \<and> searchIndex u > 0 then
        OnSelectItem env lay (searchIndex u - 1) (u\<lparr>searchIndex := searchIndex u - 1\<rparr>)
      else if keyCode e = 13 \<or> keyCode e = 27 then
        (case OnSelectItem env lay (searchIndex u) u of
           (u', ok) \<Rightarrow> if ok then (focus_field (CloseSelectionWindow u'), True) else (u', False))
      else (u, True))"

definition stop_key_timer :: "search_ui \<Rightarrow> search_ui" where
  "stop_key_timer u =
     (if keyTimeout u \<noteq> 0 then (clear_timeout (keyTimeout u) u)\<lparr>keyTimeout := 0\<rparr> else u)"

text \<open>What follows the handling of the special keys: a changed value starts the timer of a search.\<close>

definition value_changed :: "search_ui \<Rightarrow> search_ui" where
  "value_changed u =
     (let searchValue = remove_spaces (field_value u)
      in if searchValue \<noteq> lastSearchValue u then
           if searchValue \<noteq> [] then (set_timeout SearchTimer u)\<lparr>keyTimeout := next_timer u\<rparr>
           else u\<lparr>results_display := js ''none'', close_display := js ''none'', lastSearchValue := []\<rparr>
         else u)"

definition show_and_focus :: "layout \<Rightarrow> search_ui \<Rightarrow> search_ui" where
  "show_and_focus lay u =
     (let u = OnSearchSelectShow lay u
      in case first_select_item 0 (select_children u) of
           None \<Rightarrow> u
         | Some i \<Rightarrow> focus_other (SelectLink i) u)"

definition OnSearchFieldChange :: "layout \<Rightarrow> key_event \<Rightarrow> search_ui \<Rightarrow> search_ui \<times> bool" where
  "OnSearchFieldChange lay e u =
     (let u = stop_key_timer u
      in if keyCode e = 40 \<or> keyCode e = 13 then
           if shiftKey e then (show_and_focus lay u, True)
           else
             (case frame_results u of
                None \<Rightarrow> (value_changed u, True)
              | Some w \<Rightarrow>
                  (case NavNext (document w) 0 of
                     Ret None \<Rightarrow> (value_changed u, True)
                   | Ret (Some p) \<Rightarrow> (value_changed (focus_frame_item p u), True)
                   | _ \<Rightarrow> (u, False)))
         else if keyCode e = 27 then
           (let u = blur_field u
            in (Activate False (u\<lparr>results_display := js ''none'', close_display := js ''none'',
                  lastSearchValue := []\<rparr>), True))
         else (value_changed u, True))"

fun append_items :: "nat \<Rightarrow> jsstring list \<Rightarrow> select_child list \<Rightarrow> select_child list" where
  "append_items key [] cs = cs"
| "append_items key (l # ls) cs =
     append_items (Suc key) ls
       (cs @ [\<lparr>child_class = js ''SelectItem'', mark = js ''&#160;'', label = l,
               onclick = js ''searchBox.OnSelectItem('' @ nat_to_string key @ js '')''\<rparr>])"

definition init_search :: "search_env \<Rightarrow> layout \<Rightarrow> search_ui \<Rightarrow> search_ui \<times> bool" where
  "init_search env lay u =
     OnSelectItem env lay 0
       (u\<lparr>select_children := append_items 0 (indexSectionLabels env) (select_children u)\<rparr>)"

section \<open>The panel as a state machine\<close>

text \<open>
  Key events of the results page, whose handlers call back into the panel.
\<close>

fun apply_effect :: "effect \<Rightarrow> search_ui \<Rightarrow> search_ui" where
  "apply_effect CloseResults u = CloseResultsWindow u"
| "apply_effect FocusField u = focus_field u"
| "apply_effect (FocusElement p) u = focus_frame_item p u"

definition frame_key :: "nav_result \<Rightarrow> search_ui \<Rightarrow> search_ui" where
  "frame_key r u =
     (case r of
        Ret (w, fx, _) \<Rightarrow> fold apply_effect fx (u\<lparr>frame_results := Some w\<rparr>)
      | _ \<Rightarrow> u)"

datatype ui_event =
    Edit jsstring
  | Field_key key_event
  | Focus_in
  | Focus_out
  | Select_show
  | Select_hide
  | Select_key key_event
  | Select_click nat
  | Close_click
  | Timer_fires nat
  | Frame_loads "results_page option"
  | Frame_nav key_event int
  | Frame_nav_child key_event int int

definition fire :: "search_env \<Rightarrow> layout \<Rightarrow> nat \<Rightarrow> search_ui \<Rightarrow> search_ui option" where
  "fire env lay h u =
     (case map_of (pending u) h of
        None \<Rightarrow> None
      | Some SearchTimer \<Rightarrow> Some (fst (SearchBox_Search env lay (clear_timeout h u)))
      | Some CloseSelectionTimer \<Rightarrow> Some (CloseSelectionWindow (clear_timeout h u)))"

definition ui_step :: "search_env \<Rightarrow> search_ui \<Rightarrow> layout \<times> ui_event \<Rightarrow> search_ui option" where
  "ui_step env u le =
     (case le of (lay, v) \<Rightarrow>
       (case v of
          Edit s \<Rightarrow> if focus u = Field then Some (u\<lparr>field_value := s\<rparr>) else None
        | Field_key e \<Rightarrow> if focus u = Field then Some (fst (OnSearchFieldChange lay e u)) else None
        | Focus_in \<Rightarrow> Some (focus_field u)
        | Focus_out \<Rightarrow> Some (blur_field u)
        | Select_show \<Rightarrow> Some (OnSearchSelectShow lay u)
        | Select_hide \<Rightarrow> Some (OnSearchSelectHide u)
        | Select_key e \<Rightarrow> Some (fst (OnSearchSelectKey env lay e u))
        | Select_click i \<Rightarrow> Some (fst (OnSelectItem env lay i u))
        | Close_click \<Rightarrow> Some (CloseResultsWindow u)
        | Timer_fires h \<Rightarrow> fire env lay h u
        | Frame_loads r \<Rightarrow> Some (u\<lparr>frame_results := r\<rparr>)
        | Frame_nav e i \<Rightarrow> map_option (\<lambda>w. frame_key (Nav e i w) u) (frame_results u)
        | Frame_nav_child e i c \<Rightarrow> map_option (\<lambda>w. frame_key (NavChild e i c w) u) (frame_results u)))"

definition ui_init :: "search_env \<Rightarrow> jsstring \<Rightarrow> jsstring \<Rightarrow> bool \<Rightarrow> jsstring \<Rightarrow> layout \<Rightarrow> search_ui" where
  "ui_init env n path inFrame lbl lay = fst (init_search env lay (SearchBox_new n path inFrame lbl))"

section \<open>What the operations leave alone\<close>

lemma activate_keeps [sys_simps]:
  "results_display (Activate b u) = results_display u" "close_display (Activate b u) = close_display u"
  "pending (Activate b u) = pending u" "next_timer (Activate b u) = next_timer u"
  "keyTimeout (Activate b u) = keyTimeout u" "hideTimeout (Activate b u) = hideTimeout u"
  "searchLabel (Activate b u) = searchLabel u" "focus (Activate b u) = focus u"
  by (simp_all add: Activate_def Let_def)

lemma focus_keeps [sys_simps]:
  "results_display (blur_field u) = results_display u" "close_display (blur_field u) = close_display u"
  "pending (blur_field u) = pending u" "next_timer (blur_field u) = next_timer u"
  "keyTimeout (blur_field u) = keyTimeout u" "searchLabel (blur_field u) = searchLabel u"
  "results_display (focus_field u) = results_display u" "close_display (focus_field u) = close_display u"
  "pending (focus_field u) = pending u" "next_timer (focus_field u) = next_timer u"
  "keyTimeout (focus_field u) = keyTimeout u"
  by (simp_all add: blur_field_def focus_field_def OnSearchFieldFocus_def sys_simps)

lemma focus_other_keeps [sys_simps]:
  "results_display (focus_other t u) = results_display u" "close_display (focus_other t u) = close_display u"
  "pending (focus_other t u) = pending u" "next_timer (focus_other t u) = next_timer u"
  "keyTimeout (focus_other t u) = keyTimeout u"
  "results_display (focus_frame_item p u) = results_display u" "close_display (focus_frame_item p u) = close_display u"
  "pending (focus_frame_item p u) = pending u" "next_timer (focus_frame_item p u) = next_timer u"
  "keyTimeout (focus_frame_item p u) = keyTimeout u"
  by (simp_all add: focus_other_def focus_frame_item_def sys_simps)

lemma timeout_keeps [sys_simps]:
  "results_display (set_timeout t u) = results_display u" "close_display (set_timeout t u) = close_display u"
  "results_display (clear_timeout h u) = results_display u" "close_display (clear_timeout h u) = close_display u"
  "results_display (stop_key_timer u) = results_display u" "close_display (stop_key_timer u) = close_display u"
  "next_timer (stop_key_timer u) = next_timer u" "next_timer (clear_timeout h u) = next_timer u"
  "keyTimeout (clear_timeout h u) = keyTimeout u" "keyTimeout (stop_key_timer u) = 0"
  "keyTimeout (set_timeout t u) = keyTimeout u" "next_timer (set_timeout t u) = next_timer u + 1"
  "pending (set_timeout t u) = pending u @ [(next_timer u, t)]"
  "pending (clear_timeout h u) = filter (\<lambda>(k, t). k \<noteq> h) (pending u)"
  by (simp_all add: set_timeout_def clear_timeout_def stop_key_timer_def)

lemma select_keeps [sys_simps]:
  "results_display (SelectItemSet i u) = results_display u" "close_display (SelectItemSet i u) = close_display u"
  "pending (SelectItemSet i u) = pending u" "next_timer (SelectItemSet i u) = next_timer u"
  "keyTimeout (SelectItemSet i u) = keyTimeout u" "field_value (SelectItemSet i u) = field_value u"
  "searchActive (SelectItemSet i u) = searchActive u" "searchIndex (SelectItemSet i u) = searchIndex u"
  "results_display (CloseSelectionWindow u) = results_display u" "close_display (CloseSelectionWindow u) = close_display u"
  "pending (CloseSelectionWindow u) = pending u" "next_timer (CloseSelectionWindow u) = next_timer u"
  "keyTimeout (CloseSelectionWindow u) = keyTimeout u"
  "results_display (OnSearchSelectShow lay u) = results_display u" "close_display (OnSearchSelectShow lay u) = close_display u"
  "next_timer (OnSearchSelectShow lay u) = next_timer u" "keyTimeout (OnSearchSelectShow lay u) = keyTimeout u"
  "results_display (OnSearchSelectHide u) = results_display u" "close_display (OnSearchSelectHide u) = close_display u"
  "keyTimeout (OnSearchSelectHide u) = keyTimeout u" "next_timer (OnSearchSelectHide u) = next_timer u + 1"
  "pending (OnSearchSelectHide u) = pending u @ [(next_timer u, CloseSelectionTimer)]"
  by (simp_all add: SelectItemSet_def CloseSelectionWindow_def OnSearchSelectShow_def OnSearchSelectHide_def
      Let_def sys_simps)

lemma show_results_keeps [sys_simps]:
  "pending (show_results lay u) = pending u" "next_timer (show_results lay u) = next_timer u"
  "keyTimeout (show_results lay u) = keyTimeout u" "frame_location (show_results lay u) = frame_location u"
  "results_display (show_results lay u) = js ''block''"
  by (simp_all add: show_results_def Let_def)

section \<open>The close button\<close>

definition popup_inv :: "search_ui \<Rightarrow> bool" where
  "popup_inv u \<longleftrightarrow> (results_display u = js ''block'' \<longleftrightarrow> close_display u = js ''inline'')"

lemma popup_inv_simple:
  "popup_inv (focus_field u) = popup_inv u" "popup_inv (blur_field u) = popup_inv u"
  "popup_inv (OnSearchSelectShow lay u) = popup_inv u" "popup_inv (OnSearchSelectHide u) = popup_inv u"
  "popup_inv (CloseSelectionWindow u) = popup_inv u" "popup_inv (clear_timeout h u) = popup_inv u"
  "popup_inv (u\<lparr>field_value := s\<rparr>) = popup_inv u" "popup_inv (u\<lparr>frame_results := r\<rparr>) = popup_inv u"
  "popup_inv (u\<lparr>searchIndex := i\<rparr>) = popup_inv u" "popup_inv (SelectItemSet i u) = popup_inv u"
  "popup_inv (focus_frame_item p u) = popup_inv u" "popup_inv (stop_key_timer u) = popup_inv u"
  by (simp_all add: popup_inv_def sys_simps)

lemma popup_show_results: "popup_inv u \<Longrightarrow> popup_inv (show_results lay u)"
  by (auto simp: popup_inv_def show_results_def Let_def)

lemma popup_Search: "popup_inv u \<Longrightarrow> popup_inv (fst (SearchBox_Search env lay u))"
proof -
  assume u: "popup_inv u"
  have "popup_inv (show_results lay (u\<lparr>keyTimeout := 0, frame_location := l\<rparr>))" for l
    using u by (intro popup_show_results) (simp add: popup_inv_def)
  then show ?thesis using u
    by (auto simp: SearchBox_Search_def Let_def popup_inv_def split: option.splits)
qed

lemma popup_OnSelectItem: "popup_inv u \<Longrightarrow> popup_inv (fst (OnSelectItem env lay i u))"
proof -
  assume u: "popup_inv u"
  have "popup_inv (SelectItemSet i (u\<lparr>searchIndex := i\<rparr>))" using u by (simp add: popup_inv_simple)
  then show ?thesis using popup_Search by (simp add: OnSelectItem_def Let_def)
qed

lemma popup_OnSearchSelectKey: "popup_inv u \<Longrightarrow> popup_inv (fst (OnSearchSelectKey env lay e u))"
proof -
  assume u: "popup_inv u"
  then have "popup_inv (fst (OnSelectItem env lay i (u\<lparr>searchIndex := j\<rparr>)))" for i j
    by (intro popup_OnSelectItem) (simp add: popup_inv_def)
  moreover obtain v ok where v: "OnSelectItem env lay (searchIndex u) u = (v, ok)" by fastforce
  moreover have "popup_inv v" using popup_OnSelectItem [OF u, of env lay "searchIndex u"] v by simp
  ultimately show ?thesis using u
    by (auto simp: OnSearchSelectKey_def popup_inv_simple)
qed

lemma popup_value_changed: "popup_inv u \<Longrightarrow> popup_inv (value_changed u)"
  by (simp add: popup_inv_def value_changed_def Let_def sys_simps)

lemma popup_hidden:
  "popup_inv (Activate b (u\<lparr>results_display := js ''none'', close_display := js ''none''\<rparr>))"
  "popup_inv (Activate b (u\<lparr>results_display := js ''none'', close_display := js ''none'', lastSearchValue := s\<rparr>))"
  by (simp_all add: popup_inv_def sys_simps)

lemma popup_OnSearchFieldChange: "popup_inv u \<Longrightarrow> popup_inv (fst (OnSearchFieldChange lay e u))"
proof -
  assume "popup_inv u"
  then have u: "popup_inv (stop_key_timer u)" by (simp add: popup_inv_def sys_simps)
  then have "popup_inv (focus_frame_item p (stop_key_timer u))" for p by (simp add: popup_inv_def sys_simps)
  moreover have "popup_inv (show_and_focus lay (stop_key_timer u))"
    using u by (simp add: popup_inv_def show_and_focus_def Let_def sys_simps split: option.splits)
  ultimately show ?thesis using u
    by (auto simp: OnSearchFieldChange_def Let_def popup_value_changed popup_hidden split: option.splits res.splits)
qed

lemma popup_effects: "popup_inv u \<Longrightarrow> popup_inv (fold apply_effect fx u)"
proof (induction fx arbitrary: u)
  case Nil
  then show ?case by simp
next
  case (Cons f fx)
  have "popup_inv (apply_effect f u)"
    using Cons.prems by (cases f) (simp_all add: CloseResultsWindow_def popup_hidden popup_inv_def sys_simps)
  then show ?case using Cons.IH by simp
qed

lemma popup_frame_key: "popup_inv u \<Longrightarrow> popup_inv (frame_key r u)"
proof -
  assume "popup_inv u"
  then have "popup_inv (u\<lparr>frame_results := Some w\<rparr>)" for w by (simp add: popup_inv_def)
  then show ?thesis using \<open>popup_inv u\<close> by (auto simp: frame_key_def popup_effects split: res.splits)
qed

lemma popup_fire: "popup_inv u \<Longrightarrow> fire env lay h u = Some v \<Longrightarrow> popup_inv v"
proof -
  assume u: "popup_inv u" and "fire env lay h u = Some v"
  moreover have "popup_inv (clear_timeout h u)" using u by (simp add: popup_inv_simple)
  ultimately show ?thesis
    by (auto simp: fire_def popup_inv_simple intro: popup_Search split: option.splits timer.splits)
qed

lemma popup_step: "popup_inv u \<Longrightarrow> ui_step env u le = Some v \<Longrightarrow> popup_inv v"
proof -
  assume u: "popup_inv u" and s: "ui_step env u le = Some v"
  obtain lay e where le: "le = (lay, e)" by fastforce
  show ?thesis
  proof (cases e)
    case (Timer_fires h)
    then show ?thesis using popup_fire [OF u] s le by (simp add: ui_step_def)
  qed (use u s le in \<open>auto simp: ui_step_def popup_OnSelectItem popup_OnSearchSelectKey popup_OnSearchFieldChange
       popup_frame_key CloseResultsWindow_def popup_hidden popup_inv_simple split: if_splits\<close>)
qed

section \<open>The timers\<close>

definition timer_inv :: "search_ui \<Rightarrow> bool" where
  "timer_inv u \<longleftrightarrow>
     distinct (map fst (pending u)) \<and> (\<forall>(h, t) \<in> set (pending u). 0 < h \<and> h < next_timer u) \<and>
     0 < next_timer u \<and> keyTimeout u < next_timer u"

definition single_inv :: "search_ui \<Rightarrow> bool" where
  "single_inv u \<longleftrightarrow> timer_inv u \<and> (\<forall>h. (h, SearchTimer) \<in> set (pending u) \<longrightarrow> h = keyTimeout u)"

lemma timer_inv_cong:
  assumes "pending v = pending u" and "next_timer v = next_timer u" and "keyTimeout v = keyTimeout u"
  shows "timer_inv v = timer_inv u" "single_inv v = single_inv u"
  using assms by (simp_all add: timer_inv_def single_inv_def)

lemma timer_inv_simple:
  "single_inv (focus_field u) = single_inv u"
  "timer_inv (focus_field u) = timer_inv u"
  "single_inv (blur_field u) = single_inv u"
  "timer_inv (blur_field u) = timer_inv u"
  "single_inv (CloseSelectionWindow u) = single_inv u"
  "timer_inv (CloseSelectionWindow u) = timer_inv u"
  "single_inv (Activate b u) = single_inv u"
  "timer_inv (Activate b u) = timer_inv u"
  "single_inv (u\<lparr>field_value := s\<rparr>) = single_inv u"
  "timer_inv (u\<lparr>field_value := s\<rparr>) = timer_inv u"
  "single_inv (u\<lparr>frame_results := r\<rparr>) = single_inv u"
  "timer_inv (u\<lparr>frame_results := r\<rparr>) = timer_inv u"
  "single_inv (focus_frame_item p u) = single_inv u"
  "timer_inv (focus_frame_item p u) = timer_inv u"
  "single_inv (focus_other f u) = single_inv u"
  "timer_inv (focus_other f u) = timer_inv u"
  "single_inv (u\<lparr>results_display := c, close_display := d\<rparr>) = single_inv u"
  "timer_inv (u\<lparr>results_display := c, close_display := d\<rparr>) = timer_inv u"
  "single_inv (u\<lparr>results_display := c, close_display := d, lastSearchValue := s\<rparr>) = single_inv u"
  "timer_inv (u\<lparr>results_display := c, close_display := d, lastSearchValue := s\<rparr>) = timer_inv u"
  "single_inv (SelectItemSet i u) = single_inv u"
  "timer_inv (SelectItemSet i u) = timer_inv u"
  "single_inv (u\<lparr>searchIndex := i\<rparr>) = single_inv u"
  "timer_inv (u\<lparr>searchIndex := i\<rparr>) = timer_inv u"
  by (rule timer_inv_cong; simp add: sys_simps)+

lemma distinct_fst_filter: "distinct (map fst ps) \<Longrightarrow> distinct (map fst (filter P ps))"
  by (induction ps) auto

lemma single_clear: "single_inv u \<Longrightarrow> single_inv (clear_timeout h u)"
  by (auto simp: single_inv_def timer_inv_def sys_simps distinct_fst_filter)

lemma single_stop:
  "single_inv u \<Longrightarrow> single_inv (stop_key_timer u)"
  "single_inv u \<Longrightarrow> (h, SearchTimer) \<notin> set (pending (stop_key_timer u))"
  by (auto simp: single_inv_def timer_inv_def stop_key_timer_def clear_timeout_def distinct_fst_filter)
    fastforce

lemma single_set_search:
  assumes "single_inv u" and "\<And>h. (h, SearchTimer) \<notin> set (pending u)"
  shows "single_inv ((set_timeout SearchTimer u)\<lparr>keyTimeout := next_timer u\<rparr>)"
  using assms by (fastforce simp: single_inv_def timer_inv_def sys_simps)

lemma single_value_changed:
  assumes "single_inv u" and "\<And>h. (h, SearchTimer) \<notin> set (pending u)"
  shows "single_inv (value_changed u)"
  using single_set_search [OF assms] assms(1)
  by (simp add: value_changed_def Let_def timer_inv_simple)

lemma single_show: "single_inv u \<Longrightarrow> single_inv (OnSearchSelectShow lay u)"
  by (auto simp: single_inv_def timer_inv_def OnSearchSelectShow_def Let_def sys_simps distinct_fst_filter)

lemma single_hide: "single_inv u \<Longrightarrow> single_inv (OnSearchSelectHide u)"
  by (fastforce simp: single_inv_def timer_inv_def sys_simps)

lemma single_OnSearchFieldChange: "single_inv u \<Longrightarrow> single_inv (fst (OnSearchFieldChange lay e u))"
proof -
  assume "single_inv u"
  note st = single_stop [OF this]
  have "single_inv (value_changed (stop_key_timer u))" by (rule single_value_changed [OF st])
  moreover have "single_inv (value_changed (focus_frame_item p (stop_key_timer u)))" for p
    using st by (intro single_value_changed) (simp_all add: timer_inv_simple sys_simps)
  moreover have "single_inv (show_and_focus lay (stop_key_timer u))"
    using single_show [OF st(1)]
    by (simp add: show_and_focus_def Let_def timer_inv_simple split: option.splits)
  ultimately show ?thesis using st(1)
    by (auto simp: OnSearchFieldChange_def Let_def timer_inv_simple split: option.splits res.splits)
qed

lemma single_effects: "single_inv u \<Longrightarrow> single_inv (fold apply_effect fx u)"
proof (induction fx arbitrary: u)
  case Nil
  then show ?case by simp
next
  case (Cons f fx)
  have "single_inv (apply_effect f u)"
    using Cons.prems by (cases f) (simp_all add: CloseResultsWindow_def timer_inv_simple)
  then show ?case using Cons.IH by simp
qed

lemma single_frame_key: "single_inv u \<Longrightarrow> single_inv (frame_key r u)"
  by (auto simp: frame_key_def timer_inv_simple intro!: single_effects split: res.splits)

lemma search_keeps_pending:
  "pending (fst (SearchBox_Search env lay u)) = pending u"
  "next_timer (fst (SearchBox_Search env lay u)) = next_timer u"
  "keyTimeout (fst (SearchBox_Search env lay u)) = 0"
  by (simp_all add: SearchBox_Search_def Let_def sys_simps split: option.splits)

lemma single_Search:
  assumes "single_inv u" and "(h, SearchTimer) \<in> set (pending u)"
  shows "single_inv (fst (SearchBox_Search env lay (clear_timeout h u)))"
  using assms by (auto simp: single_inv_def timer_inv_def search_keeps_pending sys_simps distinct_fst_filter)

lemma single_fire: "single_inv u \<Longrightarrow> fire env lay h u = Some v \<Longrightarrow> single_inv v"
  using single_Search [of u h env lay] single_clear [of u h]
  by (auto simp: fire_def timer_inv_simple dest!: map_of_SomeD split: option.splits timer.splits)

text \<open>The events other than the choice of a filter.\<close>

fun no_filter_event :: "layout \<times> ui_event \<Rightarrow> bool" where
  "no_filter_event (lay, Select_key e) = False"
| "no_filter_event (lay, Select_click i) = False"
| "no_filter_event (lay, v) = True"

definition typing_step :: "search_env \<Rightarrow> search_ui \<Rightarrow> layout \<times> ui_event \<Rightarrow> search_ui option" where
  "typing_step env u le = (if no_filter_event le then ui_step env u le else None)"

lemma single_step: "single_inv u \<Longrightarrow> typing_step env u le = Some v \<Longrightarrow> single_inv v"
proof -
  assume u: "single_inv u" and s: "typing_step env u le = Some v"
  obtain lay e where le: "le = (lay, e)" by fastforce
  show ?thesis
  proof (cases e)
    case (Timer_fires h)
    then show ?thesis using single_fire [OF u] s le by (simp add: typing_step_def ui_step_def)
  qed (use u s le in \<open>auto simp: typing_step_def ui_step_def single_OnSearchFieldChange single_show single_hide
       single_frame_key CloseResultsWindow_def timer_inv_simple split: if_splits\<close>)
qed

text \<open>Every event keeps the handles of the timers apart.\<close>

lemma timer_pending_sub:
  assumes "timer_inv u" and "next_timer v = next_timer u" and "keyTimeout v \<in> {0, keyTimeout u}"
    and "pending v = filter P (pending u)"
  shows "timer_inv v"
  using assms by (auto simp: timer_inv_def distinct_fst_filter)

lemma timer_clear: "timer_inv u \<Longrightarrow> timer_inv (clear_timeout h u)"
  by (erule timer_pending_sub) (auto simp: sys_simps)

lemma timer_stop: "timer_inv u \<Longrightarrow> timer_inv (stop_key_timer u)"
  by (auto simp: timer_inv_def stop_key_timer_def clear_timeout_def distinct_fst_filter)

lemma timer_Search: "timer_inv u \<Longrightarrow> timer_inv (fst (SearchBox_Search env lay u))"
  by (simp add: timer_inv_def search_keeps_pending)

lemma timer_OnSelectItem: "timer_inv u \<Longrightarrow> timer_inv (fst (OnSelectItem env lay i u))"
  by (auto simp: OnSelectItem_def Let_def timer_inv_simple intro!: timer_Search)

lemma timer_OnSearchSelectKey: "timer_inv u \<Longrightarrow> timer_inv (fst (OnSearchSelectKey env lay e u))"
proof -
  assume u: "timer_inv u"
  then have "timer_inv (fst (OnSelectItem env lay i (u\<lparr>searchIndex := j\<rparr>)))" for i j
    by (intro timer_OnSelectItem) (simp add: timer_inv_simple)
  moreover obtain v ok where v: "OnSelectItem env lay (searchIndex u) u = (v, ok)" by fastforce
  moreover have "timer_inv v" using timer_OnSelectItem [OF u, of env lay "searchIndex u"] v by simp
  ultimately show ?thesis using u by (auto simp: OnSearchSelectKey_def timer_inv_simple)
qed

lemma timer_value_changed: "timer_inv u \<Longrightarrow> timer_inv (value_changed u)"
  by (fastforce simp: value_changed_def Let_def timer_inv_def sys_simps)

lemma timer_show: "timer_inv u \<Longrightarrow> timer_inv (OnSearchSelectShow lay u)"
  by (auto simp: timer_inv_def OnSearchSelectShow_def Let_def sys_simps distinct_fst_filter)

lemma timer_hide: "timer_inv u \<Longrightarrow> timer_inv (OnSearchSelectHide u)"
  by (fastforce simp: timer_inv_def sys_simps)

lemma timer_OnSearchFieldChange: "timer_inv u \<Longrightarrow> timer_inv (fst (OnSearchFieldChange lay e u))"
proof -
  assume "timer_inv u"
  then have st: "timer_inv (stop_key_timer u)" by (rule timer_stop)
  then have "timer_inv (value_changed (focus_frame_item p (stop_key_timer u)))" for p
    by (intro timer_value_changed) (simp add: timer_inv_simple)
  moreover have "timer_inv (show_and_focus lay (stop_key_timer u))"
    using timer_show [OF st]
    by (simp add: show_and_focus_def Let_def timer_inv_simple split: option.splits)
  ultimately show ?thesis using st timer_value_changed [OF st]
    by (auto simp: OnSearchFieldChange_def Let_def timer_inv_simple split: option.splits res.splits)
qed

lemma timer_effects: "timer_inv u \<Longrightarrow> timer_inv (fold apply_effect fx u)"
proof (induction fx arbitrary: u)
  case Nil
  then show ?case by simp
next
  case (Cons f fx)
  have "timer_inv (apply_effect f u)"
    using Cons.prems by (cases f) (simp_all add: CloseResultsWindow_def timer_inv_simple)
  then show ?case using Cons.IH by simp
qed

lemma timer_frame_key: "timer_inv u \<Longrightarrow> timer_inv (frame_key r u)"
  by (auto simp: frame_key_def timer_inv_simple intro!: timer_effects split: res.splits)

lemma timer_fire: "timer_inv u \<Longrightarrow> fire env lay h u = Some v \<Longrightarrow> timer_inv v"
  using timer_clear [of u h]
  by (auto simp: fire_def timer_inv_simple intro!: timer_Search split: option.splits timer.splits)

lemma timer_step: "timer_inv u \<Longrightarrow> ui_step env u le = Some v \<Longrightarrow> timer_inv v"
proof -
  assume u: "timer_inv u" and s: "ui_step env u le = Some v"
  obtain lay e where le: "le = (lay, e)" by fastforce
  show ?thesis
  proof (cases e)
    case (Timer_fires h)
    then show ?thesis using timer_fire [OF u] s le by (simp add: ui_step_def)
  qed (use u s le in \<open>auto simp: ui_step_def timer_OnSearchFieldChange timer_show timer_hide timer_OnSelectItem
       timer_OnSearchSelectKey timer_frame_key CloseResultsWindow_def timer_inv_simple split: if_splits\<close>)
qed

section \<open>The initial state\<close>

lemma SearchBox_new_inv:
  "popup_inv (SearchBox_new n path inFrame lbl)" "single_inv (SearchBox_new n path inFrame lbl)"
  by (simp_all add: popup_inv_def single_inv_def timer_inv_def SearchBox_new_def)

lemma ui_init_eq:
  "ui_init env n path inFrame lbl lay =
     SelectItemSet 0 ((SearchBox_new n path inFrame lbl)
       \<lparr>select_children := append_items 0 (indexSectionLabels env) (select_children (SearchBox_new n path inFrame lbl)),
        searchIndex := 0\<rparr>)"
  by (simp add: ui_init_def init_search_def OnSelectItem_def SelectItemSet_def Let_def SearchBox_new_def)

lemma ui_init_inv:
  "popup_inv (ui_init env n path inFrame lbl lay)" "single_inv (ui_init env n path inFrame lbl lay)"
  by (simp_all add: ui_init_eq SelectItemSet_def popup_inv_def single_inv_def timer_inv_def SearchBox_new_def)

interpretation panel: inductive_invariant
  "ui_step env" "ui_init env n path inFrame lbl lay" "\<lambda>u. popup_inv u \<and> timer_inv u"
  for env n path inFrame lbl lay
proof
  show "popup_inv (ui_init env n path inFrame lbl lay) \<and> timer_inv (ui_init env n path inFrame lbl lay)"
    using ui_init_inv [of env n path inFrame lbl lay] by (simp add: single_inv_def)
  show "popup_inv v \<and> timer_inv v" if "popup_inv u \<and> timer_inv u" "ui_step env u le = Some v" for u le v
    using that popup_step timer_step by blast
qed

interpretation typing: inductive_invariant
  "typing_step env" "ui_init env n path inFrame lbl lay" single_inv
  for env n path inFrame lbl lay
  by unfold_locales (auto intro: ui_init_inv single_step)

section \<open>Properties\<close>

text \<open>
  A page's panel as \<open>docs/html/index.html\<close> creates it, for the witnesses.
\<close>

definition plain_layout :: layout where
  "plain_layout =
     \<lparr>select_box = [\<lparr>offsetLeft = 4, offsetTop = 2, offsetWidth = 20, offsetHeight = 19, is_body = False\<rparr>],
      select_window_width = 90,
      search_box_item = [\<lparr>offsetLeft = 900, offsetTop = 60, offsetWidth = 150, offsetHeight = 19, is_body = False\<rparr>],
      results_frame_width = 300, body_width = 1200\<rparr>"

definition fiberio_ui :: search_ui where
  "fiberio_ui = ui_init (fiberio_env (map ascii_lower) (\<lambda>s. True)) (js ''searchBox'') (js ''search'') False (js ''Search'') plain_layout"

definition plain_key :: key_event where
  "plain_key = \<lparr>etype = Keyup, keyCode = 65, shiftKey = False\<rparr>"

definition fiberio_step :: "search_ui \<Rightarrow> layout \<times> ui_event \<Rightarrow> search_ui option" where
  "fiberio_step = ui_step (fiberio_env (map ascii_lower) (\<lambda>s. True))"

lemma fiberio_ui_fields:
  "focus fiberio_ui = NoFocus" "pending fiberio_ui = []" "keyTimeout fiberio_ui = 0" "searchIndex fiberio_ui = 0"
  "field_value fiberio_ui = js ''Search''" "searchLabel fiberio_ui = js ''Search''" "next_timer fiberio_ui = 1"
  "lastSearchValue fiberio_ui = []" "resultsPath fiberio_ui = js ''search''" "results_display fiberio_ui = []"
  by (simp_all add: fiberio_ui_def ui_init_eq SelectItemSet_def SearchBox_new_def)

text \<open>The first text typed into a fresh panel starts the first timer.\<close>

definition type_text :: "jsstring \<Rightarrow> (layout \<times> ui_event) list" where
  "type_text s = [(plain_layout, Focus_in), (plain_layout, Edit s), (plain_layout, Field_key plain_key)]"

lemma type_text_run:
  assumes "remove_spaces s \<noteq> []"
  obtains u where "run fiberio_step fiberio_ui (type_text s) = Some u" "pending u = [(1, SearchTimer)]"
    "keyTimeout u = 1" "searchIndex u = 0" "field_value u = s" "searchActive u" "focus u = Field"
    "next_timer u = 2" "lastSearchValue u = []" "resultsPath u = js ''search''"
proof -
  let ?u = "(set_timeout SearchTimer ((focus_field fiberio_ui)\<lparr>field_value := s\<rparr>))\<lparr>keyTimeout := 1\<rparr>"
  have "run fiberio_step fiberio_ui (type_text s) = Some ?u"
    using assms
    by (simp add: type_text_def fiberio_step_def ui_step_def focus_field_def OnSearchFieldFocus_def Activate_def
        fiberio_ui_fields OnSearchFieldChange_def plain_key_def stop_key_timer_def value_changed_def Let_def)
  then show thesis
    by (rule that) (simp_all add: set_timeout_def focus_field_def OnSearchFieldFocus_def Activate_def fiberio_ui_fields Let_def)
qed

lemma typing_run: "list_all no_filter_event es \<Longrightarrow> run (typing_step env) u es = run (ui_step env) u es"
  by (induction es arbitrary: u) (simp_all add: typing_step_def split: option.splits)

lemma results_pages_some:
  "i < length (indexSectionsWithContent env) \<Longrightarrow> \<exists>page loc. results_pages env path i v = Some (page, loc)"
  by (simp add: results_pages_def Let_def)

lemma Search_effect:
  assumes "results_pages env (resultsPath u) (searchIndex u) (strip_leading (field_value u)) = Some (page, loc)"
  shows "snd (SearchBox_Search env lay u)" "frame_location (fst (SearchBox_Search env lay u)) = loc"
    "results_display (fst (SearchBox_Search env lay u)) = js ''block''"
    "lastSearchValue (fst (SearchBox_Search env lay u)) = strip_leading (field_value u)"
    "lastResultsPage (fst (SearchBox_Search env lay u)) = page"
  using assms by (simp_all add: SearchBox_Search_def Let_def sys_simps)

text \<open>
  C22. The close button goes with the results: in every state that events can bring the panel to (typing, special keys,
  focus changes, filter choices, timers, the close button itself and the keys of the results page),
  the button is displayed exactly while the results window is.
\<close>

theorem close_button_with_results:
  assumes "reachable (ui_step env) (ui_init env n path inFrame lbl lay) u"
  shows "results_display u = js ''block'' \<longleftrightarrow> close_display u = js ''inline''"
  using panel.reachable_inv [OF assms] by (simp add: popup_inv_def)

theorem close_button_with_results_witness:
  "\<exists>u. run fiberio_step fiberio_ui (type_text (js ''ac'') @ [(plain_layout, Timer_fires 1)]) = Some u \<and>
     results_display u = js ''block'' \<and> close_display u = js ''inline''"
proof -
  let ?env = "fiberio_env (map ascii_lower) (\<lambda>s. True)"
  obtain u where u: "run fiberio_step fiberio_ui (type_text (js ''ac'')) = Some u"
    "pending u = [(1, SearchTimer)]" "searchIndex u = 0"
    using type_text_run [of "js ''ac''"] by (auto simp: remove_spaces_def js_def)
  define v where "v = fst (SearchBox_Search ?env plain_layout (clear_timeout 1 u))"
  have r: "run fiberio_step fiberio_ui (type_text (js ''ac'') @ [(plain_layout, Timer_fires 1)]) = Some v"
    using u by (simp add: run_append fiberio_step_def ui_step_def fire_def v_def)
  have "0 < length (indexSectionsWithContent ?env)" by (simp add: fiberio_env_def)
  then have "results_display v = js ''block''"
    using results_pages_some Search_effect(3) u(3) unfolding v_def
    by (metis (no_types, lifting) clear_timeout_def search_ui.select_convs(9) search_ui.surjective search_ui.update_convs(27))
  with r show ?thesis
    using close_button_with_results [OF run_reachable [OF r [unfolded fiberio_step_def fiberio_ui_def]]] by simp
qed

text \<open>
  C20. Searches are debounced: as long as no filter is chosen, whatever the user types and presses and whichever
  timers fire, at most one search is pending, and it is the one whose timer \<open>keyTimeout\<close> names, so that
  the next key event cancels it.
\<close>

theorem one_pending_search:
  assumes "reachable (typing_step env) (ui_init env n path inFrame lbl lay) u"
  shows "length (filter (\<lambda>(h, t). t = SearchTimer) (pending u)) \<le> 1 \<and>
    (\<forall>h. (h, SearchTimer) \<in> set (pending u) \<longrightarrow> h = keyTimeout u) \<and>
    (\<forall>h. (h, SearchTimer) \<notin> set (pending (stop_key_timer u)))"
proof -
  have s: "single_inv u" by (rule typing.reachable_inv [OF assms])
  let ?f = "filter (\<lambda>(h, t). t = SearchTimer) (pending u)"
  have "set ?f \<subseteq> {(keyTimeout u, SearchTimer)}" using s by (auto simp: single_inv_def)
  then have "card (set ?f) \<le> 1" using card_mono [of "{(keyTimeout u, SearchTimer)}" "set ?f"] by simp
  moreover have "distinct ?f" using s by (simp add: single_inv_def timer_inv_def distinct_map)
  ultimately have "length ?f \<le> 1" by (metis distinct_card)
  then show ?thesis using s single_stop(2) [OF s] by (auto simp: single_inv_def)
qed

theorem one_pending_search_witness:
  "\<exists>u. run (typing_step (fiberio_env (map ascii_lower) (\<lambda>s. True))) fiberio_ui
       (type_text (js ''ac'')) = Some u \<and>
     (1, SearchTimer) \<in> set (pending u) \<and> (\<forall>h. (h, SearchTimer) \<notin> set (pending (stop_key_timer u)))"
proof -
  let ?env = "fiberio_env (map ascii_lower) (\<lambda>s. True)"
  obtain u where u: "run fiberio_step fiberio_ui (type_text (js ''ac'')) = Some u" "pending u = [(1, SearchTimer)]"
    using type_text_run [of "js ''ac''"] by (auto simp: remove_spaces_def js_def)
  have r: "run (typing_step ?env) fiberio_ui (type_text (js ''ac'')) = Some u"
    using u(1) typing_run [of "type_text (js ''ac'')" ?env fiberio_ui]
    by (simp add: type_text_def fiberio_step_def)
  show ?thesis
    using one_pending_search [OF run_reachable [OF r [unfolded fiberio_ui_def]]] r u(2) by simp
qed

text \<open>
  C21. A text that is typed is searched for: in every reachable state in which the chosen section exists (so that there is a results page for the text), an
  event of a key other than Enter, Escape and Down (codes 13, 27 and 40, which move the focus or close the results) that leaves a
  new, not blank text in the field starts a timer, and when it fires the results frame is sent to
  the page of the current section for that text, the results window and its close button are displayed and the
  text is remembered.
\<close>

theorem typed_text_is_searched:
  assumes "reachable (ui_step env) (ui_init env n path inFrame lbl lay) u"
    and "keyCode e \<notin> {13, 27, 40}" and "remove_spaces (field_value u) \<noteq> []"
    and "remove_spaces (field_value u) \<noteq> lastSearchValue u"
    and "results_pages env (resultsPath u) (searchIndex u) (strip_leading (field_value u)) = Some (page, loc)"
  shows "\<exists>u' v. OnSearchFieldChange lay1 e u = (u', True) \<and> keyTimeout u' \<noteq> 0 \<and>
    fire env lay2 (keyTimeout u') u' = Some v \<and> frame_location v = loc \<and>
    results_display v = js ''block'' \<and> close_display v = js ''inline'' \<and>
    lastSearchValue v = strip_leading (field_value u) \<and> lastResultsPage v = page"
proof -
  have inv: "popup_inv u" "timer_inv u" using panel.reachable_inv [OF assms(1)] by simp_all
  let ?s = "stop_key_timer u"
  let ?u' = "(set_timeout SearchTimer ?s)\<lparr>keyTimeout := next_timer ?s\<rparr>"
  have keep: "field_value ?s = field_value u" "lastSearchValue ?s = lastSearchValue u"
      "resultsPath ?s = resultsPath u" "searchIndex ?s = searchIndex u"
    by (simp_all add: stop_key_timer_def clear_timeout_def)
  then have change: "OnSearchFieldChange lay1 e u = (?u', True)"
    using assms(2-4) by (simp add: OnSearchFieldChange_def value_changed_def Let_def)
  have ts: "timer_inv ?s" using inv(2) by (rule timer_stop)
  then have "map_of (pending ?s) (next_timer ?s) = None"
    by (auto simp: timer_inv_def map_of_eq_None_iff)
  then have "map_of (pending ?u') (keyTimeout ?u') = Some SearchTimer"
    by (simp add: sys_simps map_add_def)
  then have fired: "fire env lay2 (keyTimeout ?u') ?u' =
      Some (fst (SearchBox_Search env lay2 (clear_timeout (keyTimeout ?u') ?u')))"
    by (simp add: fire_def)
  have "results_pages env (resultsPath (clear_timeout (keyTimeout ?u') ?u'))
      (searchIndex (clear_timeout (keyTimeout ?u') ?u'))
      (strip_leading (field_value (clear_timeout (keyTimeout ?u') ?u'))) = Some (page, loc)"
    using assms(5) keep by (simp add: clear_timeout_def set_timeout_def)
  note effect = Search_effect [OF this, of lay2]
  have "popup_inv (clear_timeout (keyTimeout ?u') ?u')"
    using inv(1) by (simp add: popup_inv_def sys_simps)
  from popup_Search [OF this, of env lay2] effect(3)
  have "close_display (fst (SearchBox_Search env lay2 (clear_timeout (keyTimeout ?u') ?u'))) = js ''inline''"
    by (simp add: popup_inv_def)
  moreover have "keyTimeout ?u' \<noteq> 0" using ts by (simp add: timer_inv_def)
  moreover have "field_value (clear_timeout (keyTimeout ?u') ?u') = field_value u"
    using keep by (simp add: clear_timeout_def set_timeout_def)
  ultimately show ?thesis using change fired effect by metis
qed

theorem typed_text_is_searched_witness:
  "\<exists>u u' v. run fiberio_step fiberio_ui (type_text (js ''ac'')) = Some u \<and>
     OnSearchFieldChange plain_layout plain_key u = (u', True) \<and>
     fire (fiberio_env (map ascii_lower) (\<lambda>s. True)) plain_layout (keyTimeout u') u' = Some v \<and>
     frame_location v = js ''search/all_0.html?ac''"
proof -
  let ?env = "fiberio_env (map ascii_lower) (\<lambda>s. True)"
  obtain u where u: "run fiberio_step fiberio_ui (type_text (js ''ac'')) = Some u"
    "searchIndex u = 0" "field_value u = js ''ac''" "lastSearchValue u = []" "resultsPath u = js ''search''"
    using type_text_run [of "js ''ac''"] by (auto simp: remove_spaces_def js_def)
  have v: "remove_spaces (field_value u) \<noteq> []" "remove_spaces (field_value u) \<noteq> lastSearchValue u"
    "strip_leading (field_value u) = js ''ac''"
    using u(3,4) by (simp_all add: remove_spaces_def strip_leading_def js_def)
  have i: "index_char ?env (js ''ac'') = js ''a''" "index_of (js ''abcdefgilorsuw~'') (js ''a'') = 0"
    by (simp_all add: index_char_def fiberio_env_def js_def ascii_lower_def index_of_def)
  have e: "escape (js ''ac'') = js ''ac''" "to_string16 0 = js ''0''"
    by (simp_all add: escape_def escape_char_def escape_safe_def js_def to_string16.simps hex_digit_def)
  have sec: "section_name ?env 0 = js ''all''" "indexSectionsWithContent ?env ! 0 = js ''abcdefgilorsuw~''"
    "indexSectionsWithContent ?env \<noteq> []"
    by (simp_all add: section_name_def fiberio_env_def)
  have "results_pages ?env (resultsPath u) (searchIndex u) (strip_leading (field_value u)) =
      Some (js ''search/all_0.html'', js ''search/all_0.html?ac'')"
    unfolding v(3) u(2,5) results_pages_def using i e sec by (simp add: Let_def) (simp add: js_def)
  moreover have "keyCode plain_key \<notin> {13, 27, 40}" by (simp add: plain_key_def)
  ultimately show ?thesis
    using typed_text_is_searched [OF run_reachable [OF u(1) [unfolded fiberio_step_def fiberio_ui_def]] _ v(1,2)] u(1)
    by metis
qed

definition panel_reset :: "search_ui \<Rightarrow> bool" where
  "panel_reset u \<longleftrightarrow>
     results_display u = js ''none'' \<and> close_display u = js ''none'' \<and> field_value u = searchLabel u \<and>
     box_class u = js ''MSearchBoxInactive'' \<and> \<not> searchActive u \<and> lastSearchValue u = [] \<and> lastResultsPage u = []"

text \<open>
  Leaving the panel resets it: the close button, and Escape in the field, hide the results and
  the button, take the text, the remembered search and the active state away and restore the label; Escape
  also leaves the field and cancels the pending search.
\<close>

theorem leaving_resets_panel:
  assumes "keyCode e = 27"
  shows "panel_reset (CloseResultsWindow u) \<and>
    (\<exists>u'. OnSearchFieldChange lay e u = (u', True) \<and> panel_reset u' \<and> focus u' \<noteq> Field \<and> keyTimeout u' = 0 \<and>
       (\<forall>t. keyTimeout u \<noteq> 0 \<longrightarrow> (keyTimeout u, t) \<notin> set (pending u')))"
  using assms
  by (auto simp: panel_reset_def CloseResultsWindow_def Activate_def OnSearchFieldChange_def Let_def blur_field_def
      OnSearchFieldFocus_def stop_key_timer_def clear_timeout_def)

theorem leaving_resets_panel_witness:
  "\<exists>u u'. run fiberio_step fiberio_ui (type_text (js ''ac'')) = Some u \<and>
     OnSearchFieldChange plain_layout \<lparr>etype = Keyup, keyCode = 27, shiftKey = False\<rparr> u = (u', True) \<and>
     panel_reset u' \<and> pending u = [(1, SearchTimer)] \<and> (1, SearchTimer) \<notin> set (pending u')"
proof -
  obtain u where u: "run fiberio_step fiberio_ui (type_text (js ''ac'')) = Some u"
    "pending u = [(1, SearchTimer)]" "keyTimeout u = 1"
    using type_text_run [of "js ''ac''"] by (auto simp: remove_spaces_def js_def)
  show ?thesis
    using leaving_resets_panel [of "\<lparr>etype = Keyup, keyCode = 27, shiftKey = False\<rparr>" u plain_layout] u by auto
qed

text \<open>
  Choosing a filter marks it and no other: of the items of the selection window, in order, the
  one with the chosen index has the bullet and the others a space, and their number does not change.
\<close>

lemma count_items_eq: "count_items n cs = n + length (filter (\<lambda>c. child_class c = js ''SelectItem'') cs)"
  by (induction cs arbitrary: n) simp_all

lemma set_marks_items:
  "map mark (filter (\<lambda>c. child_class c = js ''SelectItem'') (set_marks i j cs)) =
     map (\<lambda>k. if k = i then js ''&#8226;'' else js ''&#160;'')
       [j..<j + length (filter (\<lambda>c. child_class c = js ''SelectItem'') cs)]"
proof (induction i j cs rule: set_marks.induct)
  case (2 i j c cs)
  then show ?case by (simp add: upt_conv_Cons del: upt_Suc)
qed simp

lemma set_marks_count:
  "length (filter (\<lambda>c. child_class c = js ''SelectItem'') (set_marks i j cs)) =
     length (filter (\<lambda>c. child_class c = js ''SelectItem'') cs)"
  by (induction i j cs rule: set_marks.induct) auto

lemma Search_select_children: "select_children (fst (SearchBox_Search env lay u)) = select_children u"
  by (simp add: SearchBox_Search_def show_results_def Let_def split: option.splits)

theorem chosen_filter_is_marked:
  "map mark (filter (\<lambda>c. child_class c = js ''SelectItem'') (select_children (fst (OnSelectItem env lay i u)))) =
     map (\<lambda>k. if k = i then js ''&#8226;'' else js ''&#160;'') [0..<SelectItemCount u] \<and>
   SelectItemCount (fst (OnSelectItem env lay i u)) = SelectItemCount u"
  by (simp add: OnSelectItem_def Let_def Search_select_children SelectItemSet_def SelectItemCount_def
      count_items_eq set_marks_items set_marks_count)

text \<open>
  The Down key in the selection window runs past the last filter: from the last item it still counts up,
  since it compares the index with the number of items, so that no item is marked; and with a text to search
  for, the search it starts reads a section that does not exist and raises a \<open>TypeError\<close>.
\<close>

theorem down_key_passes_last_filter:
  assumes "keyCode e = 40" and "searchIndex u = SelectItemCount u - 1" and "0 < SelectItemCount u"
    and "length (indexSectionsWithContent env) = SelectItemCount u"
    and "remove_spaces (field_value u) \<noteq> []" and "searchActive u"
  shows "\<exists>u'. OnSearchSelectKey env lay e u = (u', False) \<and> searchIndex u' = SelectItemCount u' \<and>
    list_all (\<lambda>c. mark c \<noteq> js ''&#8226;'') (filter (\<lambda>c. child_class c = js ''SelectItem'') (select_children u'))"
proof -
  let ?n = "SelectItemCount u"
  let ?v = "SelectItemSet ?n (u\<lparr>searchIndex := ?n\<rparr>)"
  let ?items = "\<lambda>w. filter (\<lambda>c. child_class c = js ''SelectItem'') (select_children w)"
  have "results_pages env p ?n s = None" for p s using assms(4) by (simp add: results_pages_def)
  then have "SearchBox_Search env lay ?v = (?v\<lparr>keyTimeout := 0\<rparr>, False)"
    by (simp add: SearchBox_Search_def Let_def sys_simps SelectItemSet_def)
  then have k: "OnSearchSelectKey env lay e u = (?v\<lparr>keyTimeout := 0\<rparr>, False)"
    using assms by (simp add: OnSearchSelectKey_def OnSelectItem_def Let_def sys_simps)
  have marks: "map mark (?items ?v) = map (\<lambda>k. if k = ?n then js ''&#8226;'' else js ''&#160;'') [0..<?n]"
    using set_marks_items [of ?n 0 "select_children u"]
    by (simp add: SelectItemSet_def SelectItemCount_def count_items_eq)
  have "mark c \<noteq> js ''&#8226;''" if "c \<in> set (?items ?v)" for c
  proof -
    have "mark c \<in> set (map mark (?items ?v))" using that by simp
    then show ?thesis unfolding marks by auto
  qed
  moreover have "SelectItemCount (?v\<lparr>keyTimeout := 0\<rparr>) = ?n"
    by (simp add: SelectItemCount_def SelectItemSet_def count_items_eq set_marks_count)
  ultimately show ?thesis using k by (simp add: list_all_iff sys_simps)
qed

theorem down_key_passes_last_filter_witness:
  "\<exists>u'. OnSearchSelectKey (fiberio_env (map ascii_lower) (\<lambda>s. True)) plain_layout
       \<lparr>etype = Keydown, keyCode = 40, shiftKey = False\<rparr>
       (fiberio_ui\<lparr>searchIndex := 7, field_value := js ''ac'', searchActive := True\<rparr>) = (u', False) \<and>
     searchIndex u' = SelectItemCount u'"
proof -
  let ?env = "fiberio_env (map ascii_lower) (\<lambda>s. True)"
  let ?u = "fiberio_ui\<lparr>searchIndex := 7, field_value := js ''ac'', searchActive := True\<rparr>"
  have c: "SelectItemCount ?u = 8"
    by (simp add: SelectItemCount_def fiberio_ui_def ui_init_eq SelectItemSet_def SearchBox_new_def
        fiberio_env_def count_items_eq set_marks_count)
  have "searchIndex ?u = SelectItemCount ?u - 1" "0 < SelectItemCount ?u"
    "length (indexSectionsWithContent ?env) = SelectItemCount ?u"
    unfolding c by (simp_all add: fiberio_env_def)
  moreover have "remove_spaces (field_value ?u) \<noteq> []" "searchActive ?u"
    by (simp_all add: remove_spaces_def js_def)
  ultimately show ?thesis
    using down_key_passes_last_filter [of "\<lparr>etype = Keydown, keyCode = 40, shiftKey = False\<rparr>" ?u ?env plain_layout]
    by auto
qed

text \<open>
  Choosing a filter while a search is pending searches at once and forgets the pending search without
  cancelling it: \<open>Search\<close> sets \<open>keyTimeout\<close> to 0, the timer stays, and no later key event cancels
  it, so it fires as well.
\<close>

theorem filter_choice_leaks_timer:
  assumes "(keyTimeout u, SearchTimer) \<in> set (pending u)" and "keyTimeout u \<noteq> 0"
    and "remove_spaces (field_value u) \<noteq> []" and "searchActive u"
  shows "keyTimeout (fst (OnSelectItem env lay i u)) = 0 \<and>
    (keyTimeout u, SearchTimer) \<in> set (pending (stop_key_timer (fst (OnSelectItem env lay i u))))"
proof -
  let ?v = "SelectItemSet i (u\<lparr>searchIndex := i\<rparr>)"
  have "OnSelectItem env lay i u = SearchBox_Search env lay ?v"
    using assms(3,4) by (simp add: OnSelectItem_def Let_def sys_simps)
  then show ?thesis
    using assms(1) search_keeps_pending [of env lay ?v] by (simp add: stop_key_timer_def sys_simps)
qed

theorem filter_choice_leaks_timer_witness:
  "\<exists>u. run fiberio_step fiberio_ui (type_text (js ''ac'') @ [(plain_layout, Select_click 1)]) = Some u \<and>
     keyTimeout u = 0 \<and> (1, SearchTimer) \<in> set (pending u)"
proof -
  let ?env = "fiberio_env (map ascii_lower) (\<lambda>s. True)"
  obtain u where u: "run fiberio_step fiberio_ui (type_text (js ''ac'')) = Some u"
    "pending u = [(1, SearchTimer)]" "keyTimeout u = 1" "field_value u = js ''ac''" "searchActive u"
    using type_text_run [of "js ''ac''"] by (auto simp: remove_spaces_def js_def)
  have "remove_spaces (field_value u) \<noteq> []" unfolding u(4) by (simp add: remove_spaces_def js_def)
  moreover have "(keyTimeout u, SearchTimer) \<in> set (pending u)" "keyTimeout u \<noteq> 0" using u by simp_all
  ultimately have "keyTimeout (fst (OnSelectItem ?env plain_layout 1 u)) = 0"
    "(1, SearchTimer) \<in> set (pending (stop_key_timer (fst (OnSelectItem ?env plain_layout 1 u))))"
    using filter_choice_leaks_timer [of u ?env plain_layout 1] u(3,5) by auto
  then show ?thesis using u(1) by (simp add: run_append fiberio_step_def ui_step_def stop_key_timer_def)
qed

text \<open>
  The code for characters outside the basic plane never runs: \<open>searchValue > 1\<close> compares the
  text as a number where its length was meant, which is false for every text that starts with a surrogate, so the index
  is always looked up by a single code unit.
\<close>

theorem surrogate_pairs_not_used:
  assumes "\<forall>s c cs. to_lower env s = c # cs \<and> 55296 \<le> c \<and> c \<le> 56319 \<longrightarrow> (\<exists>t. s = c # t)"
  shows "index_char env s = to_lower env (take 1 s)"
proof (cases "to_lower env s")
  case (Cons c cs)
  have "\<not> greater_than_1 env s" if c: "55296 \<le> c" "c \<le> 56319"
  proof -
    obtain t where "s = c # t" using assms Cons c by blast
    then show ?thesis using c by (auto simp: greater_than_1_def starts_number_def)
  qed
  then show ?thesis using Cons by (auto simp: index_char_def)
qed (simp add: index_char_def)

theorem surrogate_pairs_not_used_witness:
  "index_char (fiberio_env (map ascii_lower) (\<lambda>s. True)) [55357, 56832] = [55357]"
proof -
  have "\<forall>s c cs. to_lower (fiberio_env (map ascii_lower) (\<lambda>s. True)) s = c # cs \<and> 55296 \<le> c \<and> c \<le> 56319 \<longrightarrow>
      (\<exists>t. s = c # t)"
    by (auto simp: fiberio_env_def ascii_lower_def split: if_splits)
  from surrogate_pairs_not_used [OF this, of "[55357, 56832]"] show ?thesis
    by (simp add: fiberio_env_def ascii_lower_def)
qed

text \<open>
  A text with a space in it is searched for again and again: a search remembers the text less its leading
  spaces, a key event compares it less all its spaces, so after a search for such a text any further
  key event, even one that changes nothing, starts another search.
\<close>

theorem spaces_restart_search:
  assumes "SearchBox_Search env lay1 u = (v, True)" and "32 \<in> set (strip_leading (field_value u))"
    and "remove_spaces (field_value u) \<noteq> []" and "keyCode e \<notin> {13, 27, 40}"
  shows "\<exists>v' h. OnSearchFieldChange lay2 e v = (v', True) \<and> field_value v' = field_value u \<and>
    (h, SearchTimer) \<in> set (pending v') \<and> keyTimeout v' = h"
proof -
  obtain page loc where "results_pages env (resultsPath u) (searchIndex u) (strip_leading (field_value u)) = Some (page, loc)"
    using assms(1) by (auto simp: SearchBox_Search_def Let_def split: option.splits)
  then have v: "lastSearchValue v = strip_leading (field_value u)" "field_value v = field_value u"
    using assms(1) by (auto simp: SearchBox_Search_def show_results_def Let_def)
  have "32 \<notin> set (remove_spaces (field_value u))" by (simp add: remove_spaces_def)
  then have ne: "remove_spaces (field_value u) \<noteq> strip_leading (field_value u)" using assms(2) by metis
  have "field_value (stop_key_timer v) = field_value v" "lastSearchValue (stop_key_timer v) = lastSearchValue v"
    by (simp_all add: stop_key_timer_def clear_timeout_def)
  then have "OnSearchFieldChange lay2 e v =
      ((set_timeout SearchTimer (stop_key_timer v))\<lparr>keyTimeout := next_timer (stop_key_timer v)\<rparr>, True)"
    using assms(3,4) v ne by (simp add: OnSearchFieldChange_def value_changed_def Let_def)
  then show ?thesis using v(2) by (simp add: set_timeout_def stop_key_timer_def clear_timeout_def)
qed

theorem spaces_restart_search_witness:
  "\<exists>v v'. SearchBox_Search (fiberio_env (map ascii_lower) (\<lambda>s. True)) plain_layout
       (fiberio_ui\<lparr>field_value := js ''a b''\<rparr>) = (v, True) \<and>
     OnSearchFieldChange plain_layout plain_key v = (v', True) \<and> field_value v' = js ''a b'' \<and> pending v' \<noteq> []"
proof -
  let ?env = "fiberio_env (map ascii_lower) (\<lambda>s. True)"
  let ?u = "fiberio_ui\<lparr>field_value := js ''a b''\<rparr>"
  have "searchIndex ?u < length (indexSectionsWithContent ?env)"
    by (simp add: fiberio_ui_fields fiberio_env_def)
  then have ok: "snd (SearchBox_Search ?env plain_layout ?u)"
    using results_pages_some Search_effect(1) by metis
  obtain v where v: "SearchBox_Search ?env plain_layout ?u = (v, True)"
    using ok by (metis prod.collapse)
  have "32 \<in> set (strip_leading (field_value ?u))" "remove_spaces (field_value ?u) \<noteq> []"
    "keyCode plain_key \<notin> {13, 27, 40}"
    by (simp_all add: strip_leading_def remove_spaces_def js_def plain_key_def)
  from spaces_restart_search [OF v this, of plain_layout] v show ?thesis by fastforce
qed

end
