(* ===== verification/Page.thy ===== *)
theory Page
  imports Menu SearchBox
begin

text \<open>
  A page of the documentation as its parts put it together: the markup of \<open>docs/html/index.html\<close>, the menu that \<open>initMenu\<close> of
  \<open>menu.js\<close> adds to it, and the panel of \<open>search.js\<close> that finds its elements there by id and is called by their handlers.
  A small reader of markup collects the attributes of the elements, so that what one script prints can be compared with
  what another looks up.
\<close>

section \<open>Reading markup\<close>

text \<open>
  The attributes of each tag, in order. Values are double-quoted in all markup that the scripts and pages contain; closing tags
  and comments count as tags without attributes.
\<close>

type_synonym attributes = "(jsstring \<times> jsstring) list"

datatype mode = Outer | Tag attributes jsstring | Quoted attributes jsstring jsstring

fun lex :: "code_unit \<Rightarrow> mode \<times> attributes list \<Rightarrow> mode \<times> attributes list" where
  "lex c (Outer, es) = (if c = 60 then Tag [] [] else Outer, es)"
| "lex c (Tag as w, es) =
     (if c = 62 then (Outer, es @ [as])
      else if c = 34 then (Quoted as w [], es)
      else if c = 32 \<or> c = 10 then (Tag as [], es)
      else if c = 61 then (Tag as w, es)
      else (Tag as (w @ [c]), es))"
| "lex c (Quoted as w v, es) =
     (if c = 34 then (Tag (as @ [(w, v)]) [], es) else (Quoted as w (v @ [c]), es))"

definition elements :: "jsstring \<Rightarrow> attributes list" where
  "elements s = snd (fold lex s (Outer, []))"

definition attr :: "string \<Rightarrow> attributes \<Rightarrow> jsstring option" where
  "attr a as = map_of as (js a)"

definition ids :: "attributes list \<Rightarrow> jsstring list" where
  "ids es = List.map_filter (attr ''id'') es"

text \<open>An attribute that runs code: an event handler, or a link to a script.\<close>

definition is_handler :: "jsstring \<times> jsstring \<Rightarrow> bool" where
  "is_handler av \<longleftrightarrow>
     take 2 (fst av) = js ''on'' \<or> fst av = js ''href'' \<and> take 11 (snd av) = js ''javascript:''"

definition handlers :: "attributes list \<Rightarrow> (jsstring option \<times> jsstring \<times> jsstring) list" where
  "handlers es = concat (map (\<lambda>as. map (\<lambda>av. (attr ''id'' as, av)) (filter is_handler as)) es)"

section \<open>The page\<close>







text \<open>The two scripts of the page: the panel, and the menu for the data (\<open>menudata\<close> of \<open>menudata.js\<close>) it finds.\<close>

definition page_panel :: search_ui where
  "page_panel = SearchBox_new (js ''searchBox'') (js ''search'') False (js ''Search'')"


section \<open>What the panel expects\<close>


section \<open>Reading the parts one after the other\<close>

definition balanced :: "jsstring \<Rightarrow> bool" where
  "balanced s \<longleftrightarrow> fst (fold lex s (Outer, [])) = Outer"





lemma elements_Nil [simp]: "elements [] = []" "balanced []"
  by (simp_all add: elements_def balanced_def)


lemma ids_append [simp]: "ids (es @ fs) = ids es @ ids fs" "ids [] = []"
  by (simp_all add: ids_def List.map_filter_def)

lemma handlers_append [simp]: "handlers (es @ fs) = handlers es @ handlers fs" "handlers [] = []"
  by (simp_all add: handlers_def)

lemmas markup_eval = balanced_def elements_def ids_def handlers_def List.map_filter_def attr_def is_handler_def js_def

subsection \<open>Menu items\<close>







lemma inert_facts [simp]: "ids ([] # es) = ids es" "handlers ([] # es) = handlers es"
  "ids ([(js ''href'', u)] # es) = ids es"
  "take 11 u \<noteq> js ''javascript:'' \<Longrightarrow> handlers ([(js ''href'', u)] # es) = handlers es"
  by (simp_all add: ids_def handlers_def List.map_filter_def attr_def is_handler_def js_def)


subsection \<open>The markup of the page and of the search item\<close>













section \<open>Property\<close>



text \<open>The search field and the box start as the panel's model does: with the label as text, and inactive.\<close>

theorem panel_starts_as_printed:
  "map (\<lambda>i. map (\<lambda>as. (attr ''value'' as, attr ''class'' as))
       (filter (\<lambda>as. attr ''id'' as = Some (js i)) (elements (local_search_item [] (searchLabel page_panel)))))
     [''MSearchField'', ''MSearchBox''] =
   [[(Some (field_value page_panel), None)], [(None, Some (box_class page_panel))]]"
  by (simp add: page_panel_def SearchBox_new_def local_search_item_def markup_eval)

end
