(* ===== verification/ResultsPage.thy ===== *)
theory ResultsPage
  imports SearchResults
begin

text \<open>
  A whole results page (\<open>docs/html/search/all_0.html\<close> and its siblings, which differ in the data
  file they load): the document the page starts from, the scripts it runs while it loads, and
  the handlers that its links call afterwards, with the page's data as a parameter. The facts here
  say what \<open>createResults\<close> builds, so that the properties can speak of the entries of the data.
\<close>

section \<open>The page\<close>

definition html_elem :: "string \<Rightarrow> string \<Rightarrow> string \<Rightarrow> string \<Rightarrow> elem" where
  "html_elem t i c h =
     \<lparr>nodeName = js t, ident = js i, className = js c, display = [], attributes = [], innerHTML = js h\<rparr>"

text \<open>The document, less its white space and the contents of its head, with given result rows.\<close>

definition body_nodes :: "node list \<Rightarrow> node list" where
  "body_nodes rows =
     [Node (html_elem ''DIV'' ''Loading'' ''SRStatus'' ''Loading...'') [],
      Node (html_elem ''DIV'' ''SRResults'' '''' '''') rows,
      Node (html_elem ''SCRIPT'' '''' '''' '''') [],
      Node (html_elem ''DIV'' ''Searching'' ''SRStatus'' ''Searching...'') [],
      Node (html_elem ''DIV'' ''NoMatches'' ''SRStatus'' ''No Matches'') [],
      Node (html_elem ''SCRIPT'' '''' '''' '''') []]"

definition results_html :: "node list \<Rightarrow> node" where
  "results_html rows =
     Node (html_elem ''#document'' '''' '''' '''')
       [Node (html_elem ''HTML'' '''' '''' '''')
         [Node (html_elem ''HEAD'' '''' '''' '''') [],
          Node (html_elem ''BODY'' '''' ''SRPage'' '''')
            [Node (html_elem ''DIV'' ''SRIndex'' '''' '''') (body_nodes rows)]]]"

definition load_page :: "(jsstring \<Rightarrow> jsstring) \<Rightarrow> entry list \<Rightarrow> jsstring \<Rightarrow> results_page res" where
  "load_page lc searchData location_search =
     and_then (createResults searchData (results_html []))
       (\<lambda>d. and_then (set_display_by_id (js ''Loading'') (js ''none'') d)
         (\<lambda>d. and_then (set_display_by_id (js ''NoMatches'') (js ''none'') d)
           (\<lambda>d. SearchResults_Search lc location_search [] (SearchResults_new d))))"

text \<open>
  The calls that the page's links make: each symbol link its \<open>Nav\<close>, each child link its
  \<open>NavChild\<close>, the link of an entry with several children its \<open>Toggle\<close>; and \<open>Search\<close>, which
  other documents may call.
\<close>

datatype page_event =
    Nav_event key_event nat
  | NavChild_event key_event nat nat
  | Toggle_event nat
  | Search_event jsstring

definition wired :: "entry list \<Rightarrow> page_event \<Rightarrow> bool" where
  "wired searchData v =
     (case v of
        Nav_event k e \<Rightarrow> e < length searchData
      | NavChild_event k e c \<Rightarrow>
          e < length searchData \<and> length (links (searchData ! e)) \<noteq> 1 \<and> c < length (links (searchData ! e))
      | Toggle_event e \<Rightarrow> e < length searchData \<and> length (links (searchData ! e)) \<noteq> 1
      | Search_event q \<Rightarrow> True)"

definition page_step ::
  "(jsstring \<Rightarrow> jsstring) \<Rightarrow> jsstring \<Rightarrow> entry list \<Rightarrow> page_event \<Rightarrow> results_page \<Rightarrow> results_page res" where
  "page_step lc loc searchData v w =
     (case v of
        Nav_event k e \<Rightarrow> and_then (Nav k (int e) w) (\<lambda>(w', fx, r). Ret w')
      | NavChild_event k e c \<Rightarrow> and_then (NavChild k (int e) (int c) w) (\<lambda>(w', fx, r). Ret w')
      | Toggle_event e \<Rightarrow> Toggle (js ''SR_'' @ entry_id (searchData ! e)) w
      | Search_event q \<Rightarrow> SearchResults_Search lc loc q w)"

fun page_run ::
  "(jsstring \<Rightarrow> jsstring) \<Rightarrow> jsstring \<Rightarrow> entry list \<Rightarrow> page_event list \<Rightarrow> results_page \<Rightarrow> results_page res" where
  "page_run lc loc searchData [] w = Ret w"
| "page_run lc loc searchData (v # vs) w =
     and_then (page_step lc loc searchData v w) (page_run lc loc searchData vs)"

section \<open>What createResults builds\<close>

lemma upper_names [simp]:
  "map ascii_upper (js ''div'') = js ''DIV''" "map ascii_upper (js ''a'') = js ''A''"
  "map ascii_upper (js ''span'') = js ''SPAN''"
  by (simp_all add: js_def ascii_upper_def)

lemma createElement_simps [simp]:
  "nodeName (createElement t) = map ascii_upper t" "ident (createElement t) = []"
  "className (createElement t) = []" "display (createElement t) = []"
  by (simp_all add: createElement_def)

lemma setAttribute_simps [simp]:
  "nodeName (setAttribute a v e) = nodeName e" "display (setAttribute a v e) = display e"
  "ident (setAttribute a v e) = (if a = js ''id'' then v else ident e)"
  "className (setAttribute a v e) = (if a = js ''class'' then v else className e)"
  by (simp_all add: setAttribute_def)

lemma helper_simps [simp]:
  "ident (setClassAttr c e) = ident e" "className (setClassAttr c e) = c"
  "nodeName (setClassAttr c e) = nodeName e" "display (setClassAttr c e) = display e"
  "ident (setKeyActions k e) = ident e" "className (setKeyActions k e) = className e"
  "nodeName (setKeyActions k e) = nodeName e" "display (setKeyActions k e) = display e"
  "ident (target_parent b e) = ident e" "className (target_parent b e) = className e"
  "nodeName (target_parent b e) = nodeName e" "display (target_parent b e) = display e"
  "ident (set_html h e) = ident e" "className (set_html h e) = className e"
  "nodeName (set_html h e) = nodeName e" "display (set_html h e) = display e"
  by (simp_all add: setClassAttr_def setKeyActions_def target_parent_def set_html_def)

definition result_rows :: "entry list \<Rightarrow> node list" where
  "result_rows searchData = map (\<lambda>(e, x). result_row e x) (enumerate 0 searchData)"

lemma length_result_rows [simp]: "length (result_rows xs) = length xs"
  by (simp add: result_rows_def)

lemma nth_result_rows [simp]: "e < length xs \<Longrightarrow> result_rows xs ! e = result_row e (xs ! e)"
  by (simp add: result_rows_def nth_enumerate_eq)

lemma append_row:
  "appendChild [0, Suc 0, 0, Suc 0] r (results_html rows) = results_html (rows @ [r])"
  by (simp add: results_html_def body_nodes_def)

lemma create_loop_rows:
  "create_loop (Some [0, Suc 0, 0, Suc 0]) e xs (results_html rows) =
     Ret (results_html (rows @ map (\<lambda>(e, x). result_row e x) (enumerate e xs)))"
  by (induction xs arbitrary: e rows) (simp_all add: append_row)

lemma results_html_find_SRResults: "getElementById (results_html []) (js ''SRResults'') = Some [0, Suc 0, 0, Suc 0]"
  by (simp add: getElementById_def results_html_def body_nodes_def has_elem_def html_elem_def)

lemma createResults_page: "createResults xs (results_html []) = Ret (results_html (result_rows xs))"
  by (simp add: createResults_def results_html_find_SRResults create_loop_rows result_rows_def)

text \<open>The elements of a row, with their ids.\<close>

lemma elem_at_leaf [simp]: "elem_at (Node e []) p = (if p = [] then Some e else None)"
  by (cases p) simp_all

lemma result_entry_many:
  assumes "length (links x) \<noteq> 1"
  shows "result_entry e x =
    [Node (setAttribute (js ''href'')
       (js ''javascript:searchResults.Toggle(\"SR_'' @ entry_id x @ js ''\")'') (symbol_link e x)) [],
     Node (setClassAttr (js ''SRChildren'') (createElement (js ''div'')))
       (map (\<lambda>(c, l). child_link e c l) (enumerate 0 (links x)))]"
  using assms by (auto simp: result_entry_def split: list.splits)

lemma result_row_elem:
  assumes "elem_at (result_row e x) p = Some el"
  shows "(p = [] \<and> is_row el \<and> ident el = js ''SR_'' @ entry_id x) \<or>
    (\<not> is_row el \<and>
     (ident el = [] \<or> p = [0, 0] \<and> ident el = item_name (int e) \<or>
      (\<exists>c < length (links x). p = [0, Suc 0, c] \<and> length (links x) \<noteq> 1 \<and> ident el = child_name (int e) (int c))))"
proof -
  have kids: "elem_at (Node e0 (map (\<lambda>(c, l). child_link e c l) (enumerate 0 ls))) q = Some el \<Longrightarrow>
      q = [] \<and> el = e0 \<or>
      (\<exists>c < length ls. q = [c] \<and> ident el = child_name (int e) (int c) \<and> nodeName el = js ''A'')" for e0 ls q
    by (cases q) (auto simp: nth_enumerate_eq child_link_def split: if_splits)
  show ?thesis
  proof (cases "length (links x) = 1")
    case True
    then obtain l where "links x = [l]" by (auto simp: length_Suc_conv)
    then show ?thesis using assms
      by (cases p; cases "tl p")
        (auto simp: result_row_def result_entry_def is_row_def less_Suc_eq symbol_link_def split: if_splits)
  next
    case False
    then show ?thesis using assms
      by (cases p; cases "tl p")
        (auto simp: result_row_def result_entry_many is_row_def less_Suc_eq symbol_link_def dest!: kids
          split: if_splits)
  qed
qed

lemma result_row_self: "elem_at (result_row e x) [] = Some el \<Longrightarrow> is_row el \<and> ident el = js ''SR_'' @ entry_id x"
  by (auto simp: result_row_def is_row_def)

lemma result_row_item: "\<exists>el. elem_at (result_row e x) [0, 0] = Some el \<and> ident el = item_name (int e)"
  by (auto simp: result_row_def result_entry_def symbol_link_def split: list.splits)

lemma result_row_child:
  assumes "length (links x) \<noteq> 1" and "c < length (links x)"
  shows "\<exists>el. elem_at (result_row e x) [0, Suc 0, c] = Some el \<and> ident el = child_name (int e) (int c)"
  using assms by (simp add: result_row_def result_entry_many nth_enumerate_eq child_link_def)

abbreviation results_path :: path where
  "results_path \<equiv> [0, Suc 0, 0, Suc 0]"

definition static_ids :: "(path \<times> jsstring) list" where
  "static_ids =
     [([0, Suc 0, 0], js ''SRIndex''), ([0, Suc 0, 0, 0], js ''Loading''), (results_path, js ''SRResults''),
      ([0, Suc 0, 0, 3], js ''Searching''), ([0, Suc 0, 0, 4], js ''NoMatches'')]"

definition page_doc :: "entry list \<Rightarrow> node" where
  "page_doc xs = results_html (result_rows xs)"

lemma page_row: "e < length xs \<Longrightarrow> elem_at (page_doc xs) (results_path @ e # q) = elem_at (result_row e (xs ! e)) q"
  by (simp add: page_doc_def results_html_def body_nodes_def)

lemma forest_elem:
  "elem_at (Node e0 ns) p = Some el \<Longrightarrow>
     p = [] \<and> el = e0 \<or> (\<exists>i q. p = i # q \<and> i < length ns \<and> elem_at (ns ! i) q = Some el)"
  by (cases p) (auto split: if_splits)

lemma less_six: "(i :: nat) < 6 \<longleftrightarrow> i = 0 \<or> i = Suc 0 \<or> i = 2 \<or> i = 3 \<or> i = 4 \<or> i = 5"
  by auto

lemma page_elem:
  assumes "elem_at (page_doc xs) p = Some el"
  shows "(\<exists>e q. e < length xs \<and> p = results_path @ e # q \<and> elem_at (result_row e (xs ! e)) q = Some el) \<or>
    (\<not> is_row el \<and> (ident el = [] \<or> (p, ident el) \<in> set static_ids))"
proof -
  let ?index = "Node (html_elem ''DIV'' ''SRIndex'' '''' '''') (body_nodes (result_rows xs))"
  consider (out) "ident el = []" "\<not> is_row el"
    | (index) q where "p = 0 # Suc 0 # 0 # q" "elem_at ?index q = Some el"
  proof -
    have "ident el = [] \<and> \<not> is_row el \<or> (\<exists>q. p = 0 # Suc 0 # 0 # q \<and> elem_at ?index q = Some el)"
      using assms unfolding page_doc_def results_html_def
      by (cases p; cases "tl p"; cases "tl (tl p)")
        (auto simp: less_Suc_eq html_elem_def is_row_def split: if_splits)
    then show thesis using that by blast
  qed
  then show ?thesis
  proof cases
    case out
    then show ?thesis by simp
  next
    case index
    show ?thesis
    proof (cases q)
      case Nil
      then show ?thesis using index by (auto simp: html_elem_def is_row_def static_ids_def)
    next
      case (Cons i r)
      then have "i < 6" "elem_at (body_nodes (result_rows xs) ! i) r = Some el"
        using index by (auto simp: body_nodes_def split: if_splits)
      moreover have "i = Suc 0 \<Longrightarrow> r \<noteq> [] \<Longrightarrow> hd r < length xs \<and>
          elem_at (result_row (hd r) (xs ! hd r)) (tl r) = Some el"
        using calculation by (cases r) (auto simp: body_nodes_def split: if_splits)
      ultimately show ?thesis using Cons index unfolding less_six
        by (cases r) (auto simp: body_nodes_def html_elem_def is_row_def static_ids_def split: if_splits)
    qed
  qed
qed

lemma page_static_elem:
  "(p, i) \<in> set static_ids \<Longrightarrow> \<exists>el. elem_at (page_doc xs) p = Some el \<and> ident el = i \<and> \<not> is_row el"
  by (auto simp: static_ids_def page_doc_def results_html_def body_nodes_def html_elem_def is_row_def numeral_eq_Suc)

lemma row_ids_differ:
  "(p, i) \<in> set static_ids \<Longrightarrow> i \<noteq> js ''SR_'' @ x \<and> i \<noteq> item_name k \<and> i \<noteq> child_name k c"
  by (auto simp: static_ids_def js_def item_name_def child_name_def)

lemma static_ids_unique: "(p, i) \<in> set static_ids \<Longrightarrow> (q, i) \<in> set static_ids \<Longrightarrow> p = q"
  by (auto simp: static_ids_def)

lemma static_ids_not_Nil: "(p, i) \<in> set static_ids \<Longrightarrow> i \<noteq> []"
  by (auto simp: static_ids_def)

lemma getElementById_unique:
  assumes "elem_at d p = Some el" and "ident el = i" and "i \<noteq> []"
    and "\<And>q el'. elem_at d q = Some el' \<Longrightarrow> ident el' = i \<Longrightarrow> q = p"
  shows "getElementById d i = Some p"
proof -
  have "List.find (has_elem (\<lambda>e. ident e = i) d) (paths d) = Some p"
  proof (rule find_unique)
    show "p \<in> set (paths d)" using assms(1) elem_at_some_iff by fastforce
    show "has_elem (\<lambda>e. ident e = i) d p" using assms(1,2) by (simp add: has_elem_def)
    show "q = p" if "has_elem (\<lambda>e. ident e = i) d q" for q
      using that assms(4) by (auto simp: has_elem_def split: option.splits)
  qed
  then show ?thesis using assms(3) by (simp add: getElementById_def)
qed

lemma page_static:
  assumes "(p, i) \<in> set static_ids"
  shows "getElementById (page_doc xs) i = Some p"
proof -
  obtain el where el: "elem_at (page_doc xs) p = Some el" "ident el = i"
    using page_static_elem [OF assms] by blast
  show ?thesis
  proof (rule getElementById_unique [OF el static_ids_not_Nil [OF assms]])
    fix q el' assume q: "elem_at (page_doc xs) q = Some el'" "ident el' = i"
    have "\<not> (\<exists>e r. e < length xs \<and> q = results_path @ e # r \<and> elem_at (result_row e (xs ! e)) r = Some el')"
      using row_ids_differ [OF assms] static_ids_not_Nil [OF assms] q(2)
      by (auto dest!: result_row_elem)
    then show "q = p"
      using page_elem [OF q(1)] q(2) static_ids_not_Nil [OF assms] static_ids_unique [OF assms] by blast
  qed
qed

section \<open>A loaded page\<close>

definition entry_matches :: "(jsstring \<Rightarrow> jsstring) \<Rightarrow> jsstring \<Rightarrow> entry \<Rightarrow> bool" where
  "entry_matches lc s x = prefix s (strip_sr (lc (js ''SR_'' @ entry_id x)))"

lemma row_matches_prefix: "row_matches lc s el = prefix s (strip_sr (lc (ident el)))"
  by (auto simp: row_matches_def Let_def prefix_def) (metis append_take_drop_id)

lemma page_row_elem:
  assumes "e < length xs"
  obtains el where "elem_at (page_doc xs) (results_path @ [e]) = Some el" "is_row el"
    "ident el = js ''SR_'' @ entry_id (xs ! e)"
proof -
  obtain el where "elem_at (result_row e (xs ! e)) [] = Some el" by (simp add: result_row_def)
  then show thesis using that page_row [OF assms, of "[]"] result_row_self by simp
qed

lemma page_row_path:
  assumes "elem_at (page_doc xs) p = Some el" and "is_row el"
  obtains e where "e < length xs" "p = results_path @ [e]"
  using page_elem [OF assms(1)] assms(2) that by (auto dest!: result_row_elem)

lemma erased_elem:
  assumes "erase d = erase (page_doc xs)" and "elem_at d p = Some el"
  obtains el' where "elem_at (page_doc xs) p = Some el'" "set_display [] el = set_display [] el'"
proof -
  have "map_option (set_display []) (elem_at d p) = map_option (set_display []) (elem_at (page_doc xs) p)"
    using assms(1) elem_at_erase by metis
  then show thesis using assms(2) that by (cases "elem_at (page_doc xs) p") auto
qed

lemma erased_elem_back:
  assumes "erase d = erase (page_doc xs)" and "elem_at (page_doc xs) p = Some el'"
  obtains el where "elem_at d p = Some el" "set_display [] el = set_display [] el'"
proof -
  have "map_option (set_display []) (elem_at d p) = map_option (set_display []) (elem_at (page_doc xs) p)"
    using assms(1) elem_at_erase by metis
  then show thesis using assms(2) that by (cases "elem_at d p") auto
qed

lemma same_but_display:
  assumes "set_display [] a = set_display [] b"
  shows "ident a = ident b" "nodeName a = nodeName b" "className a = className b" "is_row a = is_row b"
proof -
  show i: "ident a = ident b" "nodeName a = nodeName b" "className a = className b"
    using assms by (metis set_display_simps)+
  then show "is_row a = is_row b" by (simp add: is_row_def)
qed

lemma rows_shown_entries:
  assumes "erase d = erase (page_doc xs)"
  shows "rows_shown lc s d = length (filter (entry_matches lc s) xs)"
proof -
  let ?P = "has_elem (\<lambda>e. is_row e \<and> row_matches lc s e) d"
  have "set (filter ?P (paths d)) = (\<lambda>e. results_path @ [e]) ` {e. e < length xs \<and> entry_matches lc s (xs ! e)}"
    (is "?L = ?R")
  proof
    show "?L \<subseteq> ?R"
    proof
      fix p assume "p \<in> ?L"
      then obtain el where el: "elem_at d p = Some el" "is_row el" "row_matches lc s el"
        by (auto simp: has_elem_def split: option.splits)
      then obtain el' where el': "elem_at (page_doc xs) p = Some el'" "set_display [] el = set_display [] el'"
        using erased_elem [OF assms] by metis
      obtain e where e: "e < length xs" "p = results_path @ [e]"
        using page_row_path [OF el'(1)] same_but_display [OF el'(2)] el(2) by metis
      then have "ident el = js ''SR_'' @ entry_id (xs ! e)"
        using page_row_elem [OF e(1)] el' same_but_display(1) [OF el'(2)] by (metis option.inject)
      then have "entry_matches lc s (xs ! e)" using el(3) by (simp add: row_matches_prefix entry_matches_def)
      then show "p \<in> ?R" using e by blast
    qed
    show "?R \<subseteq> ?L"
    proof
      fix p assume "p \<in> ?R"
      then obtain e where e: "e < length xs" "entry_matches lc s (xs ! e)" "p = results_path @ [e]" by blast
      obtain el' where el': "elem_at (page_doc xs) p = Some el'" "is_row el'" "ident el' = js ''SR_'' @ entry_id (xs ! e)"
        using page_row_elem [OF e(1)] e(3) by metis
      obtain el where el: "elem_at d p = Some el" "set_display [] el = set_display [] el'"
        using erased_elem_back [OF assms el'(1)] by metis
      have "?P p" using el el' e(2) same_but_display [OF el(2)]
        by (simp add: has_elem_def row_matches_prefix entry_matches_def)
      moreover have "p \<in> set (paths d)" using el(1) elem_at_some_iff by fastforce
      ultimately show "p \<in> ?L" by simp
    qed
  qed
  then have "card (set (filter ?P (paths d))) = card {e. e < length xs \<and> entry_matches lc s (xs ! e)}"
    by (simp add: card_image inj_on_def)
  moreover have "distinct (filter ?P (paths d))" by simp
  ultimately show ?thesis
    unfolding rows_shown_def length_filter_conv_card [of "entry_matches lc s" xs] by (metis distinct_card)
qed

lemma load_page_eq:
  obtains w where "load_page lc xs loc = Ret w" "erase (document w) = erase (page_doc xs)"
    "\<And>e. e < length xs \<Longrightarrow> display_of (document w) (results_path @ [e]) =
       (if entry_matches lc (search_term lc loc []) (xs ! e) then js ''block'' else js ''none'')"
    "lastMatchCount w = length (filter (entry_matches lc (search_term lc loc [])) xs)"
    "display_of (document w) [0, Suc 0, 0, 4] = (if lastMatchCount w = 0 then js ''block'' else js ''none'')"
    "lastKey w = 0"
proof -
  define s where "s = search_term lc loc []"
  let ?d0 = "upd [0, Suc 0, 0, 4] (set_display (js ''none'')) (upd [0, Suc 0, 0, 0] (set_display (js ''none'')) (page_doc xs))"
  let ?w0 = "SearchResults_new ?d0"
  have ids: "(p, i) \<in> set static_ids \<Longrightarrow> getElementById ?d0 i = Some p" for p i
    using page_static [of p i xs] by (simp add: getElementById_upd)
  have S: "getElementById (document ?w0) (js ''Searching'') = Some [0, Suc 0, 0, 3]"
    and N: "getElementById (document ?w0) (js ''NoMatches'') = Some [0, Suc 0, 0, 4]"
    by (auto simp: SearchResults_new_def static_ids_def intro!: ids)
  have L: "load_page lc xs loc = SearchResults_Search lc loc [] ?w0"
    using page_static [of _ "js ''Loading''" xs] page_static [of _ "js ''NoMatches''" xs]
    by (simp add: load_page_def createResults_page page_doc_def [symmetric] set_display_by_id_def
        getElementById_upd static_ids_def)
  obtain d where d: "SearchResults_Search lc loc [] ?w0 = Ret (?w0\<lparr>document := d, lastMatchCount := rows_shown lc s ?d0\<rparr>)"
    "erase d = erase ?d0"
    "\<And>p. elem_at d p = (if p = [0, Suc 0, 0, 4]
       then map_option (set_display (if rows_shown lc s ?d0 = 0 then js ''block'' else js ''none'')) (elem_at ?d0 p)
       else if p = [0, Suc 0, 0, 3] then map_option (set_display (js ''none'')) (elem_at ?d0 p)
       else map_option (\<lambda>e. if is_row e then show_row lc s e else e) (elem_at ?d0 p))"
    using Search_page [OF S N, of lc loc "[]"] unfolding s_def by (auto simp: SearchResults_new_def)
  have er: "erase d = erase (page_doc xs)" using d(2) by (simp add: erase_upd)
  have n: "rows_shown lc s ?d0 = length (filter (entry_matches lc s) xs)"
    by (rule rows_shown_entries) (simp add: erase_upd)
  have rows: "display_of d (results_path @ [e]) = (if entry_matches lc s (xs ! e) then js ''block'' else js ''none'')"
    if e: "e < length xs" for e
  proof -
    obtain el where el: "elem_at (page_doc xs) (results_path @ [e]) = Some el" "is_row el"
      "ident el = js ''SR_'' @ entry_id (xs ! e)"
      using page_row_elem [OF e] by metis
    then have "elem_at d (results_path @ [e]) = Some (show_row lc s el)"
      unfolding d(3) by (simp add: elem_at_upd)
    then show ?thesis
      using el(3) by (simp add: display_of_def show_row_def row_matches_prefix entry_matches_def)
  qed
  obtain el where "elem_at (page_doc xs) [0, Suc 0, 0, 4] = Some el"
    using page_static_elem [of "[0, Suc 0, 0, 4]" _ xs] by (auto simp: static_ids_def)
  then have "display_of d [0, Suc 0, 0, 4] = (if rows_shown lc s ?d0 = 0 then js ''block'' else js ''none'')"
    by (simp add: display_of_def d(3) elem_at_upd)
  then show thesis
    using that [of "?w0\<lparr>document := d, lastMatchCount := rows_shown lc s ?d0\<rparr>"] L d(1) er n rows
    unfolding s_def by (simp add: SearchResults_new_def)
qed

section \<open>The handlers on a loaded page\<close>

lemma int_to_string_no_underscore: "95 \<notin> set (int_to_string i)"
  using nat_to_string_digits [of 95] by (auto simp: int_to_string_def is_digit_def)

lemma item_name_not_child: "item_name i \<noteq> child_name e c"
proof
  assume "item_name i = child_name e c"
  then have "95 \<in> set (int_to_string i)"
    by (simp add: child_name_def item_name_def js_def)
  then show False by (simp add: int_to_string_no_underscore)
qed

lemma item_name_not_row: "item_name i \<noteq> js ''SR_'' @ x" "item_name i \<noteq> []"
  by (simp_all add: item_name_def js_def)

lemmas item_names_differ =
  item_name_not_row item_name_not_row [symmetric] item_name_not_child item_name_not_child [symmetric]

lemma getElementById_exists:
  "elem_at d p = Some el \<Longrightarrow> ident el = i \<Longrightarrow> i \<noteq> [] \<Longrightarrow> \<exists>q. getElementById d i = Some q"
proof (rule ccontr)
  assume el: "elem_at d p = Some el" "ident el = i" "i \<noteq> []" and "\<not> (\<exists>q. getElementById d i = Some q)"
  then have "List.find (has_elem (\<lambda>e. ident e = i) d) (paths d) = None"
    by (simp add: getElementById_def)
  moreover have "p \<in> set (paths d)" using el(1) elem_at_some_iff by fastforce
  moreover have "has_elem (\<lambda>e. ident e = i) d p" using el by (simp add: has_elem_def)
  ultimately show False by (auto simp: find_None_iff)
qed

lemma page_lookup:
  assumes "erase d = erase (page_doc xs)"
  shows "getElementById d i = getElementById (page_doc xs) i" "ident_of d p = ident_of (page_doc xs) p"
  using assms erase_getElementById
proof -
  show "getElementById d i = getElementById (page_doc xs) i" using assms by (rule erase_getElementById)
  have "map_option (set_display []) (elem_at d p) = map_option (set_display []) (elem_at (page_doc xs) p)"
    using assms elem_at_erase by metis
  then show "ident_of d p = ident_of (page_doc xs) p"
    by (cases "elem_at d p"; cases "elem_at (page_doc xs) p")
      (auto simp: ident_of_def dest: same_but_display(1))
qed

lemma page_item_place:
  assumes "getElementById (page_doc xs) (item_name i) = Some p"
  obtains e where "e < length xs" "p = results_path @ [e, 0, 0]"
proof -
  obtain el where el: "elem_at (page_doc xs) p = Some el" "ident el = item_name i"
    using getElementById_Some(2) [OF assms] by (auto simp: has_elem_def split: option.splits)
  have "(p, item_name i) \<notin> set static_ids" using row_ids_differ by blast
  then show thesis
    using page_elem [OF el(1)] el(2) that item_names_differ by (auto dest!: result_row_elem)
qed

lemma page_ids_exist:
  assumes "e < length xs"
  shows "\<exists>p. getElementById (page_doc xs) (item_name (int e)) = Some p"
    and "\<exists>p. getElementById (page_doc xs) (js ''SR_'' @ entry_id (xs ! e)) = Some p"
    and "length (links (xs ! e)) \<noteq> 1 \<Longrightarrow> c < length (links (xs ! e)) \<Longrightarrow>
      \<exists>p. getElementById (page_doc xs) (child_name (int e) (int c)) = Some p"
proof -
  show "\<exists>p. getElementById (page_doc xs) (item_name (int e)) = Some p"
    using result_row_item [of e "xs ! e"] page_row [OF assms, of "[0, 0]"] item_name_not_row(2)
    by (metis getElementById_exists)
  show "\<exists>p. getElementById (page_doc xs) (js ''SR_'' @ entry_id (xs ! e)) = Some p"
    using page_row_elem [OF assms] by (metis append_is_Nil_conv getElementById_exists js_Nil(2) list.distinct(1))
  show "\<exists>p. getElementById (page_doc xs) (child_name (int e) (int c)) = Some p"
    if "length (links (xs ! e)) \<noteq> 1" "c < length (links (xs ! e))"
    using result_row_child [OF that, of e] page_row [OF assms, of "[0, Suc 0, c]"]
    by (metis append_is_Nil_conv child_name_def getElementById_exists item_name_not_row(2))
qed

lemma page_find_children:
  assumes "erase d = erase (page_doc xs)" and "getElementById d (item_name i) = Some p"
  shows "\<exists>r. find_children_of d p = Ret r"
proof -
  obtain e where e: "e < length xs" "p = results_path @ [e, 0, 0]"
    using page_item_place assms page_lookup(1) by metis
  then have g: "grandparent p = Some (results_path @ [e])" by (simp add: grandparent_def)
  obtain el where "elem_at (page_doc xs) (results_path @ [e]) = Some el"
    "ident el = js ''SR_'' @ entry_id (xs ! e)"
    using page_row_elem [OF e(1)] by metis
  then have "ident_of d (results_path @ [e]) = js ''SR_'' @ entry_id (xs ! e)"
    using page_lookup(2) [OF assms(1)] by (simp add: ident_of_def)
  moreover obtain q where "getElementById d (js ''SR_'' @ entry_id (xs ! e)) = Some q"
    using page_ids_exist(2) [OF e(1)] page_lookup(1) [OF assms(1)] by auto
  ultimately show ?thesis using g by (simp add: find_children_of_def FindChildElement_eq)
qed

lemma page_nav_loop:
  assumes "erase d = erase (page_doc xs)" and "s \<noteq> 0"
  shows "\<exists>r. nav_loop d s (Suc (length (paths d))) i = Ret r \<and>
    (\<forall>p. r = Some p \<longrightarrow> (\<exists>j. getElementById d (item_name j) = Some p))"
proof -
  have "item_at d j \<noteq> Broken" for j
  proof (cases "getElementById d (item_name j)")
    case (Some p)
    then obtain e where "p = results_path @ [e, 0, 0]"
      using page_item_place page_lookup(1) [OF assms(1)] by metis
    then show ?thesis using Some by (simp add: item_at_def grandparent_def)
  qed (simp add: item_at_def)
  moreover obtain n where "item_at d (i + s * int n) \<noteq> Hidden"
    "nav_loop d s (Suc (length (paths d))) i = nav_outcome (item_at d (i + s * int n))"
    using nav_loop_first [OF assms(2)] by blast
  moreover have "item_at d j = Shown p \<Longrightarrow> getElementById d (item_name j) = Some p" for j p
    by (auto simp: item_at_def split: option.splits if_splits)
  ultimately show ?thesis by (cases "item_at d (i + s * int n)") auto
qed

lemma page_nav_up:
  assumes "erase d = erase (page_doc xs)"
  shows "\<exists>fx. nav_up d i = Ret fx"
proof -
  obtain r where r: "NavPrev d (i - 1) = Ret r"
    "\<forall>p. r = Some p \<longrightarrow> (\<exists>j. getElementById d (item_name j) = Some p)"
    using page_nav_loop [OF assms, of "- 1" "i - 1"] unfolding NavPrev_def by auto
  show ?thesis
  proof (cases r)
    case None
    then show ?thesis using r(1) by (simp add: nav_up_def)
  next
    case (Some p)
    then obtain c where "find_children_of d p = Ret c" using page_find_children [OF assms] r(2) by metis
    moreover obtain q where "last_child_loop d (i - 1) (Suc (length (paths d))) 0 p = Ret q"
      using last_child_returns by blast
    ultimately show ?thesis using r(1) Some
      by (simp add: nav_up_def del: last_child_loop.simps)
  qed
qed

lemma page_nav_next:
  assumes "erase d = erase (page_doc xs)"
  shows "\<exists>r. NavNext d i = Ret r"
  using page_nav_loop [OF assms, of 1 i] unfolding NavNext_def by auto

lemma page_nav_down:
  assumes "erase d = erase (page_doc xs)" and "e < length xs"
  shows "\<exists>fx. nav_down d (int e) = Ret fx"
proof -
  obtain p where p: "getElementById d (item_name (int e)) = Some p"
    using page_ids_exist(1) [OF assms(2)] page_lookup(1) [OF assms(1)] by auto
  obtain c where "find_children_of d p = Ret c" using page_find_children [OF assms(1) p] by blast
  moreover obtain r where "NavNext d (int e + 1) = Ret r" using page_nav_next [OF assms(1)] by blast
  ultimately show ?thesis using p by (auto simp: nav_down_def split: option.splits)
qed

lemma page_nav_set_children:
  assumes "erase (document w) = erase (page_doc xs)" and "e < length xs"
  shows "\<exists>w'. nav_set_children v (int e) w = Ret w' \<and> erase (document w') = erase (page_doc xs)"
proof -
  obtain p where p: "getElementById (document w) (item_name (int e)) = Some p"
    using page_ids_exist(1) [OF assms(2)] page_lookup(1) [OF assms(1)] by auto
  obtain c where "find_children_of (document w) p = Ret c" using page_find_children [OF assms(1) p] by blast
  then show ?thesis using p assms(1)
    by (auto simp: nav_set_children_def set_display_at_def erase_upd split: option.splits)
qed

lemma ProcessKeys_document: "document (fst (ProcessKeys k w)) = document w"
  by (simp add: ProcessKeys_def Let_def split: event_type.splits)

lemma page_Nav:
  assumes "erase (document w) = erase (page_doc xs)" and "e < length xs"
  shows "\<exists>w' fx r. Nav k (int e) w = Ret (w', fx, r) \<and> erase (document w') = erase (page_doc xs)"
proof -
  obtain w' go where k: "ProcessKeys k w = (w', go)" by fastforce
  then have w': "erase (document w') = erase (page_doc xs)"
    using ProcessKeys_document [of k w] assms(1) by simp
  obtain fx where "nav_up (document w') (int e) = Ret fx" using page_nav_up [OF w'] by blast
  moreover obtain fy where "nav_down (document w') (int e) = Ret fy" using page_nav_down [OF w' assms(2)] by blast
  moreover obtain u where "nav_set_children (js ''block'') (int e) w' = Ret u" "erase (document u) = erase (page_doc xs)"
    using page_nav_set_children [OF w' assms(2)] by blast
  moreover obtain v where "nav_set_children (js ''none'') (int e) w' = Ret v" "erase (document v) = erase (page_doc xs)"
    using page_nav_set_children [OF w' assms(2)] by blast
  ultimately show ?thesis using k w' assms(1)
    by (cases "keyCode k = 13"; cases go) (auto simp: Nav_def)
qed

lemma page_NavChild:
  assumes "erase (document w) = erase (page_doc xs)" and "e < length xs"
    and "length (links (xs ! e)) \<noteq> 1" and "c < length (links (xs ! e))"
  shows "\<exists>w' fx r. NavChild k (int e) (int c) w = Ret (w', fx, r) \<and> erase (document w') = erase (page_doc xs)"
proof -
  obtain w' go where k: "ProcessKeys k w = (w', go)" by fastforce
  then have w': "erase (document w') = erase (page_doc xs)"
    using ProcessKeys_document [of k w] assms(1) by simp
  note look = page_lookup(1) [OF w']
  have "\<exists>p. getElementById (document w') (if 0 < int c then child_name (int e) (int c - 1) else item_name (int e)) = Some p"
  proof (cases c)
    case 0
    then show ?thesis using page_ids_exist(1) [OF assms(2)] look by simp
  next
    case (Suc b)
    then show ?thesis using page_ids_exist(3) [OF assms(2,3), of b] assms(4) look by simp
  qed
  then obtain p where "getElementById (document w') (if 0 < int c then child_name (int e) (int c - 1) else item_name (int e)) = Some p"
    by blast
  moreover obtain r where "NavNext (document w') (int e + 1) = Ret r" using page_nav_next [OF w'] by blast
  ultimately show ?thesis using k w' assms(1)
    by (auto simp: NavChild_def Let_def split: option.splits)
qed

lemma page_Toggle:
  assumes "erase (document w) = erase (page_doc xs)" and "e < length xs"
  shows "\<exists>w'. Toggle (js ''SR_'' @ entry_id (xs ! e)) w = Ret w' \<and> erase (document w') = erase (page_doc xs)"
proof -
  obtain p where "getElementById (document w) (js ''SR_'' @ entry_id (xs ! e)) = Some p"
    using page_ids_exist(2) [OF assms(2)] page_lookup(1) [OF assms(1)] by auto
  then show ?thesis using assms(1)
    by (auto simp: Toggle_def FindChildElement_eq set_display_at_def erase_upd split: option.splits)
qed

lemma page_Search:
  assumes "erase (document w) = erase (page_doc xs)"
  shows "\<exists>w'. SearchResults_Search lc loc q w = Ret w' \<and> erase (document w') = erase (page_doc xs)"
proof -
  have "getElementById (document w) (js ''Searching'') = Some [0, Suc 0, 0, 3]"
    "getElementById (document w) (js ''NoMatches'') = Some [0, Suc 0, 0, 4]"
    using page_lookup(1) [OF assms] by (auto simp: static_ids_def intro!: page_static)
  from Search_page [OF this, of lc loc q] assms show ?thesis by auto
qed

lemma page_step_safe:
  assumes "erase (document w) = erase (page_doc xs)" and "wired xs v"
  shows "\<exists>w'. page_step lc loc xs v w = Ret w' \<and> erase (document w') = erase (page_doc xs)"
proof (cases v)
  case (Nav_event k e)
  then show ?thesis using page_Nav [OF assms(1), of e k] assms(2) by (auto simp: wired_def page_step_def)
next
  case (NavChild_event k e c)
  then show ?thesis using page_NavChild [OF assms(1), of e c k] assms(2) by (auto simp: wired_def page_step_def)
next
  case (Toggle_event e)
  then show ?thesis using page_Toggle [OF assms(1), of e] assms(2) by (auto simp: wired_def page_step_def)
next
  case (Search_event q)
  then show ?thesis using page_Search [OF assms(1)] by (auto simp: page_step_def)
qed

lemma page_run_safe:
  assumes "erase (document w) = erase (page_doc xs)" and "list_all (wired xs) vs"
  shows "\<exists>w'. page_run lc loc xs vs w = Ret w' \<and> erase (document w') = erase (page_doc xs)"
  using assms
proof (induction vs arbitrary: w)
  case Nil
  then show ?case by simp
next
  case (Cons v vs)
  then obtain u where "page_step lc loc xs v w = Ret u" "erase (document u) = erase (page_doc xs)"
    using page_step_safe [of w xs v lc loc] by auto
  then show ?case using Cons by simp
qed

section \<open>Properties\<close>

text \<open>The text that a search compares names with.\<close>

definition trim :: "jsstring \<Rightarrow> jsstring" where
  "trim q = strip_trailing (strip_leading q)"

definition row_path :: "nat \<Rightarrow> path" where
  "row_path e = results_path @ [e]"

text \<open>The ids that the documentation generator gives the entries of the data files.\<close>

definition entry_ok :: "entry \<Rightarrow> bool" where
  "entry_ok x \<longleftrightarrow>
     list_all is_ascii (entry_name x) \<and> entry_id x = convertToId (map ascii_lower (entry_name x))"

definition lowers_units :: "(jsstring \<Rightarrow> jsstring) \<Rightarrow> bool" where
  "lowers_units lc \<longleftrightarrow> lowers_ascii lc \<and> (\<forall>s. list_all is_unit s \<longrightarrow> list_all is_unit (lc s))"

lemma strip_sr_row: "strip_sr (js ''sr_'' @ s) = s"
  by (simp add: strip_sr_def js_def is_digit_def numeral_2_eq_2)

lemma trim_units: "list_all is_unit q \<Longrightarrow> list_all is_unit (trim q)"
  by (auto simp: trim_def strip_trailing_def strip_leading_def list_all_iff dest!: set_dropWhileD)

lemma search_term_query:
  "list_all is_unit q \<Longrightarrow> search_term lc (63 # escape q) [] = convertToId (lc (trim q))"
  by (simp add: search_term_def trim_def unescape_escape_units)

lemma entry_matches_name:
  assumes "lowers_units lc" and "entry_ok x" and "list_all is_unit q"
  shows "entry_matches lc (convertToId (lc q)) x \<longleftrightarrow> prefix (lc q) (map ascii_lower (entry_name x))"
proof -
  let ?n = "map ascii_lower (entry_name x)"
  have n: "list_all is_ascii (entry_name x)" "entry_id x = convertToId ?n"
    using assms(2) by (simp_all add: entry_ok_def)
  have low: "list_all (\<lambda>c. is_ascii c \<and> ascii_lower c = c) (convertToId ?n)"
    by (rule convertToId_lower [OF n(1)])
  then have "list_all is_ascii (js ''SR_'' @ entry_id x)"
    by (auto simp: n(2) list_all_iff js_def is_ascii_def)
  then have "lc (js ''SR_'' @ entry_id x) = map ascii_lower (js ''SR_'' @ entry_id x)"
    using assms(1) by (simp add: lowers_units_def lowers_ascii_def)
  also have "\<dots> = js ''sr_'' @ convertToId ?n"
    using low by (simp add: n(2) list_all_iff js_def ascii_lower_def [of 83] ascii_lower_def [of 82]
        ascii_lower_def [of 95] map_idI)
  finally have "entry_matches lc (convertToId (lc q)) x \<longleftrightarrow> prefix (convertToId (lc q)) (convertToId ?n)"
    by (simp add: entry_matches_def strip_sr_row)
  moreover have "list_all is_unit ?n"
    using n(1) by (auto simp: list_all_iff is_unit_def is_ascii_def ascii_lower_def)
  ultimately show ?thesis
    using assms(1,3) by (simp add: convertToId_prefix lowers_units_def)
qed

lemma page_get_row: "e < length xs \<Longrightarrow> node_at (page_doc xs) (results_path @ [e]) = Some (result_row e (xs ! e))"
  by (simp add: page_doc_def results_html_def body_nodes_def)

lemma page_row_id:
  assumes "distinct (map entry_id xs)" and "e < length xs"
  shows "getElementById (page_doc xs) (js ''SR_'' @ entry_id (xs ! e)) = Some (results_path @ [e])"
proof -
  obtain el where el: "elem_at (page_doc xs) (results_path @ [e]) = Some el"
    "ident el = js ''SR_'' @ entry_id (xs ! e)"
    using page_row_elem [OF assms(2)] by metis
  show ?thesis
  proof (rule getElementById_unique [OF el])
    fix q el' assume q: "elem_at (page_doc xs) q = Some el'" "ident el' = js ''SR_'' @ entry_id (xs ! e)"
    have "child_name k c \<noteq> js ''SR_'' @ x" for k c x
      by (simp add: child_name_def item_name_def js_def)
    moreover have "(q, ident el') \<notin> set static_ids" using row_ids_differ q(2) by metis
    ultimately obtain e' where e': "e' < length xs" "q = results_path @ [e']"
        "ident el' = js ''SR_'' @ entry_id (xs ! e')"
      using page_elem [OF q(1)] q(2) item_names_differ by (auto dest!: result_row_elem)
    then have "map entry_id xs ! e' = map entry_id xs ! e" using q(2) assms(2) by simp
    then have "e' = e" using nth_eq_iff_index_eq [OF assms(1)] assms(2) e'(1) by (metis length_map)
    then show "q = results_path @ [e]" using e' by simp
  qed (simp)
qed

definition children_path :: "nat \<Rightarrow> path" where
  "children_path e = row_path e @ [0, 1]"

lemma page_FindChildElement:
  assumes "distinct (map entry_id xs)" and "e < length xs" and "erase d = erase (page_doc xs)"
  shows "FindChildElement d (js ''SR_'' @ entry_id (xs ! e)) =
    Ret (if length (links (xs ! e)) = 1 then None else Some (children_path e))"
proof -
  have "FindChildElement d i = FindChildElement (page_doc xs) i" for i
    using assms(3) FindChildElement_erase by metis
  moreover have "first_children_of (results_path @ [e]) 0 (childNodes (result_row e (xs ! e))) =
      (if length (links (xs ! e)) = 1 then None else Some (children_path e))"
  proof (cases "length (links (xs ! e)) = 1")
    case True
    then obtain l where "links (xs ! e) = [l]" by (auto simp: length_Suc_conv)
    then show ?thesis by (simp add: result_row_def result_entry_def symbol_link_def)
  next
    case False
    then show ?thesis
      by (simp add: result_row_def result_entry_many symbol_link_def children_path_def row_path_def)
  qed
  ultimately show ?thesis
    using page_row_id [OF assms(1,2)] page_get_row [OF assms(2)] by (simp add: FindChildElement_eq)
qed

text \<open>
  C11. A results page shows what was searched for. When the page is loaded with a query that the search
  box encoded, every entry's row is displayed if the entry's name starts with the search text,
  upper and lower case taken as equal, and hidden if it does not; the match count is the number of rows displayed
  and the "No Matches" message appears exactly if there are none. No script of the page throws.
\<close>

theorem page_shows_matching_entries:
  assumes "lowers_units lc" and "list_all entry_ok xs" and "list_all is_unit q"
  shows "\<exists>w. load_page lc xs (63 # escape q) = Ret w \<and>
    (\<forall>e<length xs. display_of (document w) (row_path e) =
       (if prefix (lc (trim q)) (map ascii_lower (entry_name (xs ! e))) then js ''block'' else js ''none'')) \<and>
    lastMatchCount w =
      length (filter (\<lambda>x. prefix (lc (trim q)) (map ascii_lower (entry_name x))) xs) \<and>
    (display_of (document w) [0, 1, 0, 4] = js ''block'' \<longleftrightarrow> lastMatchCount w = 0)"
proof -
  obtain w where w: "load_page lc xs (63 # escape q) = Ret w"
    "\<And>e. e < length xs \<Longrightarrow> display_of (document w) (results_path @ [e]) =
       (if entry_matches lc (search_term lc (63 # escape q) []) (xs ! e) then js ''block'' else js ''none'')"
    "lastMatchCount w = length (filter (entry_matches lc (search_term lc (63 # escape q) [])) xs)"
    "display_of (document w) [0, Suc 0, 0, 4] = (if lastMatchCount w = 0 then js ''block'' else js ''none'')"
    using load_page_eq by metis
  have m: "entry_matches lc (search_term lc (63 # escape q) []) x \<longleftrightarrow>
      prefix (lc (trim q)) (map ascii_lower (entry_name x))" if "x \<in> set xs" for x
    using entry_matches_name [OF assms(1) _ trim_units [OF assms(3)]] assms(2) that
    by (simp add: search_term_query [OF assms(3)] list_all_iff)
  then have "filter (entry_matches lc (search_term lc (63 # escape q) [])) xs =
      filter (\<lambda>x. prefix (lc (trim q)) (map ascii_lower (entry_name x))) xs"
    by (auto intro: filter_cong)
  then show ?thesis using w m by (intro exI [of _ w]) (simp add: row_path_def)
qed

definition sample_data :: "entry list" where
  "sample_data =
     [\<lparr>entry_id = js ''accept'', entry_name = js ''accept'',
       links = [\<lparr>url = js ''../s.html#accept'', in_parent = True, scope = js ''fiberio::server_socket''\<rparr>]\<rparr>,
      \<lparr>entry_id = js ''address_5ferror'', entry_name = js ''address_error'',
       links = [\<lparr>url = js ''../e.html'', in_parent = True, scope = js ''fiberio''\<rparr>,
                \<lparr>url = js ''../e.html#c'', in_parent = True, scope = js ''fiberio::address_error''\<rparr>]\<rparr>,
      \<lparr>entry_id = js ''all_2ehpp'', entry_name = js ''all.hpp'',
       links = [\<lparr>url = js ''../all_8hpp.html'', in_parent = True, scope = []\<rparr>]\<rparr>]"

lemma sample_data_ok: "list_all entry_ok sample_data"
  by (simp add: sample_data_def entry_ok_def js_def is_ascii_def convertToId_def convert_char_def
      id_char_def ascii_lower_def to_string16.simps hex_digit_def)

lemma map_lower_units: "lowers_units (map ascii_lower)"
  by (auto simp: lowers_units_def lowers_ascii_def list_all_iff is_unit_def ascii_lower_def)

theorem page_shows_matching_entries_witness:
  "\<exists>w. load_page (map ascii_lower) sample_data (63 # escape (js ''Add'')) = Ret w \<and>
     display_of (document w) (row_path 0) = js ''none'' \<and>
     display_of (document w) (row_path 1) = js ''block'' \<and> lastMatchCount w = 1"
proof -
  have u: "list_all is_unit (js ''Add'')" by (simp add: js_def is_unit_def)
  have t: "map ascii_lower (trim (js ''Add'')) = js ''add''"
    by (simp add: trim_def strip_leading_def strip_trailing_def js_def ascii_lower_def)
  have n: "length sample_data = 3"
    "\<not> prefix (js ''add'') (map ascii_lower (entry_name (sample_data ! 0)))"
    "prefix (js ''add'') (map ascii_lower (entry_name (sample_data ! 1)))"
    "length (filter (\<lambda>x. prefix (js ''add'') (map ascii_lower (entry_name x))) sample_data) = 1"
    by (simp_all add: sample_data_def js_def ascii_lower_def)
  show ?thesis
    using page_shows_matching_entries [OF map_lower_units sample_data_ok u] t n by auto
qed

text \<open>
  C12. A results page keeps working. Whatever calls its links make, in whatever order and with
  whatever key events (each symbol link and each child link with its own indices, the link of an
  entry with several results its own toggle, and searches from outside), no call raises a
  \<open>TypeError\<close> or loops for ever, and all that the calls change of the document is which elements are displayed.
\<close>

theorem handlers_never_throw:
  assumes "load_page lc xs loc = Ret w" and "list_all (wired xs) vs"
  shows "\<exists>w'. page_run lc loc xs vs w = Ret w' \<and> erase (document w') = erase (document w)"
proof -
  obtain u where "load_page lc xs loc = Ret u" "erase (document u) = erase (page_doc xs)"
    using load_page_eq by metis
  then have "erase (document w) = erase (page_doc xs)" using assms(1) by simp
  then show ?thesis using page_run_safe [OF _ assms(2)] by metis
qed

theorem handlers_never_throw_witness:
  "\<exists>w w'. load_page (map ascii_lower) sample_data (js ''?a'') = Ret w \<and>
     page_run (map ascii_lower) (js ''?a'') sample_data
       [Nav_event \<lparr>etype = Keydown, keyCode = 40, shiftKey = False\<rparr> 0, Toggle_event 1,
        Nav_event \<lparr>etype = Keydown, keyCode = 38, shiftKey = False\<rparr> 2,
        NavChild_event \<lparr>etype = Keydown, keyCode = 38, shiftKey = False\<rparr> 1 1, Search_event (js ''al'')] w = Ret w'"
proof -
  let ?vs = "[Nav_event \<lparr>etype = Keydown, keyCode = 40, shiftKey = False\<rparr> 0, Toggle_event 1,
        Nav_event \<lparr>etype = Keydown, keyCode = 38, shiftKey = False\<rparr> 2,
        NavChild_event \<lparr>etype = Keydown, keyCode = 38, shiftKey = False\<rparr> 1 1, Search_event (js ''al'')]"
  have "list_all (wired sample_data) ?vs" by (simp add: wired_def sample_data_def)
  moreover obtain w where "load_page (map ascii_lower) sample_data (js ''?a'') = Ret w"
    using load_page_eq by metis
  ultimately show ?thesis using handlers_never_throw by metis
qed

text \<open>
  On a page whose entries have distinct ids, whatever was called before, \<open>Toggle\<close> of an entry with several
  results shows that entry's children if they are not displayed and hides them if they are, and
  changes nothing else; of an entry with a single result it changes nothing.
\<close>

theorem toggle_flips_children:
  assumes "load_page lc xs loc = Ret w0" and "list_all (wired xs) vs" and "page_run lc loc xs vs w0 = Ret w"
    and "distinct (map entry_id xs)" and "e < length xs"
  shows "\<exists>w'. Toggle (js ''SR_'' @ entry_id (xs ! e)) w = Ret w' \<and>
    (if length (links (xs ! e)) = 1 then w' = w
     else (display_of (document w') (children_path e) = js ''block'' \<longleftrightarrow>
           display_of (document w) (children_path e) \<noteq> js ''block'') \<and>
          (\<forall>p. p \<noteq> children_path e \<longrightarrow> elem_at (document w') p = elem_at (document w) p))"
proof -
  obtain u where "load_page lc xs loc = Ret u" "erase (document u) = erase (page_doc xs)"
    using load_page_eq by metis
  then have "erase (document w0) = erase (page_doc xs)" using assms(1) by simp
  from page_run_safe [OF this assms(2), of lc loc] have er: "erase (document w) = erase (page_doc xs)"
    using assms(3) by auto
  note f = page_FindChildElement [OF assms(4,5) er]
  show ?thesis
  proof (cases "length (links (xs ! e)) = 1")
    case True
    then show ?thesis using f by (simp add: Toggle_def)
  next
    case False
    then have "\<exists>el. elem_at (page_doc xs) (results_path @ e # [0, Suc 0]) = Some el"
      using page_row [OF assms(5), of "[0, Suc 0]"] by (simp add: result_row_def result_entry_many)
    then obtain el where "elem_at (document w) (children_path e) = Some el"
      using erased_elem_back [OF er] by (fastforce simp: children_path_def row_path_def)
    then show ?thesis using f False
      by (auto simp: Toggle_def set_display_at_def display_of_def elem_at_upd)
  qed
qed

theorem toggle_flips_children_witness:
  "\<exists>w w'. load_page (map ascii_lower) sample_data (js ''?a'') = Ret w \<and>
     Toggle (js ''SR_address_5ferror'') w = Ret w' \<and>
     (display_of (document w') (children_path 1) = js ''block'' \<longleftrightarrow>
      display_of (document w) (children_path 1) \<noteq> js ''block'')"
proof -
  obtain w where w: "load_page (map ascii_lower) sample_data (js ''?a'') = Ret w"
    using load_page_eq by metis
  have "page_run (map ascii_lower) (js ''?a'') sample_data [] w = Ret w" "list_all (wired sample_data) []"
    by simp_all
  moreover have "distinct (map entry_id sample_data)" "1 < length sample_data"
    "length (links (sample_data ! 1)) \<noteq> 1"
    "js ''SR_'' @ entry_id (sample_data ! 1) = js ''SR_address_5ferror''"
    by (simp_all add: sample_data_def) (simp add: js_def)
  ultimately show ?thesis using toggle_flips_children [OF w, of "[]" w 1] w by auto
qed

end
