(* ===== verification/SearchIndex.thy ===== *)
theory SearchIndex
  imports SearchBox ResultsPage
begin

text \<open>
  The search as a whole, from the text in the panel's field to the rows of the results page. A
  section of the index has a string of first characters (\<open>indexSectionsWithContent\<close> of
  \<open>docs/html/search/searchdata.js\<close>) and, for each of them, a results page with its data file. The panel picks
  the page by the first character, the page filters its entries by the whole text; together they find
  an entry if it is in the page of its own first character.
\<close>

section \<open>The index\<close>

definition page_url :: "search_env \<Rightarrow> jsstring \<Rightarrow> nat \<Rightarrow> nat \<Rightarrow> jsstring" where
  "page_url env path i j = path @ js ''/'' @ section_name env i @ js ''_'' @ to_string16 j @ js ''.html''"

definition first_char :: "entry \<Rightarrow> code_unit option" where
  "first_char x = (case entry_name x of [] \<Rightarrow> None | c # _ \<Rightarrow> Some (ascii_lower c))"

definition filed :: "code_unit \<Rightarrow> entry \<Rightarrow> bool" where
  "filed c x \<longleftrightarrow> entry_ok x \<and> first_char x = Some c"

section \<open>Looking up the page\<close>

lemma index_of_char:
  assumes "distinct s" and "j < length s"
  shows "index_of_from k s [s ! j] = int (k + j)"
  using assms
proof (induction s arbitrary: j k)
  case Nil
  then show ?case by simp
next
  case (Cons c s)
  then show ?case by (cases j) (auto simp: nth_eq_iff_index_eq)
qed

lemma index_of_absent: "c \<notin> set s \<Longrightarrow> index_of_from k s [c] = - 1"
  by (induction s arbitrary: k) auto

lemma index_char_ascii:
  assumes "lowers_ascii (to_lower env)" and "list_all is_ascii (c # s)"
  shows "index_char env (c # s) = [ascii_lower c]"
proof -
  have "to_lower env (c # s) = ascii_lower c # map ascii_lower s" "to_lower env [c] = [ascii_lower c]"
    using assms by (auto simp: lowers_ascii_def)
  moreover have "ascii_lower c < 128" using assms(2) ascii_lower_bounds(1) by (simp add: is_ascii_def)
  ultimately show ?thesis by (simp add: index_char_def)
qed

lemma results_pages_found:
  assumes "lowers_ascii (to_lower env)" and "list_all is_ascii (c # s)"
    and "i < length (indexSectionsWithContent env)" and "distinct (indexSectionsWithContent env ! i)"
    and "j < length (indexSectionsWithContent env ! i)" and "indexSectionsWithContent env ! i ! j = ascii_lower c"
  shows "results_pages env path i (c # s) = Some (page_url env path i j, page_url env path i j @ 63 # escape (c # s))"
proof -
  have "index_of (indexSectionsWithContent env ! i) (index_char env (c # s)) = int j"
    using index_of_char [OF assms(4,5), of 0] assms(6) index_char_ascii [OF assms(1,2)] by (simp add: index_of_def)
  then show ?thesis using assms(3) by (simp add: results_pages_def Let_def page_url_def) (simp add: js_def)
qed

lemma results_pages_absent:
  assumes "lowers_ascii (to_lower env)" and "list_all is_ascii (c # s)"
    and "i < length (indexSectionsWithContent env)" and "ascii_lower c \<notin> set (indexSectionsWithContent env ! i)"
  shows "results_pages env path i (c # s) = Some (path @ js ''/nomatches.html'', path @ js ''/nomatches.html'')"
  using assms index_of_absent [OF assms(4)] index_char_ascii [OF assms(1,2)]
  by (simp add: results_pages_def Let_def index_of_def)

lemma strip_leading_idem: "strip_leading (strip_leading q) = strip_leading q"
  by (simp add: strip_leading_def dropWhile_idem)

lemma trim_first:
  assumes "trim q = c # s"
  obtains t where "strip_leading q = c # t"
proof (cases "strip_leading q")
  case Nil
  then show ?thesis using assms by (simp add: trim_def strip_trailing_def)
next
  case (Cons d t)
  then have "d \<noteq> 32" unfolding strip_leading_def by (metis (full_types) dropWhile_eq_Cons_conv)
  have "prefix (trim q) (strip_leading q)"
    unfolding trim_def strip_trailing_def
    by (metis rev_rev_ident suffix_dropWhile suffix_to_prefix)
  then show ?thesis using assms Cons that by simp
qed

lemma prefix_hd: "prefix (c # s) t \<Longrightarrow> \<exists>u. t = c # u"
  by (auto simp: prefix_def)

section \<open>Finding an entry\<close>

text \<open>
  An entry in the page of its first character is found by every prefix of its name.
\<close>

lemma search_finds_entry:
  assumes lc: "lowers_units (to_lower env)" and q: "list_all is_ascii q" "trim q \<noteq> []"
    and i: "i < length (indexSectionsWithContent env)" "distinct (indexSectionsWithContent env ! i)"
    and j: "j < length (indexSectionsWithContent env ! i)"
    and e: "e < length xs" "filed (indexSectionsWithContent env ! i ! j) (xs ! e)"
    and p: "prefix (map ascii_lower (trim q)) (map ascii_lower (entry_name (xs ! e)))"
  shows "\<exists>w. results_pages env path i (strip_leading q) =
      Some (page_url env path i j, page_url env path i j @ 63 # escape (strip_leading q)) \<and>
    load_page (to_lower env) xs (63 # escape (strip_leading q)) = Ret w \<and>
    display_of (document w) (row_path e) = js ''block''"
proof -
  obtain c s where cs: "trim q = c # s" using q(2) by (cases "trim q") auto
  obtain t where t: "strip_leading q = c # t" using trim_first [OF cs] .
  have ascii: "list_all is_ascii (strip_leading q)" "list_all is_ascii (trim q)"
    using q(1) by (auto simp: trim_def strip_leading_def strip_trailing_def list_all_iff dest!: set_dropWhileD)
  have "prefix (ascii_lower c # map ascii_lower s) (map ascii_lower (entry_name (xs ! e)))"
    using p cs by simp
  from prefix_hd [OF this] obtain b u where "entry_name (xs ! e) = b # u" "ascii_lower b = ascii_lower c"
    by (cases "entry_name (xs ! e)") auto
  then have c: "indexSectionsWithContent env ! i ! j = ascii_lower c"
    using e(2) by (simp add: filed_def first_char_def)
  have pages: "results_pages env path i (strip_leading q) =
      Some (page_url env path i j, page_url env path i j @ 63 # escape (strip_leading q))"
    using results_pages_found [OF _ _ i j c] lc ascii(1) unfolding t by (simp add: lowers_units_def)
  obtain w where w: "load_page (to_lower env) xs (63 # escape (strip_leading q)) = Ret w"
    "display_of (document w) (results_path @ [e]) =
      (if entry_matches (to_lower env) (search_term (to_lower env) (63 # escape (strip_leading q)) []) (xs ! e)
       then js ''block'' else js ''none'')"
    using load_page_eq [of "to_lower env" xs "63 # escape (strip_leading q)"] e(1) by metis
  have units: "list_all is_unit (strip_leading q)" "list_all is_unit (trim q)"
    using ascii by (auto simp: list_all_iff is_ascii_def is_unit_def)
  have "to_lower env (trim q) = map ascii_lower (trim q)"
    using lc ascii(2) by (simp add: lowers_units_def lowers_ascii_def)
  then have "entry_matches (to_lower env) (convertToId (to_lower env (trim q))) (xs ! e)"
    using entry_matches_name [OF lc _ units(2)] e(2) p by (simp add: filed_def)
  moreover have "trim (strip_leading q) = trim q" by (simp add: trim_def strip_leading_idem)
  ultimately have "display_of (document w) (results_path @ [e]) = js ''block''"
    using w(2) by (simp add: search_term_query [OF units(1)])
  then show ?thesis using pages w(1) by (auto simp: row_path_def)
qed

section \<open>Properties\<close>

text \<open>
  C39. A query survives the URL. When the panel sends the results frame to a results page, the
  address is the page's followed by a query without any character that would end or split
  it, and the search term that the page recovers from the query is the id of the text,
  trimmed and in lower case, for every text of UTF-16 code units.
\<close>

theorem query_survives_url:
  assumes "list_all is_unit v" and "results_pages env path i v = Some (page, loc)" and "loc \<noteq> page"
  shows "\<exists>query. loc = page @ js ''?'' @ query \<and> set query \<inter> set (js ''?#& '') = {} \<and>
    search_term lc (js ''?'' @ query) [] = convertToId (lc (trim v))"
proof -
  have "loc = page @ js ''?'' @ escape v"
    using assms(2,3) by (auto simp: results_pages_def Let_def split: if_splits)
  moreover have "search_term lc (js ''?'' @ escape v) [] = convertToId (lc (trim v))"
    using search_term_query [OF assms(1), of lc] by (simp add: js_def)
  ultimately show ?thesis using escape_query_safe [OF assms(1)] by blast
qed

theorem query_survives_url_witness:
  "\<exists>query. js ''search/all_e.html?%7ES%20'' = js ''search/all_e.html'' @ js ''?'' @ query \<and>
     search_term (map ascii_lower) (js ''?'' @ query) [] = js ''_7es''"
proof -
  let ?env = "fiberio_env (map ascii_lower) (\<lambda>s. True)"
  have u: "list_all is_unit (js ''~S '')" by (simp add: js_def is_unit_def)
  have "index_of (indexSectionsWithContent ?env ! 0) (index_char ?env (js ''~S '')) = 14"
    by (simp add: fiberio_env_def index_char_def js_def ascii_lower_def index_of_def)
  moreover have "section_name ?env 0 = js ''all''" by (simp add: section_name_def fiberio_env_def)
  moreover have "0 < length (indexSectionsWithContent ?env)" by (simp add: fiberio_env_def)
  moreover have "to_string16 14 = js ''e''" by (simp add: to_string16.simps hex_digit_def js_def)
  moreover have "escape (js ''~S '') = js ''%7ES%20''"
    by (simp add: escape_def escape_char_def escape_safe_def upper_hex_digit_def js_def)
  ultimately have r: "results_pages ?env (js ''search'') 0 (js ''~S '') =
      Some (js ''search/all_e.html'', js ''search/all_e.html?%7ES%20'')"
    by (simp add: results_pages_def Let_def) (simp add: js_def)
  have "convertToId (map ascii_lower (trim (js ''~S ''))) = js ''_7es''"
    by (simp add: trim_def strip_leading_def strip_trailing_def js_def ascii_lower_def convertToId_def
        convert_char_def id_char_def to_string16.simps hex_digit_def)
  then show ?thesis using query_survives_url [OF u r, of "map ascii_lower"] by auto
qed

end
