(* ===== verification/SearchData.thy ===== *)
theory SearchData
  imports SearchIndex
begin

text \<open>
  The data files of the documentation search, \<open>docs/html/search/<section>_<n>.js\<close>: one list of
  entries for each first character of each section of the index. Ids and names are what the search works on.
\<close>

definition lnk :: "string \<Rightarrow> string \<Rightarrow> link" where
  "lnk u s = \<lparr>url = js u, in_parent = True, scope = js s\<rparr>"

definition ent :: "string \<Rightarrow> string \<Rightarrow> link list \<Rightarrow> entry" where
  "ent i n ls = \<lparr>entry_id = js i, entry_name = js n, links = ls\<rparr>"

section \<open>The data files\<close>

definition data_all_0 :: "entry list" where
  "data_all_0 =
    [ent ''accept'' ''accept''
       [lnk ''../classfiberio_1_1server__socket.html#ae443cd26c283102a8e32aaa44e518bbe'' ''fiberio::server_socket''],
     ent ''address_5ffamily_5fnot_5fsupported_5ferror'' ''address_family_not_supported_error''
       [lnk ''../classfiberio_1_1address__family__not__supported__error.html'' ''fiberio::address_family_not_supported_error'',
        lnk ''../classfiberio_1_1address__family__not__supported__error.html#a053e23672b69f4d28d46ee00ffe65248'' ''fiberio::address_family_not_supported_error::address_family_not_supported_error()''],
     ent ''all_2ehpp'' ''all.hpp''
       [lnk ''../all_8hpp.html'' '''']]"

definition data_all_1 :: "entry list" where
  "data_all_1 =
    [ent ''bind'' ''bind''
       [lnk ''../classfiberio_1_1server__socket.html#a40a48d251718ae31d5c3f513904aa2f8'' ''fiberio::server_socket'']]"

definition data_all_2 :: "entry list" where
  "data_all_2 =
    [ent ''close'' ''close''
       [lnk ''../classfiberio_1_1detail_1_1socket__device.html#a12e21e41f72e85a92336a89a9c943004'' ''fiberio::detail::socket_device::close()'',
        lnk ''../classfiberio_1_1server__socket.html#adea9be2287382df832381efd4ee7e720'' ''fiberio::server_socket::close()'',
        lnk ''../classfiberio_1_1socket.html#a0bfc24418859bd2a1845ea6b5733a568'' ''fiberio::socket::close()''],
     ent ''connect'' ''connect''
       [lnk ''../classfiberio_1_1socket.html#aca5aa4d6b61abd6806d8a84fce3e11c5'' ''fiberio::socket'']]"

definition data_all_3 :: "entry list" where
  "data_all_3 =
    [ent ''default_5fbuf_5fsize'' ''DEFAULT_BUF_SIZE''
       [lnk ''../classfiberio_1_1socket.html#a7e5d7a51cf2f07adccd015efe00b55e7'' ''fiberio::socket'']]"

definition data_all_4 :: "entry list" where
  "data_all_4 =
    [ent ''exceptions_2ehpp'' ''exceptions.hpp''
       [lnk ''../exceptions_8hpp.html'' '''']]"

definition data_all_5 :: "entry list" where
  "data_all_5 =
    [ent ''detail'' ''detail''
       [lnk ''../namespacefiberio_1_1detail.html'' ''fiberio''],
     ent ''fiberio'' ''fiberio''
       [lnk ''../namespacefiberio.html'' ''''],
     ent ''fiberio_2ehpp'' ''fiberio.hpp''
       [lnk ''../fiberio_8hpp.html'' '''']]"

definition data_all_6 :: "entry list" where
  "data_all_6 =
    [ent ''get_5fhost'' ''get_host''
       [lnk ''../classfiberio_1_1server__socket.html#adf7ddc4115714eebcfc17f763f4ad209'' ''fiberio::server_socket''],
     ent ''get_5fport'' ''get_port''
       [lnk ''../classfiberio_1_1server__socket.html#a1663e59957aa18781d9f310329588db1'' ''fiberio::server_socket'']]"

definition data_all_7 :: "entry list" where
  "data_all_7 =
    [ent ''io_5ferror'' ''io_error''
       [lnk ''../classfiberio_1_1io__error.html'' ''fiberio::io_error'',
        lnk ''../classfiberio_1_1io__error.html#aa42972b5f78c883e873118536e3e0f5a'' ''fiberio::io_error::io_error()''],
     ent ''iostream_2ehpp'' ''iostream.hpp''
       [lnk ''../iostream_8hpp.html'' ''''],
     ent ''is_5fopen'' ''is_open''
       [lnk ''../classfiberio_1_1socket.html#a4448735cbcea844127703c19d67cd7ca'' ''fiberio::socket'']]"

definition data_all_8 :: "entry list" where
  "data_all_8 =
    [ent ''listen'' ''listen''
       [lnk ''../classfiberio_1_1server__socket.html#a429d89bc531192da15f5d62276dec905'' ''fiberio::server_socket'']]"

definition data_all_9 :: "entry list" where
  "data_all_9 =
    [ent ''overview'' ''Overview''
       [lnk ''../index.html'' ''''],
     ent ''operator_3d'' ''operator=''
       [lnk ''../classfiberio_1_1socket.html#a1a2d41a3e3f54a333072f129bcba1de5'' ''fiberio::socket::operator=(const socket &amp;other)'',
        lnk ''../classfiberio_1_1socket.html#a66e4e08e5d266bef0cbcabd87147765d'' ''fiberio::socket::operator=(socket &amp;&amp;other)'']]"

definition data_all_a :: "entry list" where
  "data_all_a =
    [ent ''read'' ''read''
       [lnk ''../classfiberio_1_1detail_1_1socket__device.html#afdc8eba74b6c2a3618bbf1afd31d5c0c'' ''fiberio::detail::socket_device::read()'',
        lnk ''../classfiberio_1_1socket.html#afbfbe04fee1e7f55c0b870bc6d129c38'' ''fiberio::socket::read()''],
     ent ''read_5fexactly'' ''read_exactly''
       [lnk ''../classfiberio_1_1socket.html#a9afd6baa492153689a923c22ec0d3039'' ''fiberio::socket''],
     ent ''read_5fstring'' ''read_string''
       [lnk ''../classfiberio_1_1socket.html#a61e92bf69b4cbc6541c5246ee9214e65'' ''fiberio::socket''],
     ent ''read_5fstring_5fexactly'' ''read_string_exactly''
       [lnk ''../classfiberio_1_1socket.html#ae7308a0269bdf33366e62659b4560dd0'' ''fiberio::socket'']]"

definition data_all_b :: "entry list" where
  "data_all_b =
    [ent ''server_5fsocket'' ''server_socket''
       [lnk ''../classfiberio_1_1server__socket.html'' ''fiberio::server_socket'',
        lnk ''../classfiberio_1_1server__socket.html#a6e8960e2d62d1e6c50cb2bc5672413df'' ''fiberio::server_socket::server_socket()'',
        lnk ''../classfiberio_1_1server__socket.html#aa7782a82d490a3d9bc9b3310091b79ad'' ''fiberio::server_socket::server_socket(server_socket &amp;&amp;other)''],
     ent ''server_5fsocket_2ehpp'' ''server_socket.hpp''
       [lnk ''../server__socket_8hpp.html'' ''''],
     ent ''socket'' ''socket''
       [lnk ''../classfiberio_1_1socket.html'' ''fiberio::socket'',
        lnk ''../classfiberio_1_1socket.html#adbaccae287437cbffea61ef63a5b335a'' ''fiberio::socket::socket()'',
        lnk ''../classfiberio_1_1socket.html#a3505d5b5442fbab659a03171c8c1380f'' ''fiberio::socket::socket(const socket &amp;)'',
        lnk ''../classfiberio_1_1socket.html#aef55e2d6e511de134c1765042688c4eb'' ''fiberio::socket::socket(socket &amp;&amp;)'',
        lnk ''../classfiberio_1_1socket.html#ae698291add8203878d9367d539c2077f'' ''fiberio::socket::socket(std::shared_ptr&lt; socket_impl &gt; &amp;&amp;impl)''],
     ent ''socket_2ehpp'' ''socket.hpp''
       [lnk ''../socket_8hpp.html'' ''''],
     ent ''socket_5fclosed_5ferror'' ''socket_closed_error''
       [lnk ''../classfiberio_1_1socket__closed__error.html'' ''fiberio::socket_closed_error'',
        lnk ''../classfiberio_1_1socket__closed__error.html#a1dd438e328c22f7f3da09aae8bca60b0'' ''fiberio::socket_closed_error::socket_closed_error()''],
     ent ''socket_5fdevice'' ''socket_device''
       [lnk ''../classfiberio_1_1detail_1_1socket__device.html'' ''fiberio::detail::socket_device'',
        lnk ''../classfiberio_1_1detail_1_1socket__device.html#a11c605ec89c6e0225859ec2757f84c94'' ''fiberio::detail::socket_device::socket_device()''],
     ent ''socket_5fstream'' ''socket_stream''
       [lnk ''../namespacefiberio.html#a334505dc79d8951a1db4c0543505d855'' ''fiberio''],
     ent ''socket_5fstreambuf'' ''socket_streambuf''
       [lnk ''../namespacefiberio.html#aaddb547a03a494fbb2730f2c6ee74f48'' ''fiberio'']]"

definition data_all_c :: "entry list" where
  "data_all_c =
    [ent ''use_5fon_5fthis_5fthread'' ''use_on_this_thread''
       [lnk ''../namespacefiberio.html#aaab0fbbbddd380677ff818cff5b5c367'' ''fiberio'']]"

definition data_all_d :: "entry list" where
  "data_all_d =
    [ent ''write'' ''write''
       [lnk ''../classfiberio_1_1detail_1_1socket__device.html#afa636fb67d498b5d33f05a59916cec64'' ''fiberio::detail::socket_device::write()'',
        lnk ''../classfiberio_1_1socket.html#a315c9f1e079e9597bc64437f890b6e54'' ''fiberio::socket::write(const char *data, std::size_t len)'',
        lnk ''../classfiberio_1_1socket.html#a02cdf65aa88d42f00dd37dd3608403c5'' ''fiberio::socket::write(const std::string &amp;data)'']]"

definition data_all_e :: "entry list" where
  "data_all_e =
    [ent ''_7eserver_5fsocket'' ''~server_socket''
       [lnk ''../classfiberio_1_1server__socket.html#a7d6f9397e7a6bd045aee1d63973a05d9'' ''fiberio::server_socket''],
     ent ''_7esocket'' ''~socket''
       [lnk ''../classfiberio_1_1socket.html#aaa34d82a9c8cb70e9fa8bdeffe44e80e'' ''fiberio::socket'']]"

definition data_classes_0 :: "entry list" where
  "data_classes_0 =
    [ent ''address_5ffamily_5fnot_5fsupported_5ferror'' ''address_family_not_supported_error''
       [lnk ''../classfiberio_1_1address__family__not__supported__error.html'' ''fiberio'']]"

definition data_classes_1 :: "entry list" where
  "data_classes_1 =
    [ent ''io_5ferror'' ''io_error''
       [lnk ''../classfiberio_1_1io__error.html'' ''fiberio'']]"

definition data_classes_2 :: "entry list" where
  "data_classes_2 =
    [ent ''server_5fsocket'' ''server_socket''
       [lnk ''../classfiberio_1_1server__socket.html'' ''fiberio''],
     ent ''socket'' ''socket''
       [lnk ''../classfiberio_1_1socket.html'' ''fiberio''],
     ent ''socket_5fclosed_5ferror'' ''socket_closed_error''
       [lnk ''../classfiberio_1_1socket__closed__error.html'' ''fiberio''],
     ent ''socket_5fdevice'' ''socket_device''
       [lnk ''../classfiberio_1_1detail_1_1socket__device.html'' ''fiberio::detail'']]"

definition data_namespaces_0 :: "entry list" where
  "data_namespaces_0 =
    [ent ''detail'' ''detail''
       [lnk ''../namespacefiberio_1_1detail.html'' ''fiberio''],
     ent ''fiberio'' ''fiberio''
       [lnk ''../namespacefiberio.html'' '''']]"

definition data_files_0 :: "entry list" where
  "data_files_0 =
    [ent ''all_2ehpp'' ''all.hpp''
       [lnk ''../all_8hpp.html'' '''']]"

definition data_files_1 :: "entry list" where
  "data_files_1 =
    [ent ''exceptions_2ehpp'' ''exceptions.hpp''
       [lnk ''../exceptions_8hpp.html'' '''']]"

definition data_files_2 :: "entry list" where
  "data_files_2 =
    [ent ''fiberio_2ehpp'' ''fiberio.hpp''
       [lnk ''../fiberio_8hpp.html'' '''']]"

definition data_files_3 :: "entry list" where
  "data_files_3 =
    [ent ''iostream_2ehpp'' ''iostream.hpp''
       [lnk ''../iostream_8hpp.html'' '''']]"

definition data_files_4 :: "entry list" where
  "data_files_4 =
    [ent ''server_5fsocket_2ehpp'' ''server_socket.hpp''
       [lnk ''../server__socket_8hpp.html'' ''''],
     ent ''socket_2ehpp'' ''socket.hpp''
       [lnk ''../socket_8hpp.html'' '''']]"

definition data_functions_0 :: "entry list" where
  "data_functions_0 =
    [ent ''accept'' ''accept''
       [lnk ''../classfiberio_1_1server__socket.html#ae443cd26c283102a8e32aaa44e518bbe'' ''fiberio::server_socket''],
     ent ''address_5ffamily_5fnot_5fsupported_5ferror'' ''address_family_not_supported_error''
       [lnk ''../classfiberio_1_1address__family__not__supported__error.html#a053e23672b69f4d28d46ee00ffe65248'' ''fiberio::address_family_not_supported_error'']]"

definition data_functions_1 :: "entry list" where
  "data_functions_1 =
    [ent ''bind'' ''bind''
       [lnk ''../classfiberio_1_1server__socket.html#a40a48d251718ae31d5c3f513904aa2f8'' ''fiberio::server_socket'']]"

definition data_functions_2 :: "entry list" where
  "data_functions_2 =
    [ent ''close'' ''close''
       [lnk ''../classfiberio_1_1detail_1_1socket__device.html#a12e21e41f72e85a92336a89a9c943004'' ''fiberio::detail::socket_device::close()'',
        lnk ''../classfiberio_1_1server__socket.html#adea9be2287382df832381efd4ee7e720'' ''fiberio::server_socket::close()'',
        lnk ''../classfiberio_1_1socket.html#a0bfc24418859bd2a1845ea6b5733a568'' ''fiberio::socket::close()''],
     ent ''connect'' ''connect''
       [lnk ''../classfiberio_1_1socket.html#aca5aa4d6b61abd6806d8a84fce3e11c5'' ''fiberio::socket'']]"

definition data_functions_3 :: "entry list" where
  "data_functions_3 =
    [ent ''get_5fhost'' ''get_host''
       [lnk ''../classfiberio_1_1server__socket.html#adf7ddc4115714eebcfc17f763f4ad209'' ''fiberio::server_socket''],
     ent ''get_5fport'' ''get_port''
       [lnk ''../classfiberio_1_1server__socket.html#a1663e59957aa18781d9f310329588db1'' ''fiberio::server_socket'']]"

definition data_functions_4 :: "entry list" where
  "data_functions_4 =
    [ent ''io_5ferror'' ''io_error''
       [lnk ''../classfiberio_1_1io__error.html#aa42972b5f78c883e873118536e3e0f5a'' ''fiberio::io_error''],
     ent ''is_5fopen'' ''is_open''
       [lnk ''../classfiberio_1_1socket.html#a4448735cbcea844127703c19d67cd7ca'' ''fiberio::socket'']]"

definition data_functions_5 :: "entry list" where
  "data_functions_5 =
    [ent ''listen'' ''listen''
       [lnk ''../classfiberio_1_1server__socket.html#a429d89bc531192da15f5d62276dec905'' ''fiberio::server_socket'']]"

definition data_functions_6 :: "entry list" where
  "data_functions_6 =
    [ent ''operator_3d'' ''operator=''
       [lnk ''../classfiberio_1_1socket.html#a1a2d41a3e3f54a333072f129bcba1de5'' ''fiberio::socket::operator=(const socket &amp;other)'',
        lnk ''../classfiberio_1_1socket.html#a66e4e08e5d266bef0cbcabd87147765d'' ''fiberio::socket::operator=(socket &amp;&amp;other)'']]"

definition data_functions_7 :: "entry list" where
  "data_functions_7 =
    [ent ''read'' ''read''
       [lnk ''../classfiberio_1_1detail_1_1socket__device.html#afdc8eba74b6c2a3618bbf1afd31d5c0c'' ''fiberio::detail::socket_device::read()'',
        lnk ''../classfiberio_1_1socket.html#afbfbe04fee1e7f55c0b870bc6d129c38'' ''fiberio::socket::read()''],
     ent ''read_5fexactly'' ''read_exactly''
       [lnk ''../classfiberio_1_1socket.html#a9afd6baa492153689a923c22ec0d3039'' ''fiberio::socket''],
     ent ''read_5fstring'' ''read_string''
       [lnk ''../classfiberio_1_1socket.html#a61e92bf69b4cbc6541c5246ee9214e65'' ''fiberio::socket''],
     ent ''read_5fstring_5fexactly'' ''read_string_exactly''
       [lnk ''../classfiberio_1_1socket.html#ae7308a0269bdf33366e62659b4560dd0'' ''fiberio::socket'']]"

definition data_functions_8 :: "entry list" where
  "data_functions_8 =
    [ent ''server_5fsocket'' ''server_socket''
       [lnk ''../classfiberio_1_1server__socket.html#a6e8960e2d62d1e6c50cb2bc5672413df'' ''fiberio::server_socket::server_socket()'',
        lnk ''../classfiberio_1_1server__socket.html#aa7782a82d490a3d9bc9b3310091b79ad'' ''fiberio::server_socket::server_socket(server_socket &amp;&amp;other)''],
     ent ''socket'' ''socket''
       [lnk ''../classfiberio_1_1socket.html#adbaccae287437cbffea61ef63a5b335a'' ''fiberio::socket::socket()'',
        lnk ''../classfiberio_1_1socket.html#a3505d5b5442fbab659a03171c8c1380f'' ''fiberio::socket::socket(const socket &amp;)'',
        lnk ''../classfiberio_1_1socket.html#aef55e2d6e511de134c1765042688c4eb'' ''fiberio::socket::socket(socket &amp;&amp;)'',
        lnk ''../classfiberio_1_1socket.html#ae698291add8203878d9367d539c2077f'' ''fiberio::socket::socket(std::shared_ptr&lt; socket_impl &gt; &amp;&amp;impl)''],
     ent ''socket_5fclosed_5ferror'' ''socket_closed_error''
       [lnk ''../classfiberio_1_1socket__closed__error.html#a1dd438e328c22f7f3da09aae8bca60b0'' ''fiberio::socket_closed_error''],
     ent ''socket_5fdevice'' ''socket_device''
       [lnk ''../classfiberio_1_1detail_1_1socket__device.html#a11c605ec89c6e0225859ec2757f84c94'' ''fiberio::detail::socket_device'']]"

definition data_functions_9 :: "entry list" where
  "data_functions_9 =
    [ent ''use_5fon_5fthis_5fthread'' ''use_on_this_thread''
       [lnk ''../namespacefiberio.html#aaab0fbbbddd380677ff818cff5b5c367'' ''fiberio'']]"

definition data_functions_a :: "entry list" where
  "data_functions_a =
    [ent ''write'' ''write''
       [lnk ''../classfiberio_1_1detail_1_1socket__device.html#afa636fb67d498b5d33f05a59916cec64'' ''fiberio::detail::socket_device::write()'',
        lnk ''../classfiberio_1_1socket.html#a315c9f1e079e9597bc64437f890b6e54'' ''fiberio::socket::write(const char *data, std::size_t len)'',
        lnk ''../classfiberio_1_1socket.html#a02cdf65aa88d42f00dd37dd3608403c5'' ''fiberio::socket::write(const std::string &amp;data)'']]"

definition data_functions_b :: "entry list" where
  "data_functions_b =
    [ent ''_7eserver_5fsocket'' ''~server_socket''
       [lnk ''../classfiberio_1_1server__socket.html#a7d6f9397e7a6bd045aee1d63973a05d9'' ''fiberio::server_socket''],
     ent ''_7esocket'' ''~socket''
       [lnk ''../classfiberio_1_1socket.html#aaa34d82a9c8cb70e9fa8bdeffe44e80e'' ''fiberio::socket'']]"

definition data_variables_0 :: "entry list" where
  "data_variables_0 =
    [ent ''default_5fbuf_5fsize'' ''DEFAULT_BUF_SIZE''
       [lnk ''../classfiberio_1_1socket.html#a7e5d7a51cf2f07adccd015efe00b55e7'' ''fiberio::socket'']]"

definition data_typedefs_0 :: "entry list" where
  "data_typedefs_0 =
    [ent ''socket_5fstream'' ''socket_stream''
       [lnk ''../namespacefiberio.html#a334505dc79d8951a1db4c0543505d855'' ''fiberio''],
     ent ''socket_5fstreambuf'' ''socket_streambuf''
       [lnk ''../namespacefiberio.html#aaddb547a03a494fbb2730f2c6ee74f48'' ''fiberio'']]"

definition data_pages_0 :: "entry list" where
  "data_pages_0 =
    [ent ''overview'' ''Overview''
       [lnk ''../index.html'' '''']]"

text \<open>The pages of each section, in the order of its first characters.\<close>

definition site :: "entry list list list" where
  "site =
    [[data_all_0, data_all_1, data_all_2, data_all_3, data_all_4, data_all_5, data_all_6, data_all_7, data_all_8, data_all_9, data_all_a, data_all_b, data_all_c, data_all_d, data_all_e],
     [data_classes_0, data_classes_1, data_classes_2],
     [data_namespaces_0],
     [data_files_0, data_files_1, data_files_2, data_files_3, data_files_4],
     [data_functions_0, data_functions_1, data_functions_2, data_functions_3, data_functions_4, data_functions_5, data_functions_6, data_functions_7, data_functions_8, data_functions_9, data_functions_a, data_functions_b],
     [data_variables_0],
     [data_typedefs_0],
     [data_pages_0]]"

section \<open>Filing\<close>

text \<open>Every entry is in the page of its first character, but for the namespace \<open>fiberio::detail\<close>.\<close>

definition in_place :: "code_unit \<Rightarrow> entry \<Rightarrow> bool" where
  "in_place c x \<longleftrightarrow> entry_name x = js ''detail'' \<or> filed c x"

definition filed_name :: "code_unit \<Rightarrow> string \<Rightarrow> string \<Rightarrow> bool" where
  "filed_name c i n \<longleftrightarrow>
     n = ''detail'' \<or>
     list_all is_ascii (js n) \<and> js i = convertToId (map ascii_lower (js n)) \<and>
     n \<noteq> [] \<and> ascii_lower (hd (js n)) = c"

lemma in_place_ent: "in_place c (ent i n ls) = filed_name c i n"
  by (auto simp: in_place_def filed_name_def filed_def entry_ok_def first_char_def ent_def split: list.splits)

lemmas name_simps =
  filed_name_def js_def is_ascii_def convertToId_def convert_char_def id_char_def ascii_lower_def
  to_string16.simps hex_digit_def

lemma data_in_place:
  "list_all (in_place 97) data_all_0"
  "list_all (in_place 98) data_all_1"
  "list_all (in_place 99) data_all_2"
  "list_all (in_place 100) data_all_3"
  "list_all (in_place 101) data_all_4"
  "list_all (in_place 102) data_all_5"
  "list_all (in_place 103) data_all_6"
  "list_all (in_place 105) data_all_7"
  "list_all (in_place 108) data_all_8"
  "list_all (in_place 111) data_all_9"
  "list_all (in_place 114) data_all_a"
  "list_all (in_place 115) data_all_b"
  "list_all (in_place 117) data_all_c"
  "list_all (in_place 119) data_all_d"
  "list_all (in_place 126) data_all_e"
  "list_all (in_place 97) data_classes_0"
  "list_all (in_place 105) data_classes_1"
  "list_all (in_place 115) data_classes_2"
  "list_all (in_place 102) data_namespaces_0"
  "list_all (in_place 97) data_files_0"
  "list_all (in_place 101) data_files_1"
  "list_all (in_place 102) data_files_2"
  "list_all (in_place 105) data_files_3"
  "list_all (in_place 115) data_files_4"
  "list_all (in_place 97) data_functions_0"
  "list_all (in_place 98) data_functions_1"
  "list_all (in_place 99) data_functions_2"
  "list_all (in_place 103) data_functions_3"
  "list_all (in_place 105) data_functions_4"
  "list_all (in_place 108) data_functions_5"
  "list_all (in_place 111) data_functions_6"
  "list_all (in_place 114) data_functions_7"
  "list_all (in_place 115) data_functions_8"
  "list_all (in_place 117) data_functions_9"
  "list_all (in_place 119) data_functions_a"
  "list_all (in_place 126) data_functions_b"
  "list_all (in_place 100) data_variables_0"
  "list_all (in_place 115) data_typedefs_0"
  "list_all (in_place 111) data_pages_0"
  by (simp add:
    data_all_0_def data_all_1_def data_all_2_def data_all_3_def data_all_4_def data_all_5_def
    data_all_6_def data_all_7_def data_all_8_def data_all_9_def data_all_a_def data_all_b_def
    data_all_c_def data_all_d_def data_all_e_def data_classes_0_def data_classes_1_def
    data_classes_2_def data_namespaces_0_def data_files_0_def data_files_1_def data_files_2_def
    data_files_3_def data_files_4_def data_functions_0_def data_functions_1_def data_functions_2_def
    data_functions_3_def data_functions_4_def data_functions_5_def data_functions_6_def
    data_functions_7_def data_functions_8_def data_functions_9_def data_functions_a_def
    data_functions_b_def data_variables_0_def data_typedefs_0_def data_pages_0_def in_place_ent; simp add: name_simps)+

lemma site_in_place:
  "list_all2 (list_all2 (\<lambda>c. list_all (in_place c)))
     (indexSectionsWithContent (fiberio_env lc gt1)) site"
  unfolding fiberio_env_def site_def
  by (simp add: data_in_place js_def)

lemma site_contents_distinct:
  "i < length (indexSectionsWithContent (fiberio_env lc gt1)) \<Longrightarrow>
     distinct (indexSectionsWithContent (fiberio_env lc gt1) ! i)"
proof -
  have "list_all distinct (indexSectionsWithContent (fiberio_env lc gt1))"
    by (simp add: fiberio_env_def js_def)
  then show "i < length (indexSectionsWithContent (fiberio_env lc gt1)) \<Longrightarrow>
     distinct (indexSectionsWithContent (fiberio_env lc gt1) ! i)"
    by (simp add: list_all_length)
qed

lemma site_filed:
  assumes "i < length site" and "j < length (site ! i)" and "e < length (site ! i ! j)"
    and "entry_name (site ! i ! j ! e) \<noteq> js ''detail''"
  shows "i < length (indexSectionsWithContent (fiberio_env lc gt1))"
    and "j < length (indexSectionsWithContent (fiberio_env lc gt1) ! i)"
    and "filed (indexSectionsWithContent (fiberio_env lc gt1) ! i ! j) (site ! i ! j ! e)"
proof -
  note s = site_in_place [of lc gt1]
  show i: "i < length (indexSectionsWithContent (fiberio_env lc gt1))"
    using list_all2_lengthD [OF s] assms(1) by simp
  note si = list_all2_nthD [OF s i]
  show j: "j < length (indexSectionsWithContent (fiberio_env lc gt1) ! i)"
    using list_all2_lengthD [OF si] assms(2) by simp
  have "in_place (indexSectionsWithContent (fiberio_env lc gt1) ! i ! j) (site ! i ! j ! e)"
    using list_all2_nthD [OF si j] assms(3) by (simp add: list_all_length)
  then show "filed (indexSectionsWithContent (fiberio_env lc gt1) ! i ! j) (site ! i ! j ! e)"
    using assms(4) by (simp add: in_place_def)
qed

lemma detail_entries:
  assumes "i = 0 \<or> i = 2"
  shows "list_all2 (\<lambda>c. list_all (\<lambda>x. entry_name x = js ''detail'' \<longrightarrow> c = 102 \<and> entry_id x = js ''detail''))
    (indexSectionsWithContent (fiberio_env lc gt1) ! i) (site ! i)"
proof -
  have "indexSectionsWithContent (fiberio_env lc gt1) ! 0 = [97, 98, 99, 100, 101, 102, 103, 105, 108, 111, 114, 115, 117, 119, 126]"
    "indexSectionsWithContent (fiberio_env lc gt1) ! 2 = [102]"
    by (simp_all add: fiberio_env_def js_def)
  with assms show ?thesis by (auto simp: site_def ent_def
    data_all_0_def data_all_1_def data_all_2_def data_all_3_def data_all_4_def data_all_5_def
    data_all_6_def data_all_7_def data_all_8_def data_all_9_def data_all_a_def data_all_b_def
    data_all_c_def data_all_d_def data_all_e_def data_namespaces_0_def)
qed

lemma detail_present:
  assumes "i = 0 \<or> i = 2"
  shows "\<exists>j<length (site ! i). \<exists>e<length (site ! i ! j). entry_name (site ! i ! j ! e) = js ''detail''"
proof -
  have "5 < length (site ! 0)" "0 < length (site ! 0 ! 5)" "entry_name (site ! 0 ! 5 ! 0) = js ''detail''"
    "0 < length (site ! 2)" "0 < length (site ! 2 ! 0)" "entry_name (site ! 2 ! 0 ! 0) = js ''detail''"
    by (simp_all add: site_def data_all_5_def data_namespaces_0_def ent_def)
  with assms show ?thesis by blast
qed

lemma detail_row_hidden:
  assumes lc: "lowers_units lc" and q: "list_all is_ascii q" "trim q = c # s" "ascii_lower c = 102"
    and e: "e < length xs" "entry_name (xs ! e) = js ''detail''" "entry_id (xs ! e) = js ''detail''"
    and w: "load_page lc xs (63 # escape (strip_leading q)) = Ret w"
  shows "display_of (document w) (row_path e) = js ''none''"
proof -
  have ascii: "list_all is_ascii (strip_leading q)" "list_all is_ascii (trim q)"
    using q(1) by (auto simp: trim_def strip_leading_def strip_trailing_def list_all_iff dest!: set_dropWhileD)
  have units: "list_all is_unit (strip_leading q)" "list_all is_unit (trim q)"
    using ascii by (auto simp: list_all_iff is_ascii_def is_unit_def)
  have ok: "entry_ok (xs ! e)" unfolding entry_ok_def e(2,3)
    by (simp add: js_def is_ascii_def convertToId_def convert_char_def id_char_def ascii_lower_def)
  have low: "lc (trim q) = map ascii_lower (trim q)"
    using lc ascii(2) by (simp add: lowers_units_def lowers_ascii_def)
  then have "\<not> prefix (lc (trim q)) (map ascii_lower (entry_name (xs ! e)))"
    unfolding low e(2) q(2) using q(3) by (simp add: js_def ascii_lower_def [of 100])
  then have "\<not> entry_matches lc (convertToId (lc (trim q))) (xs ! e)"
    using entry_matches_name [OF lc ok units(2)] by simp
  moreover have "search_term lc (63 # escape (strip_leading q)) [] = convertToId (lc (trim q))"
    by (simp add: search_term_query [OF units(1)] trim_def strip_leading_idem)
  moreover obtain v where "load_page lc xs (63 # escape (strip_leading q)) = Ret v"
    "display_of (document v) (results_path @ [e]) =
      (if entry_matches lc (search_term lc (63 # escape (strip_leading q)) []) (xs ! e)
       then js ''block'' else js ''none'')"
    using load_page_eq [of lc xs "63 # escape (strip_leading q)"] e(1) by metis
  ultimately show ?thesis using w by (simp add: row_path_def)
qed

end
