(* ===== verification/Spec2Isabelle.thy ===== *)
theory Spec2Isabelle
  imports Composition SocketHandle Echo DynSections Page SearchData
begin

text \<open>
  \<^bold>\<open>A verification development for FiberIO.\<close>

  FiberIO is a C++ library that lets Boost.Fiber programs do network I/O in blocking style on top
  of libuv. The repository also publishes its documentation as a site with a client-side search, foldable
  tables and a menu in JavaScript. Both are modelled here, from the sources under \<open>src/\<close>, \<open>include/\<close> and \<open>docs/html/\<close> of the repository.

  \<^bold>\<open>The library.\<close> Every thread that calls \<open>use_on_this_thread\<close> runs its fibers under a
  \<open>scheduler\<close>; when no fiber is ready, \<open>suspend_until\<close> runs the thread's libuv loop. A socket
  operation starts a libuv request and suspends the fiber on a promise or a condition variable
  that the request's callback completes, from inside the loop. Theories and sources:

  \<^item> \<open>Scheduler\<close> (\<open>src/scheduler.cpp\<close>): the ready queue, the timer arithmetic on 64-bit words, and
    \<open>suspend_until\<close> cut into its atomic steps, interleaved with \<open>notify\<close> of other threads
    (\<open>sched_step\<close>; the mutex sections are single steps). Lemmas: the queue is first-in first-out
    (locale \<open>fifo\<close>); an invariant of the suspension protocol gives that a notification is never lost, that the
    thread never leaves the loop without a reason, and that the libuv timer is only armed inside it.
  \<^item> \<open>UvLoop\<close> (\<open>src/loop.cpp\<close>): the \<open>thread_local\<close> loop and the order of its libuv calls.
  \<^item> \<open>Errors\<close> (\<open>src/utils.cpp\<close>, \<open>src/utils.hpp\<close>, \<open>include/fiberio/exceptions.hpp\<close>,
    \<open>src/addrinfo.cpp\<close>): exceptions as a datatype, status codes, completion callbacks, name resolution. libuv's constants
    and texts are the record \<open>uv_lib\<close>, an argument; \<open>uv_codes_ok\<close> states what libuv documents of them.
  \<^item> \<open>SocketImpl\<close> (\<open>src/socket_impl.cpp\<close>): \<open>connect\<close>, \<open>read\<close>, \<open>write\<close> and \<open>close\<close>, cut where they
    suspend; \<open>sock_step\<close> interleaves any number of fibers and libuv's callbacks on one socket.
    The invariant ties \<open>reading_\<close>, \<open>buf_\<close>, \<open>closed_\<close>, libuv's reading state and the fibers' positions together.
  \<^item> \<open>ServerSocketImpl\<close> (\<open>src/server_socket_impl.cpp\<close>): binding and the bound address, \<open>listen\<close>, \<open>accept\<close>, \<open>close\<close>; every run
    of the listening socket whose backlog stays below the overflow of the 32-bit counter is a run of a counting semaphore (locale \<open>simulation\<close>).
  \<^item> \<open>Socket\<close> (\<open>src/socket.cpp\<close>, \<open>include/fiberio/iostream.hpp\<close>): \<open>read_exactly\<close>,
    \<open>read_string\<close>, \<open>read_string_exactly\<close> and the stream device, proved once for every \<open>byte_source\<close>
    (a locale) and interpreted on the read of \<open>SocketImpl\<close>, with a \<open>close\<close> at the end of the stream that may fail and buffers that may be null.
  \<^item> \<open>SocketHandle\<close> (\<open>src/socket.cpp\<close>, \<open>src/server_socket.cpp\<close>): the handle classes with their reference counts; the lifetime
    of implementation objects and what their destructors achieve, once for every \<open>handle_class\<close> (a locale), interpreted for both kinds of socket, whose objects make the steps of
    \<open>sock_step\<close> and \<open>srv_step\<close> and whose destructors are composed of the pieces of \<open>close\<close>.
  \<^item> \<open>Blocking\<close>: sockets and listening sockets as objects that fibers block on, by the laws of a locale (\<open>blocking_object\<close>): who moves
    in a step, who is notified, and that nobody waits in vain. Interpreted for both kinds and for the type \<open>io_object\<close> of either.
  \<^item> \<open>Runtime\<close> (\<open>src/fiberio.cpp\<close> and the parts above together): \<open>use_on_this_thread\<close>, and a thread with any number of
    fibers, sockets and listening sockets (\<open>thread_step\<close>), in which the callbacks that \<open>uv_run\<close> runs, and fibers that close a socket, awaken others.
    The invariant ties the ready queue to the positions of the fibers in the objects' operations: no wake-up is lost
    between the parts, the thread does not sleep while a fiber can go on, a ready fiber is resumed in its turn, and no fiber is
    blocked for good while libuv can still report something (on a listening socket it can once \<open>listen\<close> has succeeded).
  \<^item> \<open>Composition\<close>: in a thread, libuv writes only to buffers of suspended fibers.
  \<^item> \<open>Echo\<close> (\<open>examples/fiber_echo_server.cpp\<close>, \<open>fiber_echo_client.cpp\<close>): the session of the server and the loop of the client as
    programs over \<open>Socket\<close>.

  \<^bold>\<open>The documentation search.\<close> A page's search panel picks a results page by the first character of the
  text; the results page, in a frame, builds its rows from its data file, shows the rows that
  match the text and moves the focus by keyboard; its keys call back into the panel.

  \<^item> \<open>JsString\<close>: strings as lists of UTF-16 code units, the library functions the scripts call,
    and \<open>convertToId\<close>, shown to be a prefix code (locale \<open>prefix_code\<close>).
  \<^item> \<open>Dom\<close>: document trees with paths as references; lookups, updates and the facts on their interplay;
    locale \<open>numbered_elements\<close>, the contract of the loops over \<open>Item0\<close>, \<open>Item1\<close>, and so on.
  \<^item> \<open>SearchResults\<close> (\<open>search.js\<close>, class \<open>SearchResults\<close> and \<open>createResults\<close>): the pointer walk of \<open>FindChildElement\<close>
    against a recursive reference, the search, keyboard navigation, the construction of rows.
  \<^item> \<open>ResultsPage\<close> (\<open>search/all_0.html\<close> and its siblings): a page from loading on, with all the calls its links make.
  \<^item> \<open>SearchBox\<close> (\<open>search.js\<close>, class \<open>SearchBox\<close> and \<open>init_search\<close>): the panel, its timers and focus, as a state
    machine \<open>ui_step\<close> that also runs the keys of the results frame.
  \<^item> \<open>SearchIndex\<close> and \<open>SearchData\<close> (\<open>search/searchdata.js\<close>, the data files): the panel and the pages together, and
    the repository's own index.

  \<^bold>\<open>The pages.\<close> The scripts that fold tables and sections and build the menu act through jQuery.

  \<^item> \<open>JQuery\<close> (\<open>docs/html/jquery.js\<close>): the class methods as operations on attribute texts, shown to implement sets of words
    (locale \<open>class_attribute\<close>), and \<open>show\<close> and \<open>hide\<close> with the display they remember.
  \<^item> \<open>DynSections\<close> (\<open>docs/html/dynsections.js\<close>): sections, directory tables, inherited members, ids of tool tips. Row ids are
    decoded to paths; what a table shows is a set of paths, and the clicks of a user are a reachability relation on tables
    (\<open>table_reachable\<close>) with the invariant that a visible row's ancestors are visible.
  \<^item> \<open>Menu\<close> (\<open>docs/html/menu.js\<close>, \<open>menudata.js\<close>): printing the menu, a parser that inverts it, and the assembled navigation bar.
  \<^item> \<open>Page\<close> (\<open>docs/html/index.html\<close>): the markup of a page with any menu in it, read back into elements and attributes, against the ids
    and handlers that the search panel relies on.

  \<^bold>\<open>Conventions.\<close> A data member \<open>x_\<close> is the record field \<open>x\<close>. Exceptions are values of sum types; a
  JavaScript \<open>TypeError\<close> is \<open>TypeError\<close> of type \<open>res\<close>, or a flag beside the state where a handler may
  throw halfway. A step function returns \<open>None\<close> for an event that is not enabled. \<open>Prelude\<close> has
  runs and reachable states, the locale \<open>inductive_invariant\<close>, which every component's invariant interprets, and its extension
  \<open>simulation\<close>, which maps runs to runs of an abstract machine.

  \<^bold>\<open>Bounds.\<close> \<open>read_exactly\<close> and \<open>device_read\<close> take the number of reads they may make: a read may wait for ever, and
  the properties give a number that suffices on a connection with finitely many arrivals. \<open>FindChildElement\<close>, \<open>NavNext\<close>,
  \<open>NavPrev\<close> and the child loop of \<open>Nav\<close> are bounded by the number of nodes of the document plus one;
  the properties show that this bound is never reached (\<open>Spin\<close> does not occur). The menu parser gets the length of its input as
  bound on its recursion, and the round trip shows that it suffices. \<open>echo_session\<close> takes the number of iterations of its loop; its property
  gives a number that suffices. \<open>pending_connections_\<close> is a 32-bit word; its increment overflows a C++ \<open>int\<close> after 2147483647 connections that nobody takes, and the properties
  of the count are stated for backlogs below that.

  \<^bold>\<open>What is a parameter.\<close> libuv's codes and the results of its calls and callbacks; \<open>inet_ntop\<close>; \<open>toLowerCase\<close>
  (\<open>lowers_units\<close>: it lowers ASCII letters and yields code units); the value of a text read as a number; the layout of the page;
  the \<open>smartmenus\<close> plug-in, a minified third-party program in \<open>jquery.js\<close> (nothing is assumed or shown of what it does with the menu); what Boost.Fiber does with the scheduler it is given in \<open>use_on_this_thread\<close>; for \<open>show\<close>, the default display of an element's tag.

  \<^bold>\<open>What is not modelled.\<close> The inside of Boost.Fiber: \<open>Runtime\<close> uses the documented contract of a scheduling algorithm (\<open>awakened\<close> for a fiber that
  becomes ready, \<open>pick_next\<close> for the next one, \<open>suspend_until\<close> only if none is ready), one fiber of a thread running at a time
  (\<open>thread_step\<close>, \<open>run_op\<close> and \<open>resume\<close> put the components together and translate no code of their own);
  reads of other fibers into a null buffer (\<open>sock_step\<close> takes the caller's buffer to be one that exists; \<open>conn_read_at\<close> of \<open>Socket\<close> covers the null pointer for a single
  fiber, but not that libuv goes on reading after such a read has returned);
  which socket object a connection becomes when \<open>accept\<close> takes it;
  the C++ memory model (each mutex section is atomic); destruction of a socket that is in use; HTML inside \<open>innerHTML\<close>
  (the index holds plain text); a results page that is opened outside of the panel's frame (the calls of \<open>Nav\<close> and its siblings on \<open>parent\<close> are taken to succeed);
  ids with characters that have a meaning in selectors (\<open>toggleVisibility\<close> compares ids as texts) and section links without an id; an element counts as visible if its own display is not \<open>none\<close>, that is, its ancestors are taken to be displayed
  and its box not empty; the rest of jQuery (selectors, events, animation) and its plug-ins; the test programs, the benchmarks, build files and style sheets.
\<close>

section \<open>The search of the documentation, end to end\<close>

text \<open>
  C8. The documentation's search finds its symbols. For every section, every entry of its data
  files but the namespace \<open>detail\<close>, and every non-empty ASCII text that the entry's name starts with,
  upper or lower case and with spaces around it: the panel opens the results page that holds the entry, with
  the text as query, and that page displays the entry's row.
\<close>

theorem documented_symbols_are_found:
  assumes "lowers_units lc" and "list_all is_ascii q" and "trim q \<noteq> []"
    and "i < length site" and "j < length (site ! i)" and "e < length (site ! i ! j)"
    and "entry_name (site ! i ! j ! e) \<noteq> js ''detail''"
    and "prefix (map ascii_lower (trim q)) (map ascii_lower (entry_name (site ! i ! j ! e)))"
  shows "\<exists>w. results_pages (fiberio_env lc gt1) path i (strip_leading q) =
      Some (page_url (fiberio_env lc gt1) path i j,
            page_url (fiberio_env lc gt1) path i j @ 63 # escape (strip_leading q)) \<and>
    load_page lc (site ! i ! j) (63 # escape (strip_leading q)) = Ret w \<and>
    display_of (document w) (row_path e) = js ''block''"
proof -
  have lc: "to_lower (fiberio_env lc gt1) = lc" by (simp add: fiberio_env_def)
  show ?thesis
    using search_finds_entry [of "fiberio_env lc gt1" q i j e "site ! i ! j" path] assms
      site_filed [OF assms(4-7)] site_contents_distinct unfolding lc by blast
qed

theorem documented_symbols_are_found_witness:
  "\<exists>w. results_pages (fiberio_env (map ascii_lower) (\<lambda>s. True)) (js ''search'') 4 (js ''AcC'') =
      Some (js ''search/functions_0.html'', js ''search/functions_0.html?AcC'') \<and>
    load_page (map ascii_lower) data_functions_0 (js ''?AcC'') = Ret w \<and>
    display_of (document w) (row_path 0) = js ''block''"
proof -
  let ?env = "fiberio_env (map ascii_lower) (\<lambda>s. True)"
  have h: "list_all is_ascii (js '' AcC'')" "trim (js '' AcC'') \<noteq> []" "strip_leading (js '' AcC'') = js ''AcC''"
    by (simp_all add: js_def is_ascii_def trim_def strip_leading_def strip_trailing_def)
  have s: "(4::nat) < length site" "0 < length (site ! 4)" "site ! 4 ! 0 = data_functions_0"
    by (simp_all add: site_def)
  have e: "0 < length data_functions_0" "entry_name (data_functions_0 ! 0) = js ''accept''"
    by (simp_all add: data_functions_0_def ent_def)
  then have p: "entry_name (data_functions_0 ! 0) \<noteq> js ''detail''"
    "prefix (map ascii_lower (trim (js '' AcC''))) (map ascii_lower (entry_name (data_functions_0 ! 0)))"
    by (simp_all add: js_def ascii_lower_def trim_def strip_leading_def strip_trailing_def)
  have "page_url ?env (js ''search'') 4 0 = js ''search/functions_0.html''"
    by (simp add: page_url_def section_name_def fiberio_env_def to_string16.simps hex_digit_def) (simp add: js_def)
  moreover have "63 # escape (js ''AcC'') = js ''?AcC''"
    by (simp add: escape_def escape_char_def escape_safe_def js_def)
  moreover have "js ''search/functions_0.html'' @ js ''?AcC'' = js ''search/functions_0.html?AcC''"
    by (simp add: js_def)
  ultimately show ?thesis
    using documented_symbols_are_found [OF map_lower_units h(1,2) s(1,2), of 0 "\<lambda>s. True" "js ''search''"]
      h(3) s(3) e(1) p by simp
qed

text \<open>
  C40. The namespace \<open>fiberio::detail\<close> is in the data of the sections "All" and "Namespaces", and wherever it is there, its page is the one for the
  letter \<open>f\<close>; and so no search finds it: for every ASCII text that is not blank and is searched for in these sections, either there is no
  page for it, or the page of the section that opens has no such entry or does not display it.
\<close>

theorem detail_namespace_not_found:
  assumes "lowers_units lc" and "list_all is_ascii q" and "trim q \<noteq> []" and "i = 0 \<or> i = 2"
  shows "(\<exists>j<length (site ! i). \<exists>e<length (site ! i ! j). entry_name (site ! i ! j ! e) = js ''detail'') \<and>
    (\<forall>j<length (site ! i). \<forall>e<length (site ! i ! j). entry_name (site ! i ! j ! e) = js ''detail'' \<longrightarrow>
       j < length (indexSectionsWithContent (fiberio_env lc gt1) ! i) \<and>
       [indexSectionsWithContent (fiberio_env lc gt1) ! i ! j] = js ''f'') \<and>
    (results_pages (fiberio_env lc gt1) path i (strip_leading q) =
       Some (path @ js ''/nomatches.html'', path @ js ''/nomatches.html'') \<or>
     (\<exists>j<length (site ! i). \<exists>w. results_pages (fiberio_env lc gt1) path i (strip_leading q) =
          Some (page_url (fiberio_env lc gt1) path i j,
                page_url (fiberio_env lc gt1) path i j @ 63 # escape (strip_leading q)) \<and>
        load_page lc (site ! i ! j) (63 # escape (strip_leading q)) = Ret w \<and>
        (\<forall>e<length (site ! i ! j). entry_name (site ! i ! j ! e) = js ''detail'' \<longrightarrow>
           display_of (document w) (row_path e) = js ''none'')))"
proof -
  let ?env = "fiberio_env lc gt1"
  let ?cs = "indexSectionsWithContent ?env ! i"
  have i: "i < length (indexSectionsWithContent ?env)" using assms(4) by (auto simp: fiberio_env_def)
  obtain c s where cs: "trim q = c # s" using assms(3) by (cases "trim q") auto
  obtain t where t: "strip_leading q = c # t" using trim_first [OF cs] .
  have lower: "lowers_ascii (to_lower ?env)" using assms(1) by (simp add: lowers_units_def fiberio_env_def)
  have ascii: "list_all is_ascii (c # t)"
    using assms(2) t by (metis list_all_iff set_dropWhileD strip_leading_def)
  have len: "length ?cs = length (site ! i)" using list_all2_lengthD [OF detail_entries [OF assms(4)]] .
  have at: "list_all (\<lambda>x. entry_name x = js ''detail'' \<longrightarrow> ?cs ! j = 102 \<and> entry_id x = js ''detail'') (site ! i ! j)"
    if "j < length (site ! i)" for j
    by (rule list_all2_nthD [OF detail_entries [OF assms(4)]]) (simp add: len that)
  have f: "[?cs ! j] = js ''f''" if "j < length (site ! i)" "e < length (site ! i ! j)" "entry_name (site ! i ! j ! e) = js ''detail''" for j e
    using at [OF that(1)] that(2,3) by (simp add: list_all_length js_def)
  have "\<exists>j<length (site ! i). \<exists>e<length (site ! i ! j). entry_name (site ! i ! j ! e) = js ''detail''"
    by (rule detail_present [OF assms(4)])
  then have ex: "(\<exists>j<length (site ! i). \<exists>e<length (site ! i ! j). entry_name (site ! i ! j ! e) = js ''detail'') \<and>
    (\<forall>j<length (site ! i). \<forall>e<length (site ! i ! j). entry_name (site ! i ! j ! e) = js ''detail'' \<longrightarrow>
       j < length ?cs \<and> [?cs ! j] = js ''f'')" using f len by auto
  show ?thesis
  proof (cases "ascii_lower c \<in> set ?cs")
    case False
    then show ?thesis using ex results_pages_absent [OF lower ascii i] t by simp
  next
    case True
    then obtain j where j: "j < length ?cs" "?cs ! j = ascii_lower c" by (auto simp: in_set_conv_nth)
    have pages: "results_pages ?env path i (strip_leading q) =
        Some (page_url ?env path i j, page_url ?env path i j @ 63 # escape (strip_leading q))"
      using results_pages_found [OF lower ascii i site_contents_distinct [OF i] j] t by simp
    obtain w where w: "load_page lc (site ! i ! j) (63 # escape (strip_leading q)) = Ret w"
      using load_page_eq by metis
    have jl: "j < length (site ! i)" using j(1) len by simp
    from at [OF this] have "display_of (document w) (row_path e) = js ''none''"
      if "e < length (site ! i ! j)" "entry_name (site ! i ! j ! e) = js ''detail''" for e
      using that detail_row_hidden [OF assms(1,2) cs _ that(1,2) _ w] j(2) by (simp add: list_all_length)
    then show ?thesis using ex pages w jl by blast
  qed
qed

theorem detail_namespace_not_found_witness:
  "results_pages (fiberio_env (map ascii_lower) (\<lambda>s. True)) (js ''search'') 2 (js ''detail'') =
     Some (js ''search/nomatches.html'', js ''search/nomatches.html'')"
proof -
  let ?env = "fiberio_env (map ascii_lower) (\<lambda>s. True)"
  have h: "list_all is_ascii (js ''detail'')" "trim (js ''detail'') \<noteq> []" "strip_leading (js ''detail'') = js ''detail''"
    by (simp_all add: js_def is_ascii_def trim_def strip_leading_def strip_trailing_def)
  have "index_of (indexSectionsWithContent ?env ! 2) (index_char ?env (js ''detail'')) = - 1"
    by (simp add: fiberio_env_def index_char_def js_def ascii_lower_def index_of_def)
  then have "results_pages ?env (js ''search'') 2 (js ''detail'') \<noteq>
      Some (page_url ?env (js ''search'') 2 j, page_url ?env (js ''search'') 2 j @ 63 # escape (js ''detail''))" for j
    by (simp add: results_pages_def Let_def)
  moreover have "js ''search'' @ js ''/nomatches.html'' = js ''search/nomatches.html''" by (simp add: js_def)
  ultimately show ?thesis
    using detail_namespace_not_found [OF map_lower_units h(1,2), of 2 "\<lambda>s. True" "js ''search''"] h(3) by simp
qed

end
